(* ===== verification/Ed2k_Prelude.thy ===== *)
theory Ed2k_Prelude
  imports Main "HOL-Library.Word" "HOL-Library.Multiset"
begin

text \<open>
  What the components of the library share: the names of the machine integers the C++ code
  uses, the collections of rewrite rules the component proofs draw on, and generic facts about
  lists that are split at a position, updated in place or kept sorted.
\<close>

unbundle bit_operations_syntax

section \<open>Machine integers\<close>

type_synonym uint8 = "8 word"
type_synonym uint16 = "16 word"
type_synonym uint32 = "32 word"

text \<open>
  \<open>int_div\<close> is the division of C++ on \<open>int\<close>: it truncates towards zero.
\<close>

definition int_div :: "int \<Rightarrow> int \<Rightarrow> int" where
  "int_div a b = sgn a * sgn b * (\<bar>a\<bar> div \<bar>b\<bar>)"

lemma int_div_nonneg: "0 \<le> a \<Longrightarrow> 0 < b \<Longrightarrow> int_div a b = a div b"
  by (cases "a = 0") (simp_all add: int_div_def)

section \<open>Collections\<close>

named_theorems list_split_simps \<open>splitting a sorted list at a bound\<close>
named_theorems access_list_simps \<open>the set operations on a decomposed access list\<close>
named_theorems eval_simps \<open>evaluation of concrete lists with numerals as positions\<close>

section \<open>Lists\<close>

text \<open>\<open>std::vector::resize(n, v)\<close>.\<close>

definition resize :: "nat \<Rightarrow> 'a \<Rightarrow> 'a list \<Rightarrow> 'a list" where
  "resize n v xs = (if n \<le> length xs then take n xs else xs @ replicate (n - length xs) v)"

lemma length_resize [simp]: "length (resize n v xs) = n"
  by (simp add: resize_def)

lemma takeWhile_append_all [list_split_simps]:
  "\<forall>x \<in> set xs. P x \<Longrightarrow> takeWhile P (xs @ ys) = xs @ takeWhile P ys"
  by (induction xs) auto

lemma takeWhile_none [list_split_simps]:
  "\<forall>x \<in> set xs. \<not> P x \<Longrightarrow> takeWhile P xs = []"
  by (cases xs) auto

lemma dropWhile_append_all [list_split_simps]:
  "\<forall>x \<in> set xs. P x \<Longrightarrow> dropWhile P (xs @ ys) = dropWhile P ys"
  by (induction xs) auto

lemma dropWhile_all [list_split_simps]: "\<forall>x \<in> set xs. P x \<Longrightarrow> dropWhile P xs = []"
  by (induction xs) auto

lemma takeWhile_all [list_split_simps]: "\<forall>x \<in> set xs. P x \<Longrightarrow> takeWhile P xs = xs"
  by (induction xs) auto

lemma dropWhile_none [list_split_simps]:
  "\<forall>x \<in> set xs. \<not> P x \<Longrightarrow> dropWhile P xs = xs"
  by (cases xs) auto

lemma filter_all [list_split_simps]: "\<forall>x \<in> set xs. P x \<Longrightarrow> filter P xs = xs"
  by (induction xs) auto

lemma filter_none [list_split_simps]: "\<forall>x \<in> set xs. \<not> P x \<Longrightarrow> filter P xs = []"
  by (induction xs) auto

text \<open>Concrete lists are evaluated with binary positions and lengths.\<close>

lemma list_update_numeral [eval_simps]: "(x # xs)[numeral k := y] = x # xs[pred_numeral k := y]"
  by (simp add: numeral_eq_Suc)

lemma replicate_numeral [eval_simps]: "replicate (numeral k) x = x # replicate (pred_numeral k) x"
  by (simp add: numeral_eq_Suc)

lemma upt_zero_numeral [eval_simps]: "[0..<numeral k] = [0..<pred_numeral k] @ [pred_numeral k]"
  by (simp add: numeral_eq_Suc)

lemma last_in_set_append: "xs \<noteq> [] \<Longrightarrow> last xs \<in> set (xs @ ys)"
  by simp

end
