(* ===== verification/Ip_Filter.thy ===== *)
theory Ip_Filter
  imports Ed2k_Prelude "HOL-Library.List_Lexorder"
begin

text \<open>
  The address filter of \<^verbatim>\<open>include/libed2k/ip_filter.hpp\<close> and \<^verbatim>\<open>src/ip_filter.cpp\<close>: an ordered
  set of range starts, each with the access flags that hold up to the next start. The class
  template \<open>filter_impl\<close> is written over the address arithmetic it calls (\<open>zero\<close>, \<open>plus_one\<close>,
  \<open>minus_one\<close>, \<open>max_addr\<close>); the locale \<open>addr_space\<close> states what it relies on, and is
  interpreted for 16-bit ports and for the byte arrays of IPv4 and IPv6.
\<close>

section \<open>Address arithmetic\<close>

definition zero_bytes :: "nat \<Rightarrow> uint8 list" where
  "zero_bytes n = replicate n 0"

definition max_bytes :: "nat \<Rightarrow> uint8 list" where
  "max_bytes n = replicate n 255"

text \<open>The loops run from the last byte to the first and stop at the first one without carry.\<close>

fun plus_one_from :: "nat \<Rightarrow> uint8 list \<Rightarrow> uint8 list" where
  "plus_one_from 0 tmp = tmp"
| "plus_one_from (Suc i) tmp =
     (if tmp ! i < 255 then tmp[i := tmp ! i + 1] else plus_one_from i (tmp[i := 0]))"

definition plus_one :: "uint8 list \<Rightarrow> uint8 list" where
  "plus_one a = plus_one_from (length a) a"

fun minus_one_from :: "nat \<Rightarrow> uint8 list \<Rightarrow> uint8 list" where
  "minus_one_from 0 tmp = tmp"
| "minus_one_from (Suc i) tmp =
     (if tmp ! i > 0 then tmp[i := tmp ! i - 1] else minus_one_from i (tmp[i := 255]))"

definition minus_one :: "uint8 list \<Rightarrow> uint8 list" where
  "minus_one a = minus_one_from (length a) a"

definition zero_port :: uint16 where
  "zero_port = 0"

definition plus_one_port :: "uint16 \<Rightarrow> uint16" where
  "plus_one_port val = val + 1"

definition minus_one_port :: "uint16 \<Rightarrow> uint16" where
  "minus_one_port val = val - 1"

definition max_addr_port :: uint16 where
  "max_addr_port = 0xffff"

section \<open>The ordered set of ranges\<close>

record 'a rng =
  start :: 'a
  rng_access :: int

abbreviation mk_rng :: "'a \<Rightarrow> int \<Rightarrow> 'a rng" where
  "mk_rng a f \<equiv> \<lparr>start = a, rng_access = f\<rparr>"

text \<open>
  \<open>std::set<range>\<close> is the list of its elements in increasing order of \<open>start\<close>. Set
  iterators stay with their element under insertion and erasure, so an iterator is the key of
  the element it stands at, and \<open>None\<close> for \<open>end()\<close>.
\<close>

definition set_upper_bound :: "'a::linorder \<Rightarrow> 'a rng list \<Rightarrow> 'a option" where
  "set_upper_bound a l =
     (case dropWhile (\<lambda>r. start r \<le> a) l of [] \<Rightarrow> None | r # _ \<Rightarrow> Some (start r))"

definition set_begin :: "'a rng list \<Rightarrow> 'a option" where
  "set_begin l = (case l of [] \<Rightarrow> None | r # _ \<Rightarrow> Some (start r))"

definition set_prior :: "'a rng list \<Rightarrow> 'a option \<Rightarrow> 'a" where
  "set_prior l it = start (last (takeWhile (\<lambda>r. it \<noteq> Some (start r)) l))"

definition set_at :: "'a rng list \<Rightarrow> 'a \<Rightarrow> int" where
  "set_at l k = (case List.find (\<lambda>r. start r = k) l of Some r \<Rightarrow> rng_access r | None \<Rightarrow> 0)"

fun set_insert :: "'a::linorder rng \<Rightarrow> 'a rng list \<Rightarrow> 'a rng list" where
  "set_insert r [] = [r]"
| "set_insert r (x # xs) =
     (if start r < start x then r # x # xs
      else if start r = start x then x # xs
      else x # set_insert r xs)"

definition set_erase :: "'a \<Rightarrow> 'a rng list \<Rightarrow> 'a rng list" where
  "set_erase k l = filter (\<lambda>r. start r \<noteq> k) l"

text \<open>\<open>erase(next(i), j)\<close>: everything strictly between the two iterators.\<close>

definition set_erase_between :: "'a::linorder \<Rightarrow> 'a option \<Rightarrow> 'a rng list \<Rightarrow> 'a rng list" where
  "set_erase_between i j l =
     filter (\<lambda>r. \<not> (i < start r \<and> (case j of None \<Rightarrow> True | Some k \<Rightarrow> start r < k))) l"

definition set_set_access :: "'a \<Rightarrow> int \<Rightarrow> 'a rng list \<Rightarrow> 'a rng list" where
  "set_set_access k f l = map (\<lambda>r. if start r = k then r\<lparr>rng_access := f\<rparr> else r) l"

section \<open>filter\_impl\<close>

definition filter_impl :: "'a \<Rightarrow> 'a rng list" where
  "filter_impl zero = [mk_rng zero 0]"

text \<open>\<open>i = upper_bound(a); if (i != begin()) --i;\<close> finds the range an address falls in.\<close>

definition range_of :: "'a::linorder rng list \<Rightarrow> 'a \<Rightarrow> 'a" where
  "range_of l a =
    (let i = set_upper_bound a l in if i \<noteq> set_begin l then set_prior l i else the i)"

text \<open>
  \<open>add_rule\<close> statement by statement. The head finds the range \<open>i\<close> the first address falls in,
  inserts the first address or steps back to merge with the range in front of it, and erases
  everything up to \<open>j\<close>; the tail continues the old access flags after the last address, or
  merges with the range \<open>j\<close>.
\<close>

definition add_rule_head :: "'a::linorder \<Rightarrow> int \<Rightarrow> 'a option \<Rightarrow> 'a rng list \<Rightarrow> 'a rng list" where
  "add_rule_head first flags j l =
    (let i = range_of l first;
         first_access = set_at l i;
         (l, i, first_access) =
           (if i \<noteq> first \<and> first_access \<noteq> flags then
              (set_insert (mk_rng first flags) l, first, first_access)
            else if Some i \<noteq> set_begin l \<and> set_at l (set_prior l (Some i)) = flags then
              (let i' = set_prior l (Some i) in (l, i', set_at l i'))
            else (l, i, first_access));
         l = (if Some i \<noteq> j then set_erase_between i j l else l)
     in if i = first then set_set_access i flags l
        else if first_access \<noteq> flags then set_insert (mk_rng first flags) l
        else l)"

definition add_rule_tail ::
  "('a::linorder \<Rightarrow> 'a) \<Rightarrow> ('a \<Rightarrow> 'a) \<Rightarrow> 'a \<Rightarrow> 'a \<Rightarrow> int \<Rightarrow> int \<Rightarrow> 'a option \<Rightarrow> 'a rng list \<Rightarrow> 'a rng list" where
  "add_rule_tail plus1 minus1 maxa last_a flags last_access j l =
    (let (l, j) =
           (if (case j of Some k \<Rightarrow> minus1 k \<noteq> last_a | None \<Rightarrow> last_a \<noteq> maxa) \<and> last_access \<noteq> flags
            then (set_insert (mk_rng (plus1 last_a) last_access) l, Some (plus1 last_a))
            else (l, j))
     in case j of
          Some k \<Rightarrow> if set_at l k = flags then set_erase k l else l
        | None \<Rightarrow> l)"

definition add_rule ::
  "('a::linorder \<Rightarrow> 'a) \<Rightarrow> ('a \<Rightarrow> 'a) \<Rightarrow> 'a \<Rightarrow> 'a \<Rightarrow> 'a \<Rightarrow> int \<Rightarrow> 'a rng list \<Rightarrow> 'a rng list" where
  "add_rule plus1 minus1 maxa first last_a flags l =
    (let j = set_upper_bound last_a l;
         last_access = set_at l (set_prior l j)
     in add_rule_tail plus1 minus1 maxa last_a flags last_access j (add_rule_head first flags j l))"

definition access :: "'a::linorder rng list \<Rightarrow> 'a \<Rightarrow> int" where
  "access l addr = set_at l (range_of l addr)"

record 'a ip_range =
  first_addr :: 'a
  last_addr :: 'a
  range_flags :: int

fun export_filter :: "('a \<Rightarrow> 'a) \<Rightarrow> 'a \<Rightarrow> 'a rng list \<Rightarrow> 'a ip_range list" where
  "export_filter minus1 maxa [] = []"
| "export_filter minus1 maxa [r] =
     [\<lparr>first_addr = start r, last_addr = maxa, range_flags = rng_access r\<rparr>]"
| "export_filter minus1 maxa (r # r' # l) =
     \<lparr>first_addr = start r, last_addr = minus1 (start r'), range_flags = rng_access r\<rparr>
       # export_filter minus1 maxa (r' # l)"


section \<open>ip\_filter and port\_filter\<close>

text \<open>
  The default configuration compiles IPv6 out (\<^verbatim>\<open>LIBED2K_USE_IPV6\<close> is 0), so \<open>ip_filter\<close> has
  the IPv4 table only, ignores rules for other addresses and reports 0 for them.
\<close>

datatype address = V4 "uint8 list" | V6 "uint8 list"

record ip_filter =
  m_filter4 :: "uint8 list rng list"

definition ip_filter_init :: ip_filter where
  "ip_filter_init = \<lparr>m_filter4 = filter_impl (zero_bytes 4)\<rparr>"

fun ip_filter_add_rule :: "address \<Rightarrow> address \<Rightarrow> int \<Rightarrow> ip_filter \<Rightarrow> ip_filter" where
  "ip_filter_add_rule (V4 f) (V4 l) fl s =
     s\<lparr>m_filter4 := add_rule plus_one minus_one (max_bytes 4) f l fl (m_filter4 s)\<rparr>"
| "ip_filter_add_rule _ _ fl s = s"

fun ip_filter_access :: "ip_filter \<Rightarrow> address \<Rightarrow> int" where
  "ip_filter_access s (V4 a) = access (m_filter4 s) a"
| "ip_filter_access s (V6 a) = 0"

definition ip_filter_export :: "ip_filter \<Rightarrow> uint8 list ip_range list" where
  "ip_filter_export s = export_filter minus_one (max_bytes 4) (m_filter4 s)"

record port_filter =
  m_filter :: "uint16 rng list"

definition port_filter_init :: port_filter where
  "port_filter_init = \<lparr>m_filter = filter_impl zero_port\<rparr>"

definition port_filter_add_rule :: "uint16 \<Rightarrow> uint16 \<Rightarrow> int \<Rightarrow> port_filter \<Rightarrow> port_filter" where
  "port_filter_add_rule f l fl s =
     s\<lparr>m_filter := add_rule plus_one_port minus_one_port max_addr_port f l fl (m_filter s)\<rparr>"

definition port_filter_access :: "port_filter \<Rightarrow> uint16 \<Rightarrow> int" where
  "port_filter_access s p = access (m_filter s) p"

section \<open>What filter\_impl relies on\<close>

locale addr_space =
  fixes valid :: "'a::linorder \<Rightarrow> bool"
    and zero maxa :: 'a
    and plus1 minus1 :: "'a \<Rightarrow> 'a"
  assumes valid_zero: "valid zero"
    and zero_least: "valid a \<Longrightarrow> zero \<le> a"
    and max_greatest: "valid a \<Longrightarrow> a \<le> maxa"
    and plus1_valid: "valid a \<Longrightarrow> valid (plus1 a)"
    and plus1_next: "valid a \<Longrightarrow> valid b \<Longrightarrow> a < b \<Longrightarrow> a < plus1 a \<and> plus1 a \<le> b"
    and max_valid: "valid maxa"
    and minus1_prev: "valid a \<Longrightarrow> valid b \<Longrightarrow> a < b \<Longrightarrow> a \<le> minus1 b \<and> minus1 b < b"
    and minus1_valid: "valid a \<Longrightarrow> valid (minus1 a)"

text \<open>Byte arrays: the value of the last byte decides, a carry goes on to the front.\<close>

lemma plus_one_from_append:
  "i \<le> length ys \<Longrightarrow> plus_one_from i (ys @ zs) = plus_one_from i ys @ zs"
  by (induction i arbitrary: ys) (auto simp: nth_append list_update_append)

lemma minus_one_from_append:
  "i \<le> length ys \<Longrightarrow> minus_one_from i (ys @ zs) = minus_one_from i ys @ zs"
  by (induction i arbitrary: ys) (auto simp: nth_append list_update_append)

lemma plus_one_Nil [simp]: "plus_one [] = []"
  by (simp add: plus_one_def)

lemma minus_one_Nil [simp]: "minus_one [] = []"
  by (simp add: minus_one_def)

lemma plus_one_snoc [simp]:
  "plus_one (ys @ [b]) = (if b < 255 then ys @ [b + 1] else plus_one ys @ [0])"
  by (simp add: plus_one_def plus_one_from_append)

lemma minus_one_snoc [simp]:
  "minus_one (ys @ [b]) = (if b > 0 then ys @ [b - 1] else minus_one ys @ [255])"
  by (simp add: minus_one_def minus_one_from_append)

lemma length_plus_one [simp]: "length (plus_one a) = length a"
  by (induction a rule: rev_induct) auto

lemma length_minus_one [simp]: "length (minus_one a) = length a"
  by (induction a rule: rev_induct) auto

lemma snoc_less_iff:
  "length xs = length ys \<Longrightarrow>
   (xs @ [a] < ys @ [b]) = (xs < ys \<or> xs = ys \<and> a < (b::'a::linorder))"
  by (induction xs ys rule: list_induct2) auto

lemma snoc_le_iff:
  "length xs = length ys \<Longrightarrow>
   (xs @ [a] \<le> ys @ [b]) = (xs < ys \<or> xs = ys \<and> a \<le> (b::'a::linorder))"
  by (induction xs ys rule: list_induct2) auto

lemma byte_not_less_max: "\<not> (b::uint8) < 255 \<longleftrightarrow> b = 255"
  by (unat_arith, auto)

lemma byte_less_max: "(b::uint8) < 255 \<Longrightarrow> b < b + 1"
  by (unat_arith, simp)

lemma byte_le_max: "(b::uint8) \<le> 255"
  by (unat_arith, simp)

lemma byte_inc_le: "(b::uint8) < c \<Longrightarrow> b + 1 \<le> c"
  by unat_arith

lemma byte_dec_less: "(0::uint8) < b \<Longrightarrow> b - 1 < b"
  by unat_arith

lemma byte_le_dec: "(b::uint8) < c \<Longrightarrow> b \<le> c - 1"
  by unat_arith

lemma plus_one_next:
  "length a = length b \<Longrightarrow> a < b \<Longrightarrow> a < plus_one a \<and> plus_one a \<le> b"
proof (induction a arbitrary: b rule: rev_induct)
  case Nil
  then show ?case by simp
next
  case (snoc x xs)
  then obtain ys y where b: "b = ys @ [y]" and len: "length xs = length ys"
    by (cases b rule: rev_cases) auto
  from snoc.prems have less: "xs < ys \<or> xs = ys \<and> x < y"
    by (simp add: b len snoc_less_iff)
  show ?case
  proof (cases "x < 255")
    case True
    with less len show ?thesis
      by (auto simp: b snoc_less_iff snoc_le_iff byte_less_max byte_inc_le)
  next
    case False
    then have "x = 255" by (simp add: byte_not_less_max)
    with less have "xs < ys" using byte_le_max [of y] by (auto simp: not_less [symmetric])
    with snoc.IH [OF len] have "xs < plus_one xs" "plus_one xs < ys \<or> plus_one xs = ys"
      by (auto simp: le_less)
    with False len show ?thesis
      by (auto simp: b snoc_less_iff snoc_le_iff)
  qed
qed

lemma minus_one_prev:
  "length a = length b \<Longrightarrow> a < b \<Longrightarrow> a \<le> minus_one b \<and> minus_one b < b"
proof (induction b arbitrary: a rule: rev_induct)
  case Nil
  then show ?case by simp
next
  case (snoc y ys)
  then obtain xs x where a: "a = xs @ [x]" and len: "length xs = length ys"
    by (cases a rule: rev_cases) auto
  from snoc.prems have less: "xs < ys \<or> xs = ys \<and> x < y"
    by (simp add: a len snoc_less_iff)
  show ?case
  proof (cases "0 < y")
    case True
    with less len show ?thesis
      by (auto simp: a snoc_less_iff snoc_le_iff byte_dec_less byte_le_dec)
  next
    case False
    then have "y = 0" by (simp add: word_gt_0)
    with less have "xs < ys" by auto
    with snoc.IH [OF len] have "xs < minus_one ys \<or> xs = minus_one ys" "minus_one ys < ys"
      by (auto simp: le_less)
    with False len show ?thesis
      by (auto simp: a snoc_less_iff snoc_le_iff byte_le_max)
  qed
qed

lemma zero_bytes_least: "replicate (length a) 0 \<le> (a :: uint8 list)"
  by (induction a) (auto simp: word_gt_0)

lemma max_bytes_greatest: "a \<le> replicate (length a) (255 :: uint8)"
proof (induction a)
  case (Cons x xs)
  then show ?case using byte_le_max [of x] by (auto simp: le_less)
qed simp

lemma bytes_addr_space:
  "addr_space (\<lambda>a. length a = n) (zero_bytes n) (max_bytes n) plus_one minus_one"
proof unfold_locales
  fix a b :: "uint8 list"
  assume "length a = n" "length b = n" "a < b"
  then show "a < plus_one a \<and> plus_one a \<le> b" and "a \<le> minus_one b \<and> minus_one b < b"
    using plus_one_next [of a b] minus_one_prev [of a b] by simp_all
qed (auto simp: zero_bytes_def max_bytes_def zero_bytes_least max_bytes_greatest)

interpretation v4: addr_space "\<lambda>a. length a = 4" "zero_bytes 4" "max_bytes 4" plus_one minus_one
  by (rule bytes_addr_space)

interpretation v6: addr_space "\<lambda>a. length a = 16" "zero_bytes 16" "max_bytes 16" plus_one minus_one
  by (rule bytes_addr_space)

interpretation port: addr_space "\<lambda>_. True" zero_port max_addr_port plus_one_port minus_one_port
proof unfold_locales
  fix a b :: uint16
  show "a \<le> max_addr_port"
    unfolding max_addr_port_def by (unat_arith, simp)
  assume "a < b"
  then show "a < plus_one_port a \<and> plus_one_port a \<le> b"
    and "a \<le> minus_one_port b \<and> minus_one_port b < b"
    unfolding plus_one_port_def minus_one_port_def by unat_arith+
qed (simp_all add: zero_port_def)

section \<open>The set operations on a list split at an address\<close>

definition starts_sorted :: "'a::linorder rng list \<Rightarrow> bool" where
  "starts_sorted l = sorted_wrt (\<lambda>r s. start r < start s) l"

lemma starts_sorted_append [simp]:
  "starts_sorted (xs @ ys) \<longleftrightarrow>
   starts_sorted xs \<and> starts_sorted ys \<and> (\<forall>r \<in> set xs. \<forall>s \<in> set ys. start r < start s)"
  by (auto simp: starts_sorted_def sorted_wrt_append)

lemma starts_sorted_Cons [simp]:
  "starts_sorted (r # l) \<longleftrightarrow> (\<forall>s \<in> set l. start r < start s) \<and> starts_sorted l"
  by (simp add: starts_sorted_def)

lemma starts_sorted_Nil [simp]: "starts_sorted []"
  by (simp add: starts_sorted_def)

lemma set_begin_simps [simp]:
  "set_begin [] = None" "set_begin (r # l) = Some (start r)"
  by (simp_all add: set_begin_def)

lemma set_upper_bound_split [access_list_simps]:
  "\<forall>r \<in> set xs. start r \<le> a \<Longrightarrow> \<forall>r \<in> set zs. a < start r \<Longrightarrow>
   set_upper_bound a (xs @ zs) = set_begin zs"
  by (cases zs) (auto simp: set_upper_bound_def list_split_simps not_le)

lemma set_prior_split [access_list_simps]:
  assumes "starts_sorted (xs @ zs)"
  shows "set_prior (xs @ zs) (set_begin zs) = start (last xs)"
proof -
  have "\<forall>r \<in> set xs. set_begin zs \<noteq> Some (start r)"
    using assms by (cases zs) auto
  moreover have "takeWhile (\<lambda>r. set_begin zs \<noteq> Some (start r)) zs = []"
    by (cases zs) auto
  ultimately show ?thesis by (simp add: set_prior_def takeWhile_append_all)
qed

lemma set_at_mem: "starts_sorted l \<Longrightarrow> r \<in> set l \<Longrightarrow> set_at l (start r) = rng_access r"
  by (induction l) (auto simp: set_at_def)

lemma set_insert_split [access_list_simps]:
  "\<forall>r \<in> set xs. start r < start x \<Longrightarrow> \<forall>r \<in> set zs. start x < start r \<Longrightarrow>
   set_insert x (xs @ zs) = xs @ x # zs"
  by (induction xs) (cases zs; auto)+

lemma set_set_access_split [access_list_simps]:
  "starts_sorted (xs @ r # zs) \<Longrightarrow>
   set_set_access (start r) f (xs @ r # zs) = xs @ r\<lparr>rng_access := f\<rparr> # zs"
  by (force simp: set_set_access_def intro!: map_idI)

lemma set_erase_split [access_list_simps]:
  "starts_sorted (xs @ r # zs) \<Longrightarrow> set_erase (start r) (xs @ r # zs) = xs @ zs"
  by (fastforce simp: set_erase_def filter_id_conv intro!: arg_cong2 [where f = append])

lemma set_erase_between_split [access_list_simps]:
  assumes "starts_sorted (xs @ r # ys @ zs)"
  shows "set_erase_between (start r) (set_begin zs) (xs @ r # ys @ zs) = xs @ r # zs"
proof -
  let ?P = "\<lambda>s. \<not> (start r < start s \<and>
    (case set_begin zs of None \<Rightarrow> True | Some k \<Rightarrow> start s < k))"
  have "filter ?P xs = xs" and "filter ?P zs = zs" and "filter ?P ys = []"
    using assms by (cases zs; fastforce simp: filter_id_conv filter_empty_conv)+
  then show ?thesis by (simp add: set_erase_between_def)
qed

section \<open>The rule list as a partition of the address space\<close>

text \<open>
  The representation invariant: the first range starts at the lowest address, starts increase
  strictly, and neighbouring ranges differ in their access flags.
\<close>

definition wf_access_list :: "('a::linorder \<Rightarrow> bool) \<Rightarrow> 'a \<Rightarrow> 'a rng list \<Rightarrow> bool" where
  "wf_access_list valid zero l \<longleftrightarrow>
     set_begin l = Some zero \<and> starts_sorted l \<and> (\<forall>r \<in> set l. valid (start r))
     \<and> distinct_adj (map rng_access l)"

text \<open>The list the rule leaves, read off the split of the old one at both ends of the rule.\<close>

definition rule_list ::
  "('a \<Rightarrow> 'a) \<Rightarrow> ('a \<Rightarrow> 'a) \<Rightarrow> 'a \<Rightarrow> 'a \<Rightarrow> 'a \<Rightarrow> int \<Rightarrow> 'a rng list \<Rightarrow> 'a rng list \<Rightarrow> 'a rng list
   \<Rightarrow> 'a rng list" where
  "rule_list plus1 minus1 maxa first last_a flags xs ys zs =
     (if xs \<noteq> [] \<and> rng_access (last xs) = flags then xs else xs @ [mk_rng first flags]) @
     (if (case zs of [] \<Rightarrow> last_a = maxa | z # _ \<Rightarrow> minus1 (start z) = last_a)
      then (case zs of [] \<Rightarrow> [] | z # zs' \<Rightarrow> if rng_access z = flags then zs' else zs)
      else if rng_access (last (xs @ ys)) = flags then zs
      else mk_rng (plus1 last_a) (rng_access (last (xs @ ys))) # zs)"

text \<open>The value a list gives to an address: the last range that starts at or before it.\<close>

definition floor_access :: "'a::linorder rng list \<Rightarrow> 'a \<Rightarrow> int" where
  "floor_access l a = rng_access (last (takeWhile (\<lambda>r. start r \<le> a) l))"

lemma floor_access_split:
  "\<forall>r \<in> set xs. start r \<le> a \<Longrightarrow> \<forall>r \<in> set zs. a < start r \<Longrightarrow>
   floor_access (xs @ zs) a = rng_access (last xs)"
  by (simp add: floor_access_def takeWhile_append_all takeWhile_none not_le)

lemma floor_access_front: "\<forall>r \<in> set zs. a < start r \<Longrightarrow> floor_access (xs @ zs) a = floor_access xs a"
  by (simp add: floor_access_def takeWhile_append takeWhile_none takeWhile_all not_le)

lemma floor_access_cong:
  assumes "\<forall>r \<in> set p. start r \<le> a" "\<forall>r \<in> set p'. start r \<le> a" "p \<noteq> []" "p' \<noteq> []"
    and "rng_access (last p) = rng_access (last p')"
  shows "floor_access (p @ q) a = floor_access (p' @ q) a"
  using assms by (simp add: floor_access_def takeWhile_append_all last_append)

lemma sorted_split_le:
  assumes "starts_sorted l"
  obtains xs zs where "l = xs @ zs" "\<forall>r \<in> set xs. start r \<le> a" "\<forall>r \<in> set zs. a < start r"
proof
  show "l = takeWhile (\<lambda>r. start r \<le> a) l @ dropWhile (\<lambda>r. start r \<le> a) l" by simp
  show "\<forall>r \<in> set (takeWhile (\<lambda>r. start r \<le> a) l). start r \<le> a"
    by (auto dest: set_takeWhileD)
  show "\<forall>r \<in> set (dropWhile (\<lambda>r. start r \<le> a) l). a < start r"
    using assms by (induction l) (auto simp: not_le)
qed

lemma sorted_split_less:
  assumes "starts_sorted l"
  obtains xs zs where "l = xs @ zs" "\<forall>r \<in> set xs. start r < a" "\<forall>r \<in> set zs. a \<le> start r"
proof
  show "l = takeWhile (\<lambda>r. start r < a) l @ dropWhile (\<lambda>r. start r < a) l" by simp
  show "\<forall>r \<in> set (takeWhile (\<lambda>r. start r < a) l). start r < a"
    by (auto dest: set_takeWhileD)
  show "\<forall>r \<in> set (dropWhile (\<lambda>r. start r < a) l). a \<le> start r"
    using assms by (induction l) (auto simp: not_less)
qed

lemma rule_first_range:
  assumes sorted: "starts_sorted (xs @ ys @ zs)"
    and xs: "\<forall>r \<in> set xs. start r < first" and ys: "\<forall>r \<in> set ys. first \<le> start r"
    and cases: "xs \<noteq> [] \<or> (\<exists>y ys'. ys = y # ys' \<and> start y = first)"
  defines "l \<equiv> xs @ ys @ zs"
  defines "i0 \<equiv> set_upper_bound first l"
  assumes zs: "\<forall>r \<in> set zs. first < start r"
  shows "range_of l first = (case ys of y # _ \<Rightarrow> if start y = first then first else start (last xs)
                       | [] \<Rightarrow> start (last xs))"
proof (cases "\<exists>y ys'. ys = y # ys' \<and> start y = first")
  case True
  then obtain y ys' where y: "ys = y # ys'" "start y = first" by blast
  have "i0 = set_begin (ys' @ zs)"
    unfolding i0_def l_def using xs ys zs sorted y
    by (subst set_upper_bound_split [of "xs @ [y]" first "ys' @ zs", simplified, symmetric]) auto
  moreover have "set_begin (ys' @ zs) \<noteq> set_begin l"
    using sorted by (cases xs; cases ys'; cases zs) (auto simp: l_def y)
  moreover have "set_prior l (set_begin (ys' @ zs)) = first"
    using set_prior_split [of "xs @ [y]" "ys' @ zs"] sorted by (simp add: l_def y)
  ultimately show ?thesis by (simp add: range_of_def Let_def i0_def y)
next
  case False
  then have ne: "xs \<noteq> []" using cases by blast
  have "\<forall>r \<in> set (ys @ zs). first < start r"
  proof (cases ys)
    case (Cons y ys')
    then have "first < start y" using False ys by (auto simp: le_less)
    then show ?thesis using sorted zs Cons by (auto intro: less_trans)
  qed (use zs in simp)
  then have "i0 = set_begin (ys @ zs)"
    unfolding i0_def l_def using xs by (intro set_upper_bound_split) auto
  moreover have "set_begin (ys @ zs) \<noteq> set_begin l"
    using sorted ne by (cases xs; cases ys; cases zs) (auto simp: l_def)
  moreover have "set_prior l (set_begin (ys @ zs)) = start (last xs)"
    using set_prior_split [of xs "ys @ zs"] sorted by (simp add: l_def)
  ultimately have "range_of l first = start (last xs)"
    by (simp add: range_of_def Let_def i0_def)
  with False show ?thesis by (auto split: list.splits)
qed

lemma add_rule_head_merge:
  assumes sorted: "starts_sorted (xs @ ys @ zs)" and adj: "distinct_adj (map rng_access (xs @ ys @ zs))"
    and xs: "\<forall>r \<in> set xs. start r < first" and ys: "\<forall>r \<in> set ys. first \<le> start r"
    and zs: "\<forall>r \<in> set zs. first < start r"
    and ne: "xs \<noteq> []" and same: "rng_access (last xs) = flags"
  shows "add_rule_head first flags (set_begin zs) (xs @ ys @ zs) = xs @ zs"
proof -
  let ?l = "xs @ ys @ zs"
  from ne obtain xs' x where x: "xs = xs' @ [x]" by (cases xs rule: rev_cases) auto
  have at: "set_at ?l (start x) = flags"
    using set_at_mem [OF sorted, of x] same by (simp add: x)
  have erase: "set_erase_between (start x) (set_begin zs) ?l = xs @ zs"
    using set_erase_between_split [of xs' x ys zs] sorted by (simp add: x)
  have j: "Some (start x) \<noteq> set_begin zs" and first: "start x \<noteq> first"
    using sorted xs by (cases zs; auto simp: x)+
  note i = rule_first_range [OF sorted xs ys disjI1 [OF ne] zs]
  show ?thesis
  proof (cases "\<exists>y ys'. ys = y # ys' \<and> start y = first")
    case True
    then obtain y ys' where y: "ys = y # ys'" "start y = first" by blast
    have "set_prior ?l (Some first) = start x" and "Some first \<noteq> set_begin ?l"
      using set_prior_split [of xs "ys @ zs"] sorted by (cases xs'; auto simp: x y)+
    with i at erase j first show ?thesis by (simp add: add_rule_head_def Let_def y)
  next
    case False
    then have i': "(case ys of y # _ \<Rightarrow> if start y = first then first else start (last xs)
                       | [] \<Rightarrow> start (last xs)) = start x"
      by (auto simp: x split: list.splits)
    have "\<not> (Some (start x) \<noteq> set_begin ?l \<and> set_at ?l (set_prior ?l (Some (start x))) = flags)"
    proof (cases xs' rule: rev_cases)
      case (snoc xs'' w)
      have "set_prior ?l (Some (start x)) = start w"
        using set_prior_split [of xs' "x # ys @ zs"] sorted by (simp add: x snoc)
      moreover have "set_at ?l (start w) = rng_access w"
        using sorted by (intro set_at_mem) (simp_all add: x snoc)
      moreover have "rng_access w \<noteq> flags"
        using adj same by (simp add: x snoc distinct_adj_append_iff)
      ultimately show ?thesis by simp
    qed (simp add: x)
    with i i' at erase j first show ?thesis by (auto simp: add_rule_head_def Let_def)
  qed
qed

lemma add_rule_head_new:
  assumes sorted: "starts_sorted (xs @ ys @ zs)"
    and xs: "\<forall>r \<in> set xs. start r < first" and ys: "\<forall>r \<in> set ys. first \<le> start r"
    and zs: "\<forall>r \<in> set zs. first < start r"
    and cases: "xs \<noteq> [] \<or> (\<exists>y ys'. ys = y # ys' \<and> start y = first)"
    and diff: "xs = [] \<or> rng_access (last xs) \<noteq> flags"
  shows "add_rule_head first flags (set_begin zs) (xs @ ys @ zs) = xs @ mk_rng first flags # zs"
proof -
  let ?l = "xs @ ys @ zs"
  note i = rule_first_range [OF sorted xs ys cases zs]
  have j: "Some first \<noteq> set_begin zs" using zs by (cases zs) auto
  show ?thesis
  proof (cases "\<exists>y ys'. ys = y # ys' \<and> start y = first")
    case True
    then obtain y ys' where y: "ys = y # ys'" "start y = first" by blast
    have at: "set_at ?l first = rng_access y"
      using set_at_mem [OF sorted, of y] by (simp add: y)
    have no_merge: "\<not> (Some first \<noteq> set_begin ?l \<and> set_at ?l (set_prior ?l (Some first)) = flags)"
    proof (cases xs rule: rev_cases)
      case (snoc xs' x)
      have "set_prior ?l (Some first) = start x"
        using set_prior_split [of xs "ys @ zs"] sorted by (simp add: snoc y)
      moreover have "set_at ?l (start x) = rng_access x"
        using sorted by (intro set_at_mem) (simp_all add: snoc)
      ultimately show ?thesis using diff by (simp add: snoc)
    qed (simp add: y)
    have "set_erase_between first (set_begin zs) ?l = xs @ y # zs"
      using set_erase_between_split [of xs y ys' zs] sorted by (simp add: y)
    moreover have "set_set_access first flags (xs @ y # zs) = xs @ mk_rng first flags # zs"
      using set_set_access_split [of xs y zs flags] sorted y by (cases y) auto
    ultimately show ?thesis using i at no_merge j by (auto simp: add_rule_head_def Let_def y)
  next
    case False
    then have ne: "xs \<noteq> []" using cases by blast
    from False have i': "(case ys of y # _ \<Rightarrow> if start y = first then first else start (last xs)
                       | [] \<Rightarrow> start (last xs)) = start (last xs)"
      by (auto split: list.splits)
    have at: "set_at ?l (start (last xs)) \<noteq> flags"
      using set_at_mem [OF sorted, of "last xs"] diff ne by simp
    have ys': "\<forall>r \<in> set ys. first < start r"
    proof (cases ys)
      case (Cons y ys')
      then have "first < start y" using False ys by (auto simp: le_less)
      then show ?thesis using sorted Cons by (auto intro: less_trans)
    qed simp
    have sorted': "starts_sorted (xs @ mk_rng first flags # ys @ zs)"
      using sorted xs ys' zs by auto
    have "set_insert (mk_rng first flags) ?l = xs @ mk_rng first flags # ys @ zs"
      using xs ys' zs by (intro set_insert_split) auto
    moreover have "start (last xs) \<noteq> first" using xs ne by (metis last_in_set order_less_irrefl)
    ultimately show ?thesis
      using i i' at j set_erase_between_split [OF sorted'] sorted'
        set_set_access_split [of xs "mk_rng first flags" zs flags]
      by (simp add: add_rule_head_def Let_def)
  qed
qed

lemma add_rule_tail_eq:
  assumes sorted: "starts_sorted (xs @ zs)" and le: "\<forall>r \<in> set xs. start r \<le> last_a"
    and adj: "zs \<noteq> [] \<Longrightarrow> rng_access (hd zs) \<noteq> last_access"
    and gap: "zs \<noteq> [] \<Longrightarrow> minus1 (start (hd zs)) \<noteq> last_a \<Longrightarrow> last_a < plus1 last_a \<and> plus1 last_a < start (hd zs)"
    and gap_end: "zs = [] \<Longrightarrow> last_a \<noteq> maxa \<Longrightarrow> last_a < plus1 last_a"
  shows "add_rule_tail plus1 minus1 maxa last_a flags last_access (set_begin zs) (xs @ zs) = xs @
    (if (case zs of [] \<Rightarrow> last_a = maxa | z # _ \<Rightarrow> minus1 (start z) = last_a)
      then (case zs of [] \<Rightarrow> [] | z # zs' \<Rightarrow> if rng_access z = flags then zs' else zs)
      else if last_access = flags then zs
      else mk_rng (plus1 last_a) last_access # zs)"
proof (cases zs)
  case Nil
  have "set_insert (mk_rng (plus1 last_a) last_access) xs = xs @ [mk_rng (plus1 last_a) last_access]"
    and "set_at (xs @ [mk_rng (plus1 last_a) last_access]) (plus1 last_a) = last_access"
    if "last_a \<noteq> maxa"
  proof -
    have less: "\<forall>r \<in> set xs. start r < plus1 last_a"
      using le gap_end [OF Nil that] by (auto intro: le_less_trans)
    then show "set_insert (mk_rng (plus1 last_a) last_access) xs = xs @ [mk_rng (plus1 last_a) last_access]"
      using set_insert_split [of xs "mk_rng (plus1 last_a) last_access" "[]"] by simp
    show "set_at (xs @ [mk_rng (plus1 last_a) last_access]) (plus1 last_a) = last_access"
      using set_at_mem [of "xs @ [mk_rng (plus1 last_a) last_access]" "mk_rng (plus1 last_a) last_access"]
        sorted less by (simp add: Nil)
  qed
  then show ?thesis by (auto simp: add_rule_tail_def Nil)
next
  case (Cons z zs')
  let ?m = "mk_rng (plus1 last_a) last_access"
  have z: "set_at (xs @ z # zs') (start z) = rng_access z"
    using set_at_mem [OF sorted, of z] by (simp add: Cons)
  have e: "set_erase (start z) (xs @ z # zs') = xs @ zs'"
    using set_erase_split [of xs z zs'] sorted by (simp add: Cons)
  have "set_insert ?m (xs @ z # zs') = xs @ ?m # z # zs'"
    and "set_at (xs @ ?m # z # zs') (plus1 last_a) = last_access"
    if "minus1 (start z) \<noteq> last_a"
  proof -
    have less: "\<forall>r \<in> set xs. start r < plus1 last_a" and "plus1 last_a < start z"
      using le gap that by (auto simp: Cons intro: le_less_trans)
    moreover from this have greater: "\<forall>r \<in> set (z # zs'). plus1 last_a < start r"
      using sorted by (auto simp: Cons intro: less_trans)
    ultimately show "set_insert ?m (xs @ z # zs') = xs @ ?m # z # zs'"
      using set_insert_split [of xs ?m "z # zs'"] by simp
    show "set_at (xs @ ?m # z # zs') (plus1 last_a) = last_access"
      using set_at_mem [of "xs @ ?m # z # zs'" ?m] sorted less greater by (simp add: Cons)
  qed
  with z e adj show ?thesis by (auto simp: add_rule_tail_def Cons)
qed

context addr_space
begin

lemma access_floor:
  assumes "wf_access_list valid zero l" "valid a"
  shows "access l a = floor_access l a"
proof -
  from assms(1) have wf: "set_begin l = Some zero" "starts_sorted l"
    by (simp_all add: wf_access_list_def)
  from wf(2) obtain xs zs where l: "l = xs @ zs"
    and le: "\<forall>r \<in> set xs. start r \<le> a" and gt: "\<forall>r \<in> set zs. a < start r"
    by (rule sorted_split_le)
  have ne: "xs \<noteq> []"
    using wf(1) gt zero_least [OF assms(2)] by (cases xs; cases zs) (auto simp: l not_le [symmetric])
  have "set_begin zs \<noteq> set_begin l"
    using wf(2) ne by (cases xs; cases zs) (auto simp: l)
  then have "access l a = set_at l (start (last xs))"
    using wf(2) by (simp add: access_def range_of_def Let_def l set_upper_bound_split [OF le gt] set_prior_split)
  also have "\<dots> = rng_access (last xs)"
    using wf(2) ne by (intro set_at_mem) (auto simp: l)
  finally show ?thesis
    by (simp add: l floor_access_split [OF le gt])
qed

lemma rule_split:
  assumes wf: "wf_access_list valid zero l" and "valid first" "first \<le> last_a"
  obtains xs ys zs where "l = xs @ ys @ zs" "\<forall>r \<in> set xs. start r < first"
    "\<forall>r \<in> set ys. first \<le> start r \<and> start r \<le> last_a" "\<forall>r \<in> set zs. last_a < start r"
    "xs \<noteq> [] \<or> (\<exists>y ys'. ys = y # ys' \<and> start y = first)"
proof -
  from wf have sorted: "starts_sorted l" and head: "set_begin l = Some zero"
    by (simp_all add: wf_access_list_def)
  obtain us zs where us: "l = us @ zs" "\<forall>r \<in> set us. start r \<le> last_a" "\<forall>r \<in> set zs. last_a < start r"
    using sorted by (rule sorted_split_le)
  moreover from sorted us(1) have "starts_sorted us" by simp
  then obtain xs ys where xs: "us = xs @ ys" "\<forall>r \<in> set xs. start r < first"
      "\<forall>r \<in> set ys. first \<le> start r"
    by (rule sorted_split_less)
  moreover have "xs \<noteq> [] \<or> (\<exists>y ys'. ys = y # ys' \<and> start y = first)"
  proof (cases xs)
    case Nil
    show ?thesis
    proof (cases ys)
      case (Cons y ys')
      then show ?thesis using head xs(1,3) us(1) Nil zero_least [OF assms(2)] by auto
    next
      case ys: Nil
      then have "\<exists>z zs'. zs = z # zs' \<and> start z = zero"
        using head us(1) xs(1) Nil by (cases zs) auto
      then show ?thesis using us(3) zero_least [OF assms(2)] assms(3) by auto
    qed
  qed simp
  ultimately show thesis by (intro that [of xs ys zs]) auto
qed

lemma plus1_gap:
  assumes "valid a" "valid z" "a < z" "minus1 z \<noteq> a"
  shows "a < plus1 a \<and> plus1 a < z"
proof -
  have "a < minus1 z" "minus1 z < z"
    using minus1_prev [OF assms(1-3)] assms(4) by (auto simp: le_less)
  with plus1_next [OF assms(1) minus1_valid [OF assms(2)]] show ?thesis by auto
qed

lemma plus1_max: "valid a \<Longrightarrow> a \<noteq> maxa \<Longrightarrow> a < plus1 a"
  using plus1_next [of a maxa] max_valid max_greatest [of a] by (simp add: le_less)

lemma add_rule_eq:
  assumes wf: "wf_access_list valid zero (xs @ ys @ zs)"
    and va: "valid first" "valid last_a" "first \<le> last_a"
    and xs: "\<forall>r \<in> set xs. start r < first"
    and ys: "\<forall>r \<in> set ys. first \<le> start r \<and> start r \<le> last_a" and zs: "\<forall>r \<in> set zs. last_a < start r"
    and cases: "xs \<noteq> [] \<or> (\<exists>y ys'. ys = y # ys' \<and> start y = first)"
  shows "add_rule plus1 minus1 maxa first last_a flags (xs @ ys @ zs) =
         rule_list plus1 minus1 maxa first last_a flags xs ys zs"
proof -
  let ?l = "xs @ ys @ zs" and ?la = "rng_access (last (xs @ ys))"
  let ?A = "if xs \<noteq> [] \<and> rng_access (last xs) = flags then xs else xs @ [mk_rng first flags]"
  from wf have sorted: "starts_sorted ?l" and adj: "distinct_adj (map rng_access ?l)"
    and valid: "\<forall>r \<in> set ?l. valid (start r)"
    by (simp_all add: wf_access_list_def)
  have ne: "xs @ ys \<noteq> []" using cases by auto
  have zs': "\<forall>r \<in> set zs. first < start r" using zs va(3) by (auto intro: le_less_trans)
  have ub: "set_upper_bound last_a ?l = set_begin zs"
    using set_upper_bound_split [of "xs @ ys" last_a zs] xs ys zs va(3) by (force)
  have la: "set_at ?l (set_prior ?l (set_begin zs)) = ?la"
    using set_prior_split [of "xs @ ys" zs] set_at_mem [OF sorted, of "last (xs @ ys)"] sorted ne
      last_in_set [OF ne] by auto
  have head: "add_rule_head first flags (set_begin zs) ?l = ?A @ zs"
    using add_rule_head_merge [OF sorted adj xs _ zs'] add_rule_head_new [OF sorted xs _ zs' cases] ys
    by auto
  have adj': "rng_access (hd zs) \<noteq> ?la" if "zs \<noteq> []"
    using adj that ne distinct_adj_append_iff [of "map rng_access (xs @ ys)" "map rng_access zs"]
      last_map [OF ne, of rng_access] hd_map [OF that, of rng_access] by auto
  have "add_rule_tail plus1 minus1 maxa last_a flags ?la (set_begin zs) (?A @ zs) =
    rule_list plus1 minus1 maxa first last_a flags xs ys zs"
    unfolding rule_list_def
  proof (rule add_rule_tail_eq)
    show "starts_sorted (?A @ zs)" using sorted xs zs' by auto
    show "\<forall>r \<in> set ?A. start r \<le> last_a" using xs va(3) by (auto intro: less_imp_le less_le_trans)
    show "rng_access (hd zs) \<noteq> ?la" if "zs \<noteq> []" using adj' that .
    show "last_a < plus1 last_a \<and> plus1 last_a < start (hd zs)"
      if "zs \<noteq> []" "minus1 (start (hd zs)) \<noteq> last_a"
      using valid zs that by (intro plus1_gap va) auto
    show "last_a < plus1 last_a" if "last_a \<noteq> maxa"
      using va(2) that by (rule plus1_max)
  qed
  then show ?thesis by (simp add: add_rule_def Let_def ub la head)
qed

lemma rule_list_wf:
  assumes wf: "wf_access_list valid zero (xs @ ys @ zs)"
    and va: "valid first" "valid last_a" "first \<le> last_a"
    and xs: "\<forall>r \<in> set xs. start r < first"
    and ys: "\<forall>r \<in> set ys. first \<le> start r \<and> start r \<le> last_a" and zs: "\<forall>r \<in> set zs. last_a < start r"
    and cases: "xs \<noteq> [] \<or> (\<exists>y ys'. ys = y # ys' \<and> start y = first)"
  shows "wf_access_list valid zero (rule_list plus1 minus1 maxa first last_a flags xs ys zs)"
proof -
  define A where "A = (if xs \<noteq> [] \<and> rng_access (last xs) = flags then xs else xs @ [mk_rng first flags])"
  let ?la = "rng_access (last (xs @ ys))"
  from wf have sorted: "starts_sorted (xs @ ys @ zs)" and head: "set_begin (xs @ ys @ zs) = Some zero"
    and valid: "\<forall>r \<in> set (xs @ ys @ zs). valid (start r)"
    and adj: "distinct_adj (map rng_access (xs @ ys @ zs))"
    by (simp_all add: wf_access_list_def)
  have front: "wf_access_list valid zero (A @ B)"
    if "starts_sorted B" "\<forall>r \<in> set B. valid (start r) \<and> last_a < start r"
      "distinct_adj (map rng_access B)" "B \<noteq> [] \<Longrightarrow> rng_access (hd B) \<noteq> flags" for B
  proof -
    have "set_begin (A @ B) = Some zero" using head cases by (cases xs) (auto simp: A_def)
    moreover have "\<forall>s \<in> set B. first < start s" using that(2) va(3) by (auto intro: le_less_trans)
    then have "starts_sorted (A @ B)" using sorted that(1) xs by (auto simp: A_def intro: less_trans)
    moreover have "distinct_adj (map rng_access (A @ B))"
      using adj that(3,4) by (cases B) (auto simp: A_def distinct_adj_append_iff last_map distinct_adj_Cons)
    ultimately show ?thesis using valid that(2) va(1) by (auto simp: A_def wf_access_list_def)
  qed
  have ne: "xs @ ys \<noteq> []" using cases by auto
  have adj_zs: "rng_access (hd zs) \<noteq> ?la" if "zs \<noteq> []"
    using adj that ne distinct_adj_append_iff [of "map rng_access (xs @ ys)" "map rng_access zs"]
      last_map [OF ne, of rng_access] hd_map [OF that, of rng_access] by auto
  have zs_wf: "starts_sorted zs" "distinct_adj (map rng_access zs)" "\<forall>r \<in> set zs. valid (start r) \<and> last_a < start r"
    using sorted adj valid zs by (auto simp: distinct_adj_append_iff)
  have gap: "last_a < plus1 last_a \<and> plus1 last_a < start (hd zs)"
    if "zs \<noteq> []" "minus1 (start (hd zs)) \<noteq> last_a"
    using zs_wf(3) that va(2) by (intro plus1_gap) auto
  have "wf_access_list valid zero (A @ [mk_rng (plus1 last_a) ?la])"
    if "?la \<noteq> flags" "last_a \<noteq> maxa"
    using plus1_max va(2) plus1_valid [OF va(2)] that by (intro front) auto
  moreover have "wf_access_list valid zero (A @ mk_rng (plus1 last_a) ?la # zs)"
    if c: "?la \<noteq> flags" "zs \<noteq> []" "minus1 (start (hd zs)) \<noteq> last_a"
  proof (rule front)
    obtain z zs' where z: "zs = z # zs'" using c(2) by (cases zs) auto
    show "starts_sorted (mk_rng (plus1 last_a) ?la # zs)"
      using gap [OF c(2,3)] zs_wf(1) by (auto simp: z intro: less_trans)
    show "distinct_adj (map rng_access (mk_rng (plus1 last_a) ?la # zs))"
      using adj_zs [OF c(2)] zs_wf(2) by (simp add: z)
  qed (use gap [OF c(2,3)] zs_wf(3) plus1_valid [OF va(2)] c(1) in auto)
  moreover have "wf_access_list valid zero (A @ zs)" if "zs \<noteq> [] \<longrightarrow> rng_access (hd zs) \<noteq> flags"
    using zs_wf that by (intro front) auto
  moreover have "wf_access_list valid zero (A @ zs')" if "zs = z # zs'" "rng_access z = flags" for z zs'
    using zs_wf that by (intro front) (auto simp: distinct_adj_Cons hd_map)
  ultimately have "wf_access_list valid zero (A @
     (if (case zs of [] \<Rightarrow> last_a = maxa | z # _ \<Rightarrow> minus1 (start z) = last_a)
      then (case zs of [] \<Rightarrow> [] | z # zs' \<Rightarrow> if rng_access z = flags then zs' else zs)
      else if ?la = flags then zs else mk_rng (plus1 last_a) ?la # zs))"
    using adj_zs by (cases zs) auto
  then show ?thesis by (simp add: rule_list_def A_def)
qed

lemma add_rule_wf:
  assumes "wf_access_list valid zero l" "valid first" "valid last_a" "first \<le> last_a"
  shows "wf_access_list valid zero (add_rule plus1 minus1 maxa first last_a flags l)"
proof -
  from assms(1,2,4) obtain xs ys zs where l: "l = xs @ ys @ zs" and *: "\<forall>r \<in> set xs. start r < first"
    "\<forall>r \<in> set ys. first \<le> start r \<and> start r \<le> last_a" "\<forall>r \<in> set zs. last_a < start r"
    "xs \<noteq> [] \<or> (\<exists>y ys'. ys = y # ys' \<and> start y = first)"
    by (rule rule_split)
  show ?thesis
    unfolding l using assms unfolding l by (simp add: add_rule_eq [OF _ _ _ _ *] rule_list_wf [OF _ _ _ _ *])
qed

lemma rule_tail_floor:
  assumes le: "\<forall>r \<in> set A. start r \<le> a" "\<forall>r \<in> set us. start r \<le> a" and ne: "A \<noteq> []" "us \<noteq> []"
    and flags: "rng_access (last A) = flags"
    and va: "valid last_a" "valid a" and after: "last_a < a" and zs: "\<forall>r \<in> set zs. valid (start r)"
  shows "floor_access (A @ (if (case zs of [] \<Rightarrow> last_a = maxa | z # _ \<Rightarrow> minus1 (start z) = last_a)
      then (case zs of [] \<Rightarrow> [] | z # zs' \<Rightarrow> if rng_access z = flags then zs' else zs)
      else if rng_access (last us) = flags then zs
      else mk_rng (plus1 last_a) (rng_access (last us)) # zs)) a = floor_access (us @ zs) a"
proof (cases "case zs of [] \<Rightarrow> last_a = maxa | z # _ \<Rightarrow> minus1 (start z) = last_a")
  case True
  then obtain z zs' where z: "zs = z # zs'" "minus1 (start z) = last_a"
    using after max_greatest [OF va(2)] by (cases zs) auto
  have "start z \<le> a"
    using minus1_prev [OF va(2), of "start z"] zs after z by (auto simp: not_le [symmetric])
  then have "rng_access z = flags \<Longrightarrow> floor_access (A @ zs') a = floor_access ((us @ [z]) @ zs') a"
    and "floor_access ((A @ [z]) @ zs') a = floor_access ((us @ [z]) @ zs') a"
    using le ne flags by (intro floor_access_cong; auto)+
  then show ?thesis by (simp add: z)
next
  case False
  have "plus1 last_a \<le> a" using plus1_next [OF va after] by simp
  then have "rng_access (last us) = flags \<Longrightarrow> floor_access (A @ zs) a = floor_access (us @ zs) a"
    and "floor_access ((A @ [mk_rng (plus1 last_a) (rng_access (last us))]) @ zs) a = floor_access (us @ zs) a"
    using le ne flags by (intro floor_access_cong; auto)+
  then show ?thesis using False by simp
qed

lemma rule_list_floor:
  assumes wf: "wf_access_list valid zero (xs @ ys @ zs)"
    and va: "valid first" "valid last_a" "first \<le> last_a" and a: "valid a"
    and xs: "\<forall>r \<in> set xs. start r < first"
    and ys: "\<forall>r \<in> set ys. first \<le> start r \<and> start r \<le> last_a" and zs: "\<forall>r \<in> set zs. last_a < start r"
    and cases: "xs \<noteq> [] \<or> (\<exists>y ys'. ys = y # ys' \<and> start y = first)"
  shows "floor_access (rule_list plus1 minus1 maxa first last_a flags xs ys zs) a =
    (if first \<le> a \<and> a \<le> last_a then flags else floor_access (xs @ ys @ zs) a)"
proof -
  let ?la = "rng_access (last (xs @ ys))"
  define A where "A = (if xs \<noteq> [] \<and> rng_access (last xs) = flags then xs else xs @ [mk_rng first flags])"
  define B where "B = (if (case zs of [] \<Rightarrow> last_a = maxa | z # _ \<Rightarrow> minus1 (start z) = last_a)
      then (case zs of [] \<Rightarrow> [] | z # zs' \<Rightarrow> if rng_access z = flags then zs' else zs)
      else if ?la = flags then zs else mk_rng (plus1 last_a) ?la # zs)"
  have R: "rule_list plus1 minus1 maxa first last_a flags xs ys zs = A @ B"
    by (simp add: rule_list_def A_def B_def)
  from wf have valid: "\<forall>r \<in> set (xs @ ys @ zs). valid (start r)" and sorted: "starts_sorted (xs @ ys @ zs)"
    by (simp_all add: wf_access_list_def)
  have A: "A \<noteq> []" "rng_access (last A) = flags" "\<forall>r \<in> set A. start r \<le> first"
    using xs by (auto simp: A_def less_imp_le)
  have gap: "last_a < plus1 last_a" if "\<not> (case zs of [] \<Rightarrow> last_a = maxa | z # _ \<Rightarrow> minus1 (start z) = last_a)"
    using that plus1_max [OF va(2)] plus1_gap [OF va(2), of "start (hd zs)"] valid zs
    by (cases zs) auto
  have B: "\<forall>r \<in> set B. last_a < start r"
    using zs gap by (cases zs) (auto simp: B_def)
  have ne: "xs @ ys \<noteq> []" using cases by auto
  consider (before) "a < first" | (inside) "first \<le> a" "a \<le> last_a" | (after) "last_a < a"
    by (meson not_le)
  then show ?thesis
  proof cases
    case before
    with B va(3) have "\<forall>r \<in> set B. a < start r" by (auto intro: less_trans less_le_trans)
    then have "floor_access (A @ B) a = floor_access A a" by (rule floor_access_front)
    also have "\<dots> = floor_access xs a"
      using before floor_access_front [of "[mk_rng first flags]" a xs] by (simp add: A_def)
    also have "\<dots> = floor_access (xs @ ys @ zs) a"
    proof (rule floor_access_front [symmetric])
      show "\<forall>r \<in> set (ys @ zs). a < start r"
        using before ys zs va(3) by (auto intro: less_le_trans le_less_trans less_trans)
    qed
    finally show ?thesis using before R by auto
  next
    case inside
    have "floor_access (A @ B) a = rng_access (last A)"
      using A(3) B inside by (intro floor_access_split) (auto intro: order_trans le_less_trans)
    with inside A(2) R show ?thesis by simp
  next
    case after
    have le: "\<forall>r \<in> set A. start r \<le> a" "\<forall>r \<in> set (xs @ ys). start r \<le> a"
      using A(3) after va(3) xs ys by (auto intro: order_trans less_imp_le order.strict_trans1 le_less_trans)
    have "floor_access (A @ B) a = floor_access ((xs @ ys) @ zs) a"
      unfolding B_def by (rule rule_tail_floor [OF le A(1) ne A(2) va(2) a after]) (use valid in simp)
    with after R show ?thesis by auto
  qed
qed

lemma add_rule_access:
  assumes "wf_access_list valid zero l" "valid first" "valid last_a" "first \<le> last_a" "valid a"
  shows "access (add_rule plus1 minus1 maxa first last_a flags l) a =
    (if first \<le> a \<and> a \<le> last_a then flags else access l a)"
proof -
  from assms(1,2,4) obtain xs ys zs where l: "l = xs @ ys @ zs" and *: "\<forall>r \<in> set xs. start r < first"
    "\<forall>r \<in> set ys. first \<le> start r \<and> start r \<le> last_a" "\<forall>r \<in> set zs. last_a < start r"
    "xs \<noteq> [] \<or> (\<exists>y ys'. ys = y # ys' \<and> start y = first)"
    by (rule rule_split)
  show ?thesis
    using access_floor [OF add_rule_wf [OF assms(1-4)] assms(5)] access_floor [OF assms(1,5)]
      add_rule_eq [OF _ _ _ _ *] rule_list_floor [OF _ _ _ _ _ *] assms
    by (simp add: l)
qed

lemma filter_impl_wf: "wf_access_list valid zero (filter_impl zero)"
  using valid_zero by (simp add: wf_access_list_def filter_impl_def)

lemma filter_impl_access: "valid a \<Longrightarrow> access (filter_impl zero) a = 0"
  using access_floor [OF filter_impl_wf] zero_least by (simp add: filter_impl_def floor_access_def)

lemma rules_access:
  assumes "wf_access_list valid zero l" "valid a"
    and "\<forall>(f, la, fl) \<in> set rules. valid f \<and> valid la \<and> f \<le> la"
  shows "wf_access_list valid zero
      (fold (\<lambda>(f, la, fl). add_rule plus1 minus1 maxa f la fl) rules l) \<and>
    access (fold (\<lambda>(f, la, fl). add_rule plus1 minus1 maxa f la fl) rules l) a =
    fold (\<lambda>(f, la, fl) acc. if f \<le> a \<and> a \<le> la then fl else acc) rules (access l a)"
  using assms by (induction rules arbitrary: l) (auto simp: add_rule_wf add_rule_access)

lemma export_first:
  "starts_sorted (r # l) \<Longrightarrow> e \<in> set (export_filter minus1 maxa (r # l)) \<Longrightarrow> start r \<le> first_addr e"
proof (induction l arbitrary: r)
  case (Cons r' l)
  then show ?case by (auto intro: less_imp_le less_le_trans)
qed simp

lemma export_covers:
  assumes "starts_sorted (r # l)" "\<forall>s \<in> set (r # l). valid (start s)" "valid a" "start r \<le> a"
  shows "map range_flags (filter (\<lambda>e. first_addr e \<le> a \<and> a \<le> last_addr e)
      (export_filter minus1 maxa (r # l))) = [floor_access (r # l) a]"
  using assms
proof (induction l arbitrary: r)
  case Nil
  then show ?case using max_greatest by (simp add: floor_access_def)
next
  case (Cons r' l)
  have prev: "valid (start r)" "valid (start r')" "start r < start r'"
    using Cons.prems(1,2) by auto
  note m = minus1_prev [OF prev]
  show ?case
  proof (cases "a < start r'")
    case True
    then have "a \<le> minus1 (start r')" using minus1_prev [OF Cons.prems(3) prev(2)] by simp
    moreover have "\<forall>e \<in> set (export_filter minus1 maxa (r' # l)). \<not> first_addr e \<le> a"
    proof
      fix e assume "e \<in> set (export_filter minus1 maxa (r' # l))"
      then have "start r' \<le> first_addr e" using Cons.prems(1) by (intro export_first) auto
      with True show "\<not> first_addr e \<le> a" by simp
    qed
    ultimately show ?thesis
      using True Cons.prems(4) by (auto simp: floor_access_def filter_empty_conv)
  next
    case False
    then have "\<not> a \<le> minus1 (start r')" using m by auto
    moreover have "floor_access (r # r' # l) a = floor_access (r' # l) a"
      using False Cons.prems(4) by (simp add: floor_access_def not_less)
    ultimately show ?thesis using Cons.IH [of r'] Cons.prems False by auto
  qed
qed

lemma export_access:
  assumes "wf_access_list valid zero l" "valid a"
  shows "map range_flags (filter (\<lambda>e. first_addr e \<le> a \<and> a \<le> last_addr e)
      (export_filter minus1 maxa l)) = [access l a]"
proof -
  obtain r l' where l: "l = r # l'" "start r = zero"
    using assms(1) by (cases l) (auto simp: wf_access_list_def)
  show ?thesis
    using export_covers [of r l' a] access_floor [OF assms] assms zero_least
    by (auto simp: wf_access_list_def l)
qed

end

section \<open>The filters the session uses\<close>

definition ip_rule :: "uint8 list \<times> uint8 list \<times> int \<Rightarrow> ip_filter \<Rightarrow> ip_filter" where
  "ip_rule r s = (case r of (f, l, fl) \<Rightarrow> ip_filter_add_rule (V4 f) (V4 l) fl s)"

lemma m_filter4_rules:
  "m_filter4 (fold ip_rule rules s) =
   fold (\<lambda>(f, la, fl). add_rule plus_one minus_one (max_bytes 4) f la fl) rules (m_filter4 s)"
  by (induction rules arbitrary: s) (auto simp: ip_rule_def)

lemma m_filter_rules:
  "m_filter (fold (\<lambda>(f, la, fl). port_filter_add_rule f la fl) rules s) =
   fold (\<lambda>(f, la, fl). add_rule plus_one_port minus_one_port max_addr_port f la fl) rules (m_filter s)"
  by (induction rules arbitrary: s) (auto simp: port_filter_add_rule_def)

text \<open>
  C37. The access flags of an IPv4 address after any sequence of \<open>ip_filter::add_rule\<close> calls
  are those of the last rule whose range contains it, and 0 when there is none: the sorted set
  of range starts, with its merging of neighbours, implements the list of rules.
\<close>

theorem ip_filter_last_rule_wins:
  assumes "\<forall>(f, la, fl) \<in> set rules. length f = 4 \<and> length la = 4 \<and> f \<le> la" and "length a = 4"
  shows "ip_filter_access (fold ip_rule rules ip_filter_init) (V4 a) =
    fold (\<lambda>(f, la, fl) acc. if f \<le> a \<and> a \<le> la then fl else acc) rules 0"
  using v4.rules_access [OF v4.filter_impl_wf assms(2,1)] assms(2)
  by (simp add: m_filter4_rules ip_filter_init_def v4.filter_impl_access)

theorem ip_filter_last_rule_wins_witness:
  "ip_filter_access (fold ip_rule [([10,0,0,0], [10,255,255,255], 1), ([10,0,1,0], [10,0,1,255], 0)]
     ip_filter_init) (V4 [10,0,2,7]) = 1"
proof -
  let ?rules = "[([10,0,0,0], [10,255,255,255], 1), ([10,0,1,0], [10,0,1,255], 0)]
    :: (uint8 list \<times> uint8 list \<times> int) list"
  have "\<forall>(f, la, fl) \<in> set ?rules. length f = 4 \<and> length la = 4 \<and> f \<le> la" by simp
  moreover have "length [10, 0, 2, 7 :: uint8] = 4" by simp
  ultimately have "ip_filter_access (fold ip_rule ?rules ip_filter_init) (V4 [10,0,2,7]) =
    fold (\<lambda>(f, la, fl) acc. if f \<le> [10,0,2,7] \<and> [10,0,2,7] \<le> la then fl else acc) ?rules 0"
    by (rule ip_filter_last_rule_wins)
  then show ?thesis by simp
qed

text \<open>
  C38. \<open>ip_filter::export_filter\<close> lists the address space as disjoint ranges: after any sequence
  of rules exactly one exported range contains a given address, and it carries the flags that
  \<open>access\<close> reports for it.
\<close>

theorem ip_filter_export_partition:
  assumes "\<forall>(f, la, fl) \<in> set rules. length f = 4 \<and> length la = 4 \<and> f \<le> la" and "length a = 4"
  defines "s \<equiv> fold ip_rule rules ip_filter_init"
  shows "map range_flags (filter (\<lambda>e. first_addr e \<le> a \<and> a \<le> last_addr e) (ip_filter_export s)) =
    [ip_filter_access s (V4 a)]"
  using v4.export_access [OF conjunct1 [OF v4.rules_access [OF v4.filter_impl_wf assms(2,1)]] assms(2)]
  by (simp add: s_def ip_filter_export_def m_filter4_rules ip_filter_init_def)

theorem ip_filter_export_partition_witness:
  "map range_flags (filter (\<lambda>e. first_addr e \<le> [10,0,1,9] \<and> [10,0,1,9] \<le> last_addr e)
     (ip_filter_export (fold ip_rule [([10,0,1,0], [10,0,1,255], 1)] ip_filter_init))) =
   [ip_filter_access (fold ip_rule [([10,0,1,0], [10,0,1,255], 1)] ip_filter_init) (V4 [10,0,1,9])]"
  by (rule ip_filter_export_partition) simp_all

text \<open>
  The same for the 16-bit instance: \<open>port_filter::access\<close> gives the flags of the last rule
  that covers the port.
\<close>

lemma port_filter_last_rule_wins:
  assumes "\<forall>(f, la, fl) \<in> set rules. f \<le> la"
  shows "port_filter_access
      (fold (\<lambda>(f, la, fl). port_filter_add_rule f la fl) rules port_filter_init) p =
    fold (\<lambda>(f, la, fl) acc. if f \<le> p \<and> p \<le> la then fl else acc) rules 0"
  using port.rules_access [OF port.filter_impl_wf, where a = p and rules = rules] assms
  by (simp add: port_filter_access_def m_filter_rules port_filter_init_def port.filter_impl_access)

end
