(* ===== verification/Picker_State.thy ===== *)
theory Picker_State
  imports Ed2k_Prelude
begin

text \<open>
  The data of \<^verbatim>\<open>piece_picker\<close> (\<^verbatim>\<open>include/libed2k/piece_picker.hpp\<close>): what it knows of every
  piece, the blocks of the pieces being downloaded, and the priority a piece is queued under.
  The model is that of the default configuration, \<^verbatim>\<open>LIBED2K_COMPACT_PICKER\<close> 0: 16 bits of peer
  count, 32 bits of index. Peers are opaque pointers, written as numbers with 0 for null.
\<close>

section \<open>Data\<close>

type_synonym peer_ptr = nat

datatype block_state = state_none | state_requested | state_writing | state_finished

record block_info =
  peer :: peer_ptr
  num_peers :: nat
  block_state :: block_state

datatype piece_state_t = ps_none | slow | medium | fast

text \<open>
  \<open>info\<close> is a pointer into the vector of block records all downloads share; here it is the
  offset of the download's first block in that vector.
\<close>

record downloading_piece =
  dl_state :: piece_state_t
  dl_index :: nat
  info :: nat
  finished :: int
  writing :: int
  requested :: int

record piece_pos =
  peer_count :: nat
  downloading :: bool
  full :: bool
  piece_priority :: nat
  index :: nat

record piece_block =
  piece_index :: nat
  block_index :: nat

definition we_have_index :: nat where
  "we_have_index = 0xffffffff"

definition max_peer_count :: nat where
  "max_peer_count = 0xffff"

definition priority_levels :: nat where
  "priority_levels = 8"

definition prio_factor :: nat where
  "prio_factor = priority_levels - 4"

definition pos_have :: "piece_pos \<Rightarrow> bool" where
  "pos_have p \<longleftrightarrow> index p = we_have_index"

definition pos_filtered :: "piece_pos \<Rightarrow> bool" where
  "pos_filtered p \<longleftrightarrow> piece_priority p = 0"

definition set_have :: "piece_pos \<Rightarrow> piece_pos" where
  "set_have p = p\<lparr>index := we_have_index\<rparr>"

definition set_not_have :: "piece_pos \<Rightarrow> piece_pos" where
  "set_not_have p = p\<lparr>index := 0\<rparr>"

text \<open>The increment and decrement of the 16-bit field \<open>peer_count\<close> wrap around.\<close>

definition inc_peer_count :: "piece_pos \<Rightarrow> piece_pos" where
  "inc_peer_count p = p\<lparr>peer_count := (peer_count p + 1) mod 2 ^ 16\<rparr>"

definition dec_peer_count :: "piece_pos \<Rightarrow> piece_pos" where
  "dec_peer_count p = p\<lparr>peer_count := (peer_count p + (2 ^ 16 - 1)) mod 2 ^ 16\<rparr>"

text \<open>
  \<open>piece_pos::priority\<close>: \<open>- 1\<close> for a piece that is not to be queued, otherwise the number of
  the priority level, smaller for more urgent.
\<close>

definition priority :: "nat \<Rightarrow> piece_pos \<Rightarrow> int" where
  "priority seeds p =
    (if pos_filtered p \<or> pos_have p \<or> peer_count p + seeds = 0 then - 1
     else if piece_priority p = priority_levels - 1 then 1 - (if downloading p then 1 else 0)
     else
       let (availability, pr) =
             (if priority_levels div 2 \<le> piece_priority p
              then (peer_count p div 2, piece_priority p - (priority_levels - 2) div 2)
              else (peer_count p, piece_priority p))
       in if downloading p then int (availability * prio_factor)
          else int (availability * prio_factor + priority_levels div 2) - int pr)"

record piece_picker =
  m_seeds :: nat
  m_pieces :: "int list"
  m_priority_boundries :: "nat list"
  m_piece_map :: "piece_pos list"
  m_downloads :: "downloading_piece list"
  m_block_info :: "block_info list"
  m_blocks_per_piece :: nat
  m_blocks_in_last_piece :: nat
  m_num_filtered :: int
  m_num_have_filtered :: int
  m_num_have :: int
  m_cursor :: nat
  m_reverse_cursor :: nat
  m_sparse_regions :: int
  m_dirty :: bool

abbreviation num_pieces :: "piece_picker \<Rightarrow> nat" where
  "num_pieces s \<equiv> length (m_piece_map s)"

section \<open>The priority of a piece\<close>

lemmas priority_defs = priority_def priority_levels_def prio_factor_def pos_filtered_def Let_def

text \<open>
  Every priority is \<open>- 1\<close> or a level; with at most seven user priorities a level is even in
  units of \<open>prio_factor\<close> exactly for the pieces that are being downloaded.
\<close>

lemma priority_ge: "piece_priority p < 8 \<Longrightarrow> - 1 \<le> priority seeds p"
  by (auto simp: priority_defs)

lemma priority_cong_index:
  "n \<noteq> we_have_index \<Longrightarrow> \<not> pos_have p \<Longrightarrow> priority seeds (p\<lparr>index := n\<rparr>) = priority seeds p"
  by (simp add: priority_defs pos_have_def)

lemma priority_minus_one:
  "piece_priority p < 8 \<Longrightarrow>
   priority seeds p = - 1 \<longleftrightarrow> pos_filtered p \<or> pos_have p \<or> peer_count p + seeds = 0"
  by (auto simp: priority_defs)

lemma priority_downloading_level:
  assumes "piece_priority p < 8" "priority seeds p \<noteq> - 1"
  shows "downloading p \<longleftrightarrow> priority seeds p mod int prio_factor = 0"
proof -
  have nn: "\<not> pos_filtered p" "\<not> pos_have p" "peer_count p + seeds \<noteq> 0"
    using assms by (simp_all add: priority_minus_one)
  have "piece_priority p \<in> {1, 2, 3, 4, 5, 6, 7}"
    using assms(1) nn(1) by (auto simp: pos_filtered_def)
  moreover have "(4 * a + 1) mod 4 \<noteq> 0 \<and> (4 * a + 2) mod 4 \<noteq> 0 \<and> (4 * a + 3) mod 4 \<noteq> 0" for a :: int
    by presburger
  ultimately show ?thesis
    using nn by (auto simp: priority_defs mult.commute; presburger)
qed

end
