(* ===== verification/Picker_Queue.thy ===== *)
theory Picker_Queue
  imports Picker_State
begin

text \<open>
  The queue of pickable pieces of \<^verbatim>\<open>src/piece_picker.cpp\<close>: \<open>m_pieces\<close> holds the pieces in
  order of priority, \<open>m_priority_boundries\<close> the end of every priority level in it, and every
  piece knows its position. \<open>add\<close>, \<open>remove\<close>, \<open>update\<close> and \<open>shuffle\<close> keep the three in step
  by moving one piece per level. The theory shows that on the level of the buckets (the lists of
  pieces between two boundaries) they insert, delete and move one piece and rotate the rest.
\<close>

section \<open>The operations\<close>

definition set_index :: "piece_pos list \<Rightarrow> nat \<Rightarrow> nat \<Rightarrow> piece_pos list" where
  "set_index pmap i n = pmap[i := (pmap ! i)\<lparr>index := n\<rparr>]"

definition priority_range :: "nat \<Rightarrow> nat list \<Rightarrow> nat \<times> nat" where
  "priority_range prio bnd = (if prio = 0 then 0 else bnd ! (prio - 1), bnd ! prio)"

text \<open>The inner loop \<open>do { temp = m_priority_boundries[priority]++; ++priority; } while (..)\<close>.\<close>

function add_skip :: "nat list \<Rightarrow> nat \<Rightarrow> nat \<Rightarrow> nat list \<times> nat \<times> nat" where
  "add_skip bnd new_index prio =
    (let temp = bnd ! prio; bnd = bnd[prio := temp + 1]; prio = prio + 1
     in if temp = new_index \<and> prio < length bnd then add_skip bnd new_index prio
        else (bnd, temp, prio))"
  by pat_completeness auto
termination
  by (relation "measure (\<lambda>(bnd, _, prio). length bnd - prio)") auto

declare add_skip.simps [simp del]

lemma add_skip_measure:
  "add_skip bnd n prio = (bnd', temp, prio') \<Longrightarrow> length bnd' = length bnd \<and> prio < prio'"
  by (induction bnd n prio rule: add_skip.induct)
    (subst (asm) (2) add_skip.simps, fastforce simp: Let_def split: if_splits)

function add_loop ::
  "piece_pos list \<Rightarrow> int list \<Rightarrow> nat list \<Rightarrow> int \<Rightarrow> nat \<Rightarrow> nat
   \<Rightarrow> piece_pos list \<times> int list \<times> nat list \<times> int \<times> nat" where
  "add_loop pmap pieces bnd ind new_index prio =
    (let temp = pieces ! new_index;
         pieces = pieces[new_index := ind];
         pmap = set_index pmap (nat ind) new_index;
         ind = temp;
         (bnd', temp, prio') = add_skip bnd new_index prio;
         new_index = temp
     in if length bnd' \<le> prio' then (pmap, pieces, bnd', ind, new_index)
        else add_loop pmap pieces bnd' ind new_index prio')"
  by pat_completeness auto
termination
  by (relation "measure (\<lambda>(_, _, bnd, _, _, prio). length bnd - prio)")
    (auto dest!: add_skip_measure [OF sym])

declare add_loop.simps [simp del]

text \<open>The last displaced piece goes to the place the loop ended at.\<close>

definition add_place ::
  "piece_pos list \<Rightarrow> int list \<Rightarrow> nat list \<Rightarrow> int \<Rightarrow> nat \<Rightarrow> nat \<Rightarrow> piece_pos list \<times> int list \<times> nat list" where
  "add_place pmap pieces bnd ind new_index prio =
    (let (pmap, pieces, bnd, ind, new_index) = add_loop pmap pieces bnd ind new_index prio
     in if ind \<noteq> - 1 then (set_index pmap (nat ind) new_index, pieces[new_index := ind], bnd)
        else (pmap, pieces, bnd))"

definition add :: "nat \<Rightarrow> nat \<Rightarrow> piece_picker \<Rightarrow> piece_picker" where
  "add rnd i s =
    (let prio = nat (priority (m_seeds s) (m_piece_map s ! i));
         bnd = (if length (m_priority_boundries s) \<le> prio
                then resize (prio + 1) (length (m_pieces s)) (m_priority_boundries s)
                else m_priority_boundries s);
         (range_start, range_end) = priority_range prio bnd;
         new_index = (if range_end = range_start then range_start
                      else rnd mod (range_end - range_start + 1) + range_start);
         (pmap, pieces, bnd) =
           add_place (m_piece_map s) (m_pieces s @ [- 1]) bnd (int i) new_index prio
     in s\<lparr>m_pieces := pieces, m_priority_boundries := bnd, m_piece_map := pmap\<rparr>)"

text \<open>The inner loop \<open>do { temp = --m_priority_boundries[priority]; ++priority; } while (..)\<close>.\<close>

function remove_skip :: "nat list \<Rightarrow> nat \<Rightarrow> nat \<Rightarrow> nat list \<times> nat \<times> nat" where
  "remove_skip bnd next_index prio =
    (let temp = bnd ! prio - 1; bnd = bnd[prio := temp]; prio = prio + 1
     in if next_index = temp \<and> prio < length bnd then remove_skip bnd next_index prio
        else (bnd, temp, prio))"
  by pat_completeness auto
termination
  by (relation "measure (\<lambda>(bnd, _, prio). length bnd - prio)") auto

declare remove_skip.simps [simp del]

lemma remove_skip_measure:
  "remove_skip bnd n prio = (bnd', temp, prio') \<Longrightarrow> length bnd' = length bnd \<and> prio < prio'"
  by (induction bnd n prio rule: remove_skip.induct)
    (subst (asm) (2) remove_skip.simps, fastforce simp: Let_def split: if_splits)

function remove_loop ::
  "piece_pos list \<Rightarrow> int list \<Rightarrow> nat list \<Rightarrow> nat \<Rightarrow> nat \<Rightarrow> nat
   \<Rightarrow> piece_pos list \<times> int list \<times> nat list" where
  "remove_loop pmap pieces bnd elem_index next_index prio =
    (let (bnd', temp, prio') = remove_skip bnd next_index prio
     in if next_index = temp then (pmap, pieces, bnd')
        else
          let next_index = temp;
              piece = pieces ! next_index;
              pieces = pieces[elem_index := piece];
              pmap = set_index pmap (nat piece) elem_index;
              elem_index = next_index
          in if length bnd' \<le> prio' then (pmap, pieces, bnd')
             else remove_loop pmap pieces bnd' elem_index next_index prio')"
  by pat_completeness auto
termination
  by (relation "measure (\<lambda>(_, _, bnd, _, _, prio). length bnd - prio)")
    (auto dest!: remove_skip_measure [OF sym])

declare remove_loop.simps [simp del]

definition remove :: "nat \<Rightarrow> nat \<Rightarrow> piece_picker \<Rightarrow> piece_picker" where
  "remove prio elem_index s =
    (let (pmap, pieces, bnd) =
           remove_loop (m_piece_map s) (m_pieces s) (m_priority_boundries s) elem_index elem_index prio
     in s\<lparr>m_pieces := butlast pieces, m_priority_boundries := bnd, m_piece_map := pmap\<rparr>)"

definition shuffle :: "nat \<Rightarrow> nat \<Rightarrow> nat \<Rightarrow> piece_picker \<Rightarrow> piece_picker" where
  "shuffle rnd prio elem_index s =
    (let (range_start, range_end) = priority_range prio (m_priority_boundries s);
         other_index = rnd mod (range_end - range_start) + range_start
     in if other_index = elem_index then s
        else
          let pieces = m_pieces s;
              i1 = nat (pieces ! other_index);
              i2 = nat (pieces ! elem_index);
              x1 = index (m_piece_map s ! i1);
              x2 = index (m_piece_map s ! i2);
              pmap = set_index (set_index (m_piece_map s) i1 x2) i2 x1
          in s\<lparr>m_pieces := pieces[other_index := pieces ! elem_index, elem_index := pieces ! other_index],
               m_piece_map := pmap\<rparr>)"

text \<open>
  The loops of \<open>update\<close> move a piece to a smaller level (up) or a larger one (down); they visit
  one level per round, so the number of rounds is the distance of the levels.
\<close>

fun update_up ::
  "nat \<Rightarrow> piece_pos list \<Rightarrow> int list \<Rightarrow> nat list \<Rightarrow> nat \<Rightarrow> int \<Rightarrow> nat
   \<Rightarrow> piece_pos list \<times> int list \<times> nat list \<times> nat" where
  "update_up 0 pmap pieces bnd elem_index temp prio = (pmap, pieces, bnd, elem_index)"
| "update_up (Suc rounds) pmap pieces bnd elem_index temp prio =
    (let prio = prio - 1;
         new_index = bnd ! prio;
         bnd = bnd[prio := new_index + 1];
         (pmap, pieces, temp) =
           (if temp \<noteq> pieces ! new_index
            then (set_index pmap (nat (pieces ! new_index)) elem_index,
                  pieces[elem_index := pieces ! new_index], pieces ! new_index)
            else (pmap, pieces, temp))
     in update_up rounds pmap pieces bnd new_index temp prio)"

fun update_down ::
  "nat \<Rightarrow> piece_pos list \<Rightarrow> int list \<Rightarrow> nat list \<Rightarrow> nat \<Rightarrow> int \<Rightarrow> nat
   \<Rightarrow> piece_pos list \<times> int list \<times> nat list \<times> nat" where
  "update_down 0 pmap pieces bnd elem_index temp prio = (pmap, pieces, bnd, elem_index)"
| "update_down (Suc rounds) pmap pieces bnd elem_index temp prio =
    (let new_index = bnd ! prio - 1;
         bnd = bnd[prio := new_index];
         (pmap, pieces, temp) =
           (if temp \<noteq> pieces ! new_index
            then (set_index pmap (nat (pieces ! new_index)) elem_index,
                  pieces[elem_index := pieces ! new_index], pieces ! new_index)
            else (pmap, pieces, temp))
     in update_down rounds pmap pieces bnd new_index temp (prio + 1))"

definition update :: "nat \<Rightarrow> nat \<Rightarrow> nat \<Rightarrow> piece_picker \<Rightarrow> piece_picker" where
  "update rnd prio elem_index s =
    (let ind = m_pieces s ! elem_index;
         new_priority = priority (m_seeds s) (m_piece_map s ! nat ind)
     in if new_priority = int prio then s
        else if new_priority = - 1 then remove prio elem_index s
        else
          let new_prio = nat new_priority;
              bnd = (if length (m_priority_boundries s) \<le> new_prio
                     then resize (new_prio + 1) (length (m_pieces s)) (m_priority_boundries s)
                     else m_priority_boundries s);
              (pmap, pieces, bnd, elem_index) =
                (if new_prio < prio
                 then update_up (prio - new_prio) (m_piece_map s) (m_pieces s) bnd elem_index ind prio
                 else update_down (new_prio - prio) (m_piece_map s) (m_pieces s) bnd elem_index ind prio);
              pieces = pieces[elem_index := ind];
              pmap = set_index pmap (nat ind) elem_index
          in shuffle rnd new_prio elem_index
               (s\<lparr>m_pieces := pieces, m_priority_boundries := bnd, m_piece_map := pmap\<rparr>))"

section \<open>Buckets and boundaries\<close>

text \<open>\<open>ends n bs\<close> are the boundaries of the buckets \<open>bs\<close> when the first one starts at \<open>n\<close>.\<close>

fun ends :: "nat \<Rightarrow> 'a list list \<Rightarrow> nat list" where
  "ends n [] = []"
| "ends n (b # bs) = (n + length b) # ends (n + length b) bs"

lemma length_ends [simp]: "length (ends n bs) = length bs"
  by (induction bs arbitrary: n) auto

lemma ends_append: "ends n (as @ bs) = ends n as @ ends (n + length (concat as)) bs"
  by (induction as arbitrary: n) (auto simp: add.assoc)

lemma ends_nth: "q < length bs \<Longrightarrow> ends n bs ! q = n + length (concat (take (Suc q) bs))"
proof (induction bs arbitrary: n q)
  case (Cons b bs)
  then show ?case by (cases q) auto
qed simp

lemma ends_rotate [simp]: "ends n (map rotate1 bs) = ends n bs"
  by (induction bs arbitrary: n) auto

lemma ends_Suc: "ends (Suc n) bs = map Suc (ends n bs)"
  by (induction bs arbitrary: n) auto

definition rotr :: "'a list \<Rightarrow> 'a list" where
  "rotr xs = (if xs = [] then [] else last xs # butlast xs)"

lemma rotr_simps [simp]: "rotr [] = []" "rotr (xs @ [x]) = x # xs"
  by (simp_all add: rotr_def)

lemma length_rotr [simp]: "length (rotr xs) = length xs"
  by (simp add: rotr_def)

lemma set_rotr [simp]: "set (rotr xs) = set xs"
  by (cases xs rule: rev_cases) auto

lemma ends_rotr [simp]: "ends n (map rotr bs) = ends n bs"
  by (induction bs arbitrary: n) auto

lemma set_concat_rotate [simp]: "set (concat (map rotate1 bs)) = set (concat bs)"
  by (induction bs) auto

lemma set_concat_rotr [simp]: "set (concat (map rotr bs)) = set (concat bs)"
  by (induction bs) auto

lemma length_concat_rotate [simp]: "length (concat (map rotate1 bs)) = length (concat bs)"
  by (induction bs) auto

lemma length_concat_rotr [simp]: "length (concat (map rotr bs)) = length (concat bs)"
  by (induction bs) auto

lemma mset_rotr [simp]: "mset (rotr xs) = mset xs"
  by (cases xs rule: rev_cases) auto

lemma mset_rotate1 [simp]: "mset (rotate1 xs) = mset xs"
  by (cases xs) auto

lemma mset_concat_rotate [simp]: "mset (concat (map rotate1 bs)) = mset (concat bs)"
  by (induction bs) auto

lemma mset_concat_rotr [simp]: "mset (concat (map rotr bs)) = mset (concat bs)"
  by (induction bs) auto

text \<open>Either every bucket is empty, or there is a first one that is not.\<close>

lemma buckets_cases:
  obtains "\<forall>b \<in> set bs. b = []"
  | es y ys bs' where "bs = es @ (y # ys) # bs'" "\<forall>b \<in> set es. b = []"
proof (cases "\<forall>b \<in> set bs. b = []")
  case False
  then obtain es b bs' where "bs = es @ b # bs'" "b \<noteq> []" "\<forall>b \<in> set es. \<not> b \<noteq> []"
    using split_list_first_prop [of bs "\<lambda>b. b \<noteq> []"] by blast
  then show thesis by (cases b) (auto intro: that(2))
qed (rule that(1))

lemma concat_empty [simp]: "\<forall>b \<in> set bs. b = [] \<Longrightarrow> concat bs = []"
  by simp

lemma add_skip_empty:
  "\<forall>b \<in> set bs. b = [] \<Longrightarrow> bs \<noteq> [] \<Longrightarrow>
   add_skip (done @ ends n bs) n (length done) =
   (done @ map Suc (ends n bs), n, length done + length bs)"
proof (induction bs arbitrary: "done")
  case (Cons b bs)
  show ?case
  proof (cases bs)
    case Nil
    with Cons.prems show ?thesis by (subst add_skip.simps) (simp add: Let_def)
  next
    case Cons': (Cons b' bs')
    have "add_skip ((done @ [Suc n]) @ ends n bs) n (length (done @ [Suc n])) =
      ((done @ [Suc n]) @ map Suc (ends n bs), n, length (done @ [Suc n]) + length bs)"
      using Cons.prems Cons' by (intro Cons.IH) auto
    then show ?thesis using Cons.prems Cons' by (subst add_skip.simps) (simp add: Let_def)
  qed
qed simp

lemma add_skip_first:
  "\<forall>b \<in> set es. b = [] \<Longrightarrow>
   add_skip (done @ ends n (es @ (y # ys) # bs)) n (length done) =
   (done @ map Suc (ends n (es @ [y # ys])) @ ends (n + Suc (length ys)) bs,
    n + Suc (length ys), length done + length es + 1)"
proof (induction es arbitrary: "done")
  case Nil
  show ?case by (subst add_skip.simps) (simp add: Let_def)
next
  case (Cons e es)
  have "add_skip ((done @ [Suc n]) @ ends n (es @ (y # ys) # bs)) n (length (done @ [Suc n])) =
    ((done @ [Suc n]) @ map Suc (ends n (es @ [y # ys])) @ ends (n + Suc (length ys)) bs,
     n + Suc (length ys), length (done @ [Suc n]) + length es + 1)"
    using Cons.prems by (intro Cons.IH) auto
  then show ?case using Cons.prems by (subst add_skip.simps) (simp add: Let_def)
qed

lemma remove_skip_empty:
  "\<forall>b \<in> set bs. b = [] \<Longrightarrow> bs \<noteq> [] \<Longrightarrow>
   remove_skip (done @ ends (Suc n) bs) n (length done) =
   (done @ ends n bs, n, length done + length bs)"
proof (induction bs arbitrary: "done")
  case (Cons b bs)
  show ?case
  proof (cases bs)
    case Nil
    with Cons.prems show ?thesis by (subst remove_skip.simps) (simp add: Let_def)
  next
    case Cons': (Cons b' bs')
    have "remove_skip ((done @ [n]) @ ends (Suc n) bs) n (length (done @ [n])) =
      ((done @ [n]) @ ends n bs, n, length (done @ [n]) + length bs)"
      using Cons.prems Cons' by (intro Cons.IH) auto
    then show ?thesis using Cons.prems Cons' by (subst remove_skip.simps) (simp add: Let_def)
  qed
qed simp

lemma remove_skip_first:
  "\<forall>b \<in> set es. b = [] \<Longrightarrow>
   remove_skip (done @ ends (Suc n) (es @ (y # ys) # bs)) n (length done) =
   (done @ ends n (es @ [y # ys]) @ ends (n + length ys + 2) bs,
    n + Suc (length ys), length done + length es + 1)"
proof (induction es arbitrary: "done")
  case Nil
  show ?case by (subst remove_skip.simps) (simp add: Let_def)
next
  case (Cons e es)
  have "remove_skip ((done @ [n]) @ ends (Suc n) (es @ (y # ys) # bs)) n (length (done @ [n])) =
    ((done @ [n]) @ ends n (es @ [y # ys]) @ ends (n + length ys + 2) bs,
     n + Suc (length ys), length (done @ [n]) + length es + 1)"
    using Cons.prems by (intro Cons.IH) auto
  then show ?case using Cons.prems by (subst remove_skip.simps) (simp add: Let_def)
qed

section \<open>Positions\<close>

text \<open>
  \<open>placed m n xs\<close>: the pieces \<open>xs\<close> know their positions \<open>n\<close>, \<open>n + 1\<close> and so on in the piece
  map \<open>m\<close>; \<open>reindexed S m m'\<close>: only positions changed, and only those of pieces in \<open>S\<close>.
\<close>

fun placed :: "piece_pos list \<Rightarrow> nat \<Rightarrow> int list \<Rightarrow> bool" where
  "placed m n [] \<longleftrightarrow> True"
| "placed m n (x # xs) \<longleftrightarrow>
     0 \<le> x \<and> nat x < length m \<and> index (m ! nat x) = n \<and> placed m (Suc n) xs"

definition reindexed :: "nat set \<Rightarrow> piece_pos list \<Rightarrow> piece_pos list \<Rightarrow> bool" where
  "reindexed S m m' \<longleftrightarrow> length m' = length m \<and>
     (\<forall>q < length m. (q \<notin> S \<longrightarrow> m' ! q = m ! q) \<and> (\<exists>k. m' ! q = (m ! q)\<lparr>index := k\<rparr>))"

definition ids :: "piece_pos list \<Rightarrow> int list \<Rightarrow> bool" where
  "ids m xs \<longleftrightarrow> (\<forall>x \<in> set xs. 0 \<le> x \<and> nat x < length m)"

lemma placed_append [simp]: "placed m n (xs @ ys) \<longleftrightarrow> placed m n xs \<and> placed m (n + length xs) ys"
  by (induction xs arbitrary: n) auto

lemma placed_nth: "placed m n xs \<Longrightarrow> j < length xs \<Longrightarrow>
   0 \<le> xs ! j \<and> nat (xs ! j) < length m \<and> index (m ! nat (xs ! j)) = n + j"
proof (induction xs arbitrary: n j)
  case (Cons x xs)
  then show ?case by (cases j) auto
qed simp

lemma placed_ids: "placed m n xs \<Longrightarrow> ids m xs"
  by (induction xs arbitrary: n) (auto simp: ids_def)

lemma ids_simps [simp]:
  "ids m []" "ids m (x # xs) \<longleftrightarrow> 0 \<le> x \<and> nat x < length m \<and> ids m xs"
  "ids m (xs @ ys) \<longleftrightarrow> ids m xs \<and> ids m ys"
  by (auto simp: ids_def)

lemma length_set_index [simp]: "length (set_index m i n) = length m"
  by (simp add: set_index_def)

lemma set_index_nth:
  "q < length m \<Longrightarrow> set_index m i n ! q = (if q = i then (m ! q)\<lparr>index := n\<rparr> else m ! q)"
  by (simp add: set_index_def nth_list_update)

lemma ex_index_self [simp]: "\<exists>k. p = (p::piece_pos)\<lparr>index := k\<rparr>"
  by (rule exI [of _ "index p"]) simp

lemma reindexed_refl [simp]: "reindexed S m m"
  by (simp add: reindexed_def)

lemma reindexed_set_index: "i \<in> S \<Longrightarrow> reindexed S m (set_index m i n)"
  by (auto simp: reindexed_def set_index_nth)

lemma reindexed_trans:
  "reindexed S m m' \<Longrightarrow> reindexed T m' m'' \<Longrightarrow> S \<subseteq> U \<Longrightarrow> T \<subseteq> U \<Longrightarrow> reindexed U m m''"
  unfolding reindexed_def by (fastforce simp: subset_iff)

lemma reindexed_length: "reindexed S m m' \<Longrightarrow> length m' = length m"
  by (simp add: reindexed_def)

lemma reindexed_other: "reindexed S m m' \<Longrightarrow> q \<notin> S \<Longrightarrow> q < length m \<Longrightarrow> m' ! q = m ! q"
  by (simp add: reindexed_def)

lemma ids_cong: "length m' = length m \<Longrightarrow> ids m' xs = ids m xs"
  by (simp add: ids_def)

lemma placed_reindexed:
  "reindexed S m m' \<Longrightarrow> placed m n xs \<Longrightarrow> nat ` set xs \<inter> S = {} \<Longrightarrow> placed m' n xs"
  by (induction xs arbitrary: n) (auto simp: reindexed_def)

lemma placed_set_index:
  "placed m n xs \<Longrightarrow> i \<notin> nat ` set xs \<Longrightarrow> placed (set_index m i k) n xs"
  by (induction xs arbitrary: n) (auto simp: set_index_nth)

lemma nat_notin_image: "ids m xs \<Longrightarrow> 0 \<le> x \<Longrightarrow> x \<notin> set xs \<Longrightarrow> nat x \<notin> nat ` set xs"
  by (auto simp: ids_def eq_nat_nat_iff)

lemma nat_image_disjoint:
  assumes "ids m xs" "ids m ys" "set xs \<inter> set ys = {}"
  shows "nat ` set xs \<inter> nat ` set ys = {}"
proof -
  have "inj_on nat (set xs \<union> set ys)"
    using assms(1,2) by (auto simp: ids_def inj_on_def eq_nat_nat_iff)
  then show ?thesis using assms(3) by (metis inj_on_image_Int image_empty sup.cobounded1 sup.cobounded2)
qed

lemma add_place_correct:
  assumes "bs \<noteq> []" "length pre = n" "distinct (x # concat bs)" "ids m (x # concat bs)"
    and "placed m (Suc n) (tl (concat bs))"
  shows "\<exists>m'. add_place m (pre @ concat bs @ [- 1]) (done @ ends n bs) x n (length done) =
      (m', pre @ x # concat (map rotate1 bs), done @ map Suc (ends n bs))
    \<and> reindexed (nat ` set (x # concat bs)) m m' \<and> placed m' n (x # concat (map rotate1 bs))"
  using assms
proof (induction "length bs" arbitrary: bs pre n x m "done" rule: less_induct)
  case less
  let ?m = "set_index m (nat x) n"
  have x: "0 \<le> x" "nat x < length m" using less.prems(4) by auto
  consider (empty) "\<forall>b \<in> set bs. b = []"
    | (first) es y ys bs' where "bs = es @ (y # ys) # bs'" "\<forall>b \<in> set es. b = []"
    by (rule buckets_cases)
  then show ?case
  proof cases
    case empty
    have "concat (map rotate1 bs) = []" using empty by simp
    with empty less.prems(1,2) x show ?thesis
      by (auto simp: add_place_def add_loop.simps add_skip_empty reindexed_set_index set_index_nth)
  next
    case first
    let ?n = "n + Suc (length ys)" and ?done = "done @ map Suc (ends n (es @ [y # ys]))"
    let ?pre = "pre @ x # ys"
    have c: "concat bs = y # ys @ concat bs'" "concat (map rotate1 bs) = ys @ y # concat (map rotate1 bs')"
      using first by auto
    have e: "ends n bs = ends n (es @ [y # ys]) @ ends ?n bs'"
      using first by (simp add: ends_append)
    have y: "y \<noteq> - 1" "0 \<le> y" "nat y < length m" using less.prems(4) by (auto simp: c)
    have skip: "add_skip (done @ ends n bs) n (length done) = (?done @ ends ?n bs', ?n, length ?done)"
      using add_skip_first [OF first(2), of "done" n y ys bs'] first(1) by simp
    have p: "placed ?m (Suc n) ys" "placed ?m ?n (concat bs')"
      using less.prems(3-5) nat_notin_image [of m "ys @ concat bs'" x] x
      by (auto simp: c intro!: placed_set_index)
    have step: "add_place m (pre @ concat bs @ [- 1]) (done @ ends n bs) x n (length done) =
      (if bs' = [] then (set_index ?m (nat y) ?n, pre @ x # ys @ [y], ?done)
       else add_place ?m (?pre @ concat bs' @ [- 1]) (?done @ ends ?n bs') y ?n (length ?done))"
      using less.prems(2) y(1) skip
      by (simp add: add_place_def add_loop.simps [of m] c list_update_append nth_append)
    have "\<exists>m'. add_place m (pre @ concat bs @ [- 1]) (done @ ends n bs) x n (length done) =
        (m', ?pre @ y # concat (map rotate1 bs'), ?done @ map Suc (ends ?n bs'))
      \<and> reindexed (nat ` set (y # concat bs')) ?m m' \<and> placed m' ?n (y # concat (map rotate1 bs'))"
    proof (cases "bs' = []")
      case True
      with y x show ?thesis by (auto simp: step reindexed_set_index set_index_nth)
    next
      case False
      have *: "length bs' < length bs" "length ?pre = ?n" "distinct (y # concat bs')"
        "ids ?m (y # concat bs')"
        using less.prems(2-4) by (auto simp: c first(1) ids_cong [of ?m m])
      have "placed ?m (Suc ?n) (tl (concat bs'))"
        using p(2) by (cases "concat bs'") auto
      from less.hyps [OF *(1) False *(2-4) this] show ?thesis
        unfolding step if_not_P [OF False] .
    qed
    then obtain m' where m': "add_place m (pre @ concat bs @ [- 1]) (done @ ends n bs) x n (length done) =
        (m', ?pre @ y # concat (map rotate1 bs'), ?done @ map Suc (ends ?n bs'))"
      "reindexed (nat ` set (y # concat bs')) ?m m'" "placed m' ?n (y # concat (map rotate1 bs'))"
      by blast
    have "placed ?m n (x # ys)" using p(1) x by (simp add: set_index_nth)
    moreover have "nat ` set (x # ys) \<inter> nat ` set (y # concat bs') = {}"
      using less.prems(3,4) by (intro nat_image_disjoint [of m]) (auto simp: c)
    ultimately have "placed m' n (x # ys)" by (rule placed_reindexed [OF m'(2)])
    moreover have "reindexed (nat ` set (x # concat bs)) m m'"
      using reindexed_set_index [of "nat x" "{nat x}" m n] m'(2) by (rule reindexed_trans) (auto simp: c)
    ultimately show ?thesis using m'(1,3) by (auto simp: c e)
  qed
qed

lemma remove_loop_correct:
  assumes "bs \<noteq> []" "length pre = n" "distinct (concat bs)" "placed m (Suc n) (concat bs)"
  shows "\<exists>m' pieces'. remove_loop m (pre @ x # concat bs) (done @ ends (Suc n) bs) n n (length done) =
      (m', pieces', done @ ends n bs) \<and> butlast pieces' = pre @ concat (map rotr bs)
    \<and> reindexed (nat ` set (concat bs)) m m' \<and> placed m' n (concat (map rotr bs))"
  using assms
proof (induction "length bs" arbitrary: bs pre n x m "done" rule: less_induct)
  case less
  consider (empty) "\<forall>b \<in> set bs. b = []"
    | (first) es y ys bs' where "bs = es @ (y # ys) # bs'" "\<forall>b \<in> set es. b = []"
    by (rule buckets_cases)
  then show ?case
  proof cases
    case empty
    have "concat (map rotr bs) = []" using empty by auto
    with empty less.prems(1,2) show ?thesis
      by (auto simp: remove_loop.simps remove_skip_empty)
  next
    case first
    obtain zs w where w: "y # ys = zs @ [w]" by (cases "y # ys" rule: rev_cases) auto
    have len: "length zs = length ys" using arg_cong [OF w, of length] by simp
    let ?n = "n + Suc (length ys)" and ?done = "done @ ends n (es @ [zs @ [w]])"
    let ?pre = "pre @ w # zs" and ?m = "set_index m (nat w) n"
    have c: "concat bs = zs @ w # concat bs'" "concat (map rotr bs) = w # zs @ concat (map rotr bs')"
      using first by (auto simp: w)
    have e: "ends n bs = ends n (es @ [zs @ [w]]) @ ends ?n bs'"
      using first by (simp add: ends_append w len)
    have wm: "0 \<le> w" "nat w < length m" using less.prems(4) by (auto simp: c)
    have skip: "remove_skip (done @ ends (Suc n) bs) n (length done) =
        (?done @ ends (Suc ?n) bs', ?n, length ?done)"
      using remove_skip_first [OF first(2), of "done" n y ys bs'] first(1) by (simp add: w)
    have step: "remove_loop m (pre @ x # concat bs) (done @ ends (Suc n) bs) n n (length done) =
      (if bs' = [] then (?m, ?pre @ [w], ?done)
       else remove_loop ?m (?pre @ w # concat bs') (?done @ ends (Suc ?n) bs') ?n ?n (length ?done))"
      using less.prems(2) skip
      by (simp add: remove_loop.simps [of m] c list_update_append nth_append len)
    have ids: "ids m (concat bs)" using less.prems(4) by (rule placed_ids)
    have p: "placed ?m n (w # zs)" "placed ?m (Suc ?n) (concat bs')"
      using less.prems(3,4) nat_notin_image [of m "zs @ concat bs'" w] wm ids
      by (auto simp: c len set_index_nth intro!: placed_set_index)
    have "\<exists>m' pieces'. remove_loop m (pre @ x # concat bs) (done @ ends (Suc n) bs) n n (length done) =
        (m', pieces', ?done @ ends ?n bs') \<and> butlast pieces' = ?pre @ concat (map rotr bs')
      \<and> reindexed (nat ` set (concat bs')) ?m m' \<and> placed m' ?n (concat (map rotr bs'))"
    proof (cases "bs' = []")
      case True
      then show ?thesis by (auto simp: step butlast_append)
    next
      case False
      have *: "length bs' < length bs" "length ?pre = ?n" "distinct (concat bs')"
        using less.prems(2,3) by (auto simp: c first(1) len)
      from less.hyps [OF *(1) False *(2,3) p(2)] show ?thesis
        unfolding step if_not_P [OF False] .
    qed
    then obtain m' pieces' where
      m': "remove_loop m (pre @ x # concat bs) (done @ ends (Suc n) bs) n n (length done) =
        (m', pieces', ?done @ ends ?n bs')" "butlast pieces' = ?pre @ concat (map rotr bs')"
      "reindexed (nat ` set (concat bs')) ?m m'" "placed m' ?n (concat (map rotr bs'))"
      by blast
    have "nat ` set (w # zs) \<inter> nat ` set (concat bs') = {}"
      using less.prems(3) ids by (intro nat_image_disjoint [of m]) (auto simp: c)
    then have "placed m' n (w # zs)" by (rule placed_reindexed [OF m'(3) p(1)])
    moreover have "reindexed (nat ` set (concat bs)) m m'"
      using reindexed_set_index [of "nat w" "{nat w}" m n] m'(3) by (rule reindexed_trans) (auto simp: c)
    ultimately show ?thesis using m' by (auto simp: c e len)
  qed
qed

text \<open>The start positions of the buckets, the boundaries that \<open>update\<close> moves on its way up.\<close>

fun starts :: "nat \<Rightarrow> 'a list list \<Rightarrow> nat list" where
  "starts n [] = []"
| "starts n (b # bs) = n # starts (n + length b) bs"

lemma length_starts [simp]: "length (starts n bs) = length bs"
  by (induction bs arbitrary: n) auto

lemma starts_append: "starts n (as @ bs) = starts n as @ starts (n + length (concat as)) bs"
  by (induction as arbitrary: n) (auto simp: add.assoc)

lemma ends_starts: "n # ends n bs = starts n bs @ [n + length (concat bs)]"
  by (induction bs arbitrary: n) (auto simp: add.assoc)

lemma update_up_correct:
  assumes "length pre = n" "distinct (concat bs)" "placed m n (concat bs)" "h \<notin> set (concat bs)"
  shows "\<exists>m' h'. update_up (length bs) m (pre @ concat bs @ h # post) (done @ starts n bs @ tail)
        (n + length (concat bs)) h (length done + length bs) =
      (m', pre @ h' # concat (map rotate1 bs) @ post, done @ map Suc (starts n bs) @ tail, n)
    \<and> reindexed (nat ` set (concat bs)) m m' \<and> placed m' (Suc n) (concat (map rotate1 bs))"
  using assms
proof (induction bs arbitrary: m h post tail rule: rev_induct)
  case Nil
  then show ?case by (auto simp: update_up.simps)
next
  case (snoc b bs)
  let ?k = "n + length (concat bs)"
  have nth: "(done @ starts n bs @ ?k # tail) ! (length done + length bs) = ?k"
    by (simp add: nth_append)
  have upd: "(done @ starts n bs @ ?k # tail)[length done + length bs := Suc ?k] =
      done @ starts n bs @ Suc ?k # tail"
    by (simp add: list_update_append)
  show ?case
  proof (cases b)
    case Nil
    have "\<exists>m' h'. update_up (length bs) m (pre @ concat bs @ h # post) (done @ starts n bs @ Suc ?k # tail)
        ?k h (length done + length bs) =
      (m', pre @ h' # concat (map rotate1 bs) @ post, done @ map Suc (starts n bs) @ Suc ?k # tail, n)
      \<and> reindexed (nat ` set (concat bs)) m m' \<and> placed m' (Suc n) (concat (map rotate1 bs))"
      using snoc.prems by (intro snoc.IH) auto
    moreover have "(pre @ concat bs @ h # post) ! ?k = h" using snoc.prems(1) by (simp add: nth_append)
    ultimately show ?thesis using nth upd by (simp add: Nil starts_append Let_def)
  next
    case (Cons y ys)
    let ?m = "set_index m (nat y) (?k + Suc (length ys))"
    have ids: "ids m (concat (bs @ [b]))" using snoc.prems(3) by (rule placed_ids)
    then have y: "0 \<le> y" "nat y < length m" by (auto simp: Cons)
    have p: "placed ?m n (concat bs)" "placed ?m (Suc ?k) (ys @ [y])"
      using snoc.prems(2,3) nat_notin_image [of m "concat bs @ ys" y] ids y
      by (auto simp: Cons set_index_nth intro!: placed_set_index)
    have "\<exists>m' h'. update_up (length bs) ?m (pre @ concat bs @ y # (ys @ [y]) @ post)
        (done @ starts n bs @ Suc ?k # tail) ?k y (length done + length bs) =
      (m', pre @ h' # concat (map rotate1 bs) @ (ys @ [y]) @ post,
       done @ map Suc (starts n bs) @ Suc ?k # tail, n)
      \<and> reindexed (nat ` set (concat bs)) ?m m' \<and> placed m' (Suc n) (concat (map rotate1 bs))"
      using snoc.prems(1,2) p(1) by (intro snoc.IH) (auto simp: Cons)
    then obtain m' h' where m': "update_up (length bs) ?m (pre @ concat bs @ y # (ys @ [y]) @ post)
        (done @ starts n bs @ Suc ?k # tail) ?k y (length done + length bs) =
      (m', pre @ h' # concat (map rotate1 bs) @ (ys @ [y]) @ post,
       done @ map Suc (starts n bs) @ Suc ?k # tail, n)"
      "reindexed (nat ` set (concat bs)) ?m m'" "placed m' (Suc n) (concat (map rotate1 bs))"
      by blast
    have "nat ` set (ys @ [y]) \<inter> nat ` set (concat bs) = {}"
      using snoc.prems(2) ids by (intro nat_image_disjoint [of m]) (auto simp: Cons)
    then have "placed m' (Suc ?k) (ys @ [y])" by (rule placed_reindexed [OF m'(2) p(2)])
    moreover have "reindexed (nat ` set (concat (bs @ [b]))) m m'"
      using reindexed_set_index [of "nat y" "{nat y}" m] m'(2) by (rule reindexed_trans) (auto simp: Cons)
    moreover have "(pre @ concat bs @ y # ys @ h # post) ! ?k = y"
      and "(pre @ concat bs @ y # ys @ h # post)[?k + Suc (length ys) := y] =
        pre @ concat bs @ y # (ys @ [y]) @ post"
      using snoc.prems(1) by (simp_all add: nth_append list_update_append)
    moreover have "h \<noteq> y" using snoc.prems(4) by (auto simp: Cons)
    ultimately show ?thesis using m'(1,3) nth upd by (simp add: Cons starts_append Let_def add.assoc)
  qed
qed

lemma update_down_correct:
  assumes "length pre = n" "distinct (concat bs)" "placed m (Suc n) (concat bs)" "h \<notin> set (concat bs)"
  shows "\<exists>m' h'. update_down (length bs) m (pre @ h # concat bs @ post) (done @ ends (Suc n) bs @ tail)
        n h (length done) =
      (m', pre @ concat (map rotr bs) @ h' # post, done @ ends n bs @ tail, n + length (concat bs))
    \<and> reindexed (nat ` set (concat bs)) m m' \<and> placed m' n (concat (map rotr bs))"
  using assms
proof (induction bs arbitrary: m h pre n "done")
  case Nil
  then show ?case by (auto simp: update_down.simps)
next
  case (Cons b bs)
  let ?k = "n + length b"
  have nth: "(done @ Suc ?k # ends (Suc ?k) bs @ tail) ! length done = Suc ?k"
    by (simp add: nth_append)
  show ?case
  proof (cases b rule: rev_cases)
    case Nil
    have "\<exists>m' h'. update_down (length bs) m (pre @ h # concat bs @ post) ((done @ [n]) @ ends (Suc n) bs @ tail)
        n h (length (done @ [n])) =
      (m', pre @ concat (map rotr bs) @ h' # post, (done @ [n]) @ ends n bs @ tail, n + length (concat bs))
      \<and> reindexed (nat ` set (concat bs)) m m' \<and> placed m' n (concat (map rotr bs))"
      using Cons.prems Nil by (intro Cons.IH) auto
    then show ?thesis using nth Cons.prems(1) by (simp add: Nil Let_def nth_append)
  next
    case (snoc ys y)
    let ?m = "set_index m (nat y) n" and ?pre = "pre @ y # ys"
    have ids: "ids m (concat (b # bs))" using Cons.prems(3) by (rule placed_ids)
    then have y: "0 \<le> y" "nat y < length m" by (auto simp: snoc)
    have p: "placed ?m (Suc ?k) (concat bs)" "placed ?m n (y # ys)"
      using Cons.prems(2,3) nat_notin_image [of m "concat bs @ ys" y] ids y
      by (auto simp: snoc set_index_nth intro!: placed_set_index)
    have "\<exists>m' h'. update_down (length bs) ?m (?pre @ y # concat bs @ post)
        ((done @ [?k]) @ ends (Suc ?k) bs @ tail) ?k y (length (done @ [?k])) =
      (m', ?pre @ concat (map rotr bs) @ h' # post, (done @ [?k]) @ ends ?k bs @ tail, ?k + length (concat bs))
      \<and> reindexed (nat ` set (concat bs)) ?m m' \<and> placed m' ?k (concat (map rotr bs))"
      using Cons.prems(1,2) p(1) by (intro Cons.IH) (auto simp: snoc)
    then obtain m' h' where m': "update_down (length bs) ?m (?pre @ y # concat bs @ post)
        ((done @ [?k]) @ ends (Suc ?k) bs @ tail) ?k y (length (done @ [?k])) =
      (m', ?pre @ concat (map rotr bs) @ h' # post, (done @ [?k]) @ ends ?k bs @ tail, ?k + length (concat bs))"
      "reindexed (nat ` set (concat bs)) ?m m'" "placed m' ?k (concat (map rotr bs))"
      by blast
    have "nat ` set (y # ys) \<inter> nat ` set (concat bs) = {}"
      using Cons.prems(2) ids by (intro nat_image_disjoint [of m]) (auto simp: snoc)
    then have "placed m' n (y # ys)" by (rule placed_reindexed [OF m'(2) p(2)])
    moreover have "reindexed (nat ` set (concat (b # bs))) m m'"
      using reindexed_set_index [of "nat y" "{nat y}" m] m'(2) by (rule reindexed_trans) (auto simp: snoc)
    moreover have "(pre @ h # ys @ y # concat bs @ post) ! ?k = y"
      and "(pre @ h # ys @ y # concat bs @ post)[n := y] = ?pre @ y # concat bs @ post"
      using Cons.prems(1) by (simp_all add: nth_append list_update_append snoc)
    moreover have "h \<noteq> y" using Cons.prems(4) by (auto simp: snoc)
    ultimately show ?thesis using m'(1,3) nth by (simp add: snoc Let_def add.assoc)
  qed
qed

section \<open>The queue represents a priority assignment\<close>

text \<open>
  The abstract view of the queue: a function from pieces to priorities, \<open>- 1\<close> for a piece that
  is not queued. The concrete queue represents it when its buckets hold exactly the pieces of
  each priority and every queued piece knows its position.
\<close>

fun bucketed :: "(nat \<Rightarrow> int) \<Rightarrow> nat \<Rightarrow> int list list \<Rightarrow> bool" where
  "bucketed pr n [] \<longleftrightarrow> True"
| "bucketed pr n (b # bs) \<longleftrightarrow> (\<forall>x \<in> set b. pr (nat x) = int n) \<and> bucketed pr (Suc n) bs"

definition bucket_rep ::
  "(nat \<Rightarrow> int) \<Rightarrow> piece_pos list \<Rightarrow> int list \<Rightarrow> nat list \<Rightarrow> int list list \<Rightarrow> bool" where
  "bucket_rep pr pmap pieces bnd bs \<longleftrightarrow>
     bs \<noteq> [] \<and> pieces = concat bs \<and> bnd = ends 0 bs \<and> distinct pieces \<and> placed pmap 0 pieces
     \<and> bucketed pr 0 bs \<and> (\<forall>i < length pmap. pr i \<noteq> - 1 \<longrightarrow> int i \<in> set pieces)"

definition queue_rep :: "(nat \<Rightarrow> int) \<Rightarrow> piece_picker \<Rightarrow> bool" where
  "queue_rep pr s \<longleftrightarrow>
     (\<exists>bs. bucket_rep pr (m_piece_map s) (m_pieces s) (m_priority_boundries s) bs)"

lemma bucket_repD:
  assumes "bucket_rep pr pmap pieces bnd bs"
  shows "bs \<noteq> []" "pieces = concat bs" "bnd = ends 0 bs" "distinct pieces" "placed pmap 0 pieces"
    "bucketed pr 0 bs" "\<And>i. i < length pmap \<Longrightarrow> pr i \<noteq> - 1 \<Longrightarrow> int i \<in> set pieces"
  using assms unfolding bucket_rep_def by blast+

lemma bucketed_append [simp]:
  "bucketed pr n (as @ bs) \<longleftrightarrow> bucketed pr n as \<and> bucketed pr (n + length as) bs"
  by (induction as arbitrary: n) auto

lemma bucketed_map [simp]:
  "(\<And>b. set (f b) = set b) \<Longrightarrow> bucketed pr n (map f bs) \<longleftrightarrow> bucketed pr n bs"
  by (induction bs arbitrary: n) auto

lemma bucketed_empty [simp]: "bucketed pr n (replicate k [])"
  by (induction k arbitrary: n) auto

lemma bucketed_fresh:
  "bucketed pr n bs \<Longrightarrow> i \<notin> nat ` set (concat bs) \<Longrightarrow> bucketed (pr(i := v)) n bs"
  by (induction bs arbitrary: n) auto

lemma bucketed_queued: "bucketed pr n bs \<Longrightarrow> x \<in> set (concat bs) \<Longrightarrow> pr (nat x) \<ge> int n"
  by (induction bs arbitrary: n) fastforce+

lemma ends_replicate: "ends n (replicate k []) = replicate k n"
  by (induction k) auto

lemma bucket_rep_resize:
  assumes "bucket_rep pr pmap pieces bnd bs" "length bnd \<le> p"
  shows "bucket_rep pr pmap pieces (resize (p + 1) (length pieces) bnd)
    (bs @ replicate (p + 1 - length bs) [])"
  using assms by (auto simp: bucket_rep_def resize_def ends_append ends_replicate)

lemma bucket_split:
  assumes "p < length bs"
  obtains as b cs where "bs = as @ b # cs" "length as = p"
  using assms id_take_nth_drop [of p bs] that [of "take p bs" "bs ! p" "drop (Suc p) bs"] by simp

lemma range_start_eq:
  "bs = as @ b # cs \<Longrightarrow> (if length as = 0 then 0 else ends 0 bs ! (length as - 1)) = length (concat as)"
  by (cases as rule: rev_cases) (auto simp: ends_nth)

lemma priority_range_eq:
  "bs = as @ b # cs \<Longrightarrow> priority_range (length as) (ends 0 bs) =
   (length (concat as), length (concat as) + length b)"
  using range_start_eq [of bs as b cs] by (simp add: priority_range_def ends_nth)

lemma ids_nat_image_mem: "ids m xs \<Longrightarrow> i \<in> nat ` set xs \<longleftrightarrow> int i \<in> set xs"
  by (force simp: ids_def image_iff)

lemma placed_tl: "placed m n xs \<Longrightarrow> placed m (Suc n) (tl xs)"
  by (cases xs) auto

lemma add_rep:
  assumes rep: "bucket_rep pr m (concat as @ b @ concat cs) bnd (as @ b # cs)"
    and i: "i < length m" "pr i = - 1" and k: "k \<le> length b"
  obtains m' bnd' where
    "add_place m ((concat as @ b @ concat cs) @ [- 1]) bnd (int i) (length (concat as) + k) (length as) =
      (m', concat as @ take k b @ int i # rotate1 (drop k b) @ concat (map rotate1 cs), bnd')"
    "bucket_rep (pr(i := int (length as))) m'
      (concat as @ take k b @ int i # rotate1 (drop k b) @ concat (map rotate1 cs)) bnd'
      (as @ (take k b @ int i # rotate1 (drop k b)) # map rotate1 cs)"
    "reindexed (nat ` set (concat (as @ (take k b @ int i # rotate1 (drop k b)) # map rotate1 cs))) m m'"
proof -
  note r = bucket_repD [OF rep]
  let ?n = "length (concat as) + k" and ?bs = "drop k b # cs" and ?pre = "concat as @ take k b"
  let ?nbs = "as @ (take k b @ int i # rotate1 (drop k b)) # map rotate1 cs"
  have ids: "ids m (concat as @ b @ concat cs)" using r(5) by (rule placed_ids)
  have b: "take k b @ drop k b = b" by simp
  have pieces: "(concat as @ b @ concat cs) @ [- 1] = ?pre @ concat ?bs @ [- 1]"
    by (subst b [symmetric]) simp
  have bnd: "bnd = ends 0 as @ ends ?n ?bs" using k by (simp add: r(3) ends_append)
  have fresh: "int i \<notin> set (concat as @ b @ concat cs)"
    using bucketed_queued [OF r(6), of "int i"] i(2) by auto
  have all: "concat as @ b @ concat cs = ?pre @ concat ?bs" by (subst b [symmetric]) simp
  have placed: "placed m 0 ?pre" "placed m ?n (concat ?bs)"
    using r(5) k unfolding all placed_append by (simp_all add: min_absorb2)
  have "\<exists>m'. add_place m (?pre @ concat ?bs @ [- 1]) (ends 0 as @ ends ?n ?bs) (int i) ?n (length (ends 0 as)) =
      (m', ?pre @ int i # concat (map rotate1 ?bs), ends 0 as @ map Suc (ends ?n ?bs))
    \<and> reindexed (nat ` set (int i # concat ?bs)) m m' \<and> placed m' ?n (int i # concat (map rotate1 ?bs))"
  proof (rule add_place_correct)
    show "distinct (int i # concat ?bs)" using r(4) fresh unfolding all by simp
  qed (use k i(1) placed placed_ids [OF placed(2)] placed_tl in auto)
  then obtain m' where m': "add_place m (?pre @ concat ?bs @ [- 1]) (ends 0 as @ ends ?n ?bs) (int i) ?n (length (ends 0 as)) =
      (m', ?pre @ int i # concat (map rotate1 ?bs), ends 0 as @ map Suc (ends ?n ?bs))"
    "reindexed (nat ` set (int i # concat ?bs)) m m'" "placed m' ?n (int i # concat (map rotate1 ?bs))"
    by blast
  have bnd': "ends 0 as @ map Suc (ends ?n ?bs) = ends 0 ?nbs"
    using k by (simp add: ends_append ends_Suc [symmetric])
  have pieces': "concat ?nbs = ?pre @ int i # concat (map rotate1 ?bs)" by simp
  have "nat ` set ?pre \<inter> nat ` set (int i # concat ?bs) = {}"
    using r(4) ids fresh i(1) unfolding all by (intro nat_image_disjoint [of m]) auto
  then have pre: "placed m' 0 ?pre" by (rule placed_reindexed [OF m'(2) placed(1)])
  have mset: "mset (concat ?nbs) = mset (int i # concat as @ b @ concat cs)"
    unfolding all pieces' by simp
  have "bucket_rep (pr(i := int (length as))) m' (concat ?nbs) (ends 0 ?nbs) ?nbs"
    unfolding bucket_rep_def
  proof (intro conjI)
    show "distinct (concat ?nbs)" using mset_eq_imp_distinct_iff [OF mset] r(4) fresh by simp
    show "placed m' 0 (concat ?nbs)" unfolding pieces' placed_append using pre m'(3) k by (simp add: min_absorb2)
    have not: "i \<notin> nat ` set (concat as @ b @ concat cs)" using ids_nat_image_mem [OF ids] fresh by simp
    have "set (take k b @ int i # rotate1 (drop k b)) = insert (int i) (set b)"
      by (subst (3) b [symmetric]) (simp del: append_take_drop_id)
    moreover have "bucketed (pr(i := int (length as))) 0 as"
        "bucketed (pr(i := int (length as))) (Suc (length as)) cs"
      using not r(6) by (auto intro!: bucketed_fresh simp del: set_concat)
    ultimately show "bucketed (pr(i := int (length as))) 0 ?nbs"
      using r(6) by (simp del: set_append)
    show "\<forall>j < length m'. (pr(i := int (length as))) j \<noteq> - 1 \<longrightarrow> int j \<in> set (concat ?nbs)"
      unfolding mset_eq_setD [OF mset] using r(7) reindexed_length [OF m'(2)] by simp
  qed (simp_all)
  moreover have "reindexed (nat ` set (concat ?nbs)) m m'"
    using m'(2) reindexed_refl by (rule reindexed_trans) (auto simp: pieces')
  ultimately show thesis using that [of m' "ends 0 ?nbs"] m'(1) bnd' unfolding pieces bnd
    by (simp add: pieces')
qed

text \<open>
  Before a piece leaves its level its own record has changed; the other records have not.
\<close>

definition agree_except :: "nat \<Rightarrow> piece_pos list \<Rightarrow> piece_pos list \<Rightarrow> bool" where
  "agree_except i m m' \<longleftrightarrow> length m' = length m \<and> (\<forall>q < length m. q \<noteq> i \<longrightarrow> m' ! q = m ! q)"

lemma placed_except:
  "agree_except i m m' \<Longrightarrow> placed m n xs \<Longrightarrow> i \<notin> nat ` set xs \<Longrightarrow> placed m' n xs"
  by (induction xs arbitrary: n) (auto simp: agree_except_def)

lemma placed_distinct_nat:
  assumes "placed m n xs" "distinct xs"
  shows "distinct (map nat xs)"
  using assms placed_ids [OF assms(1)] by (auto simp: distinct_map ids_def inj_on_def eq_nat_nat_iff)

lemma distinct_map_mid:
  assumes "distinct (map f (xs @ x # ys))"
  shows "f ` set xs \<inter> f ` set ys = {}" "f x \<notin> f ` set (xs @ ys)"
  using assms by auto

lemma distinct_map_parts:
  assumes "distinct (map f (xs @ ys @ x # zs))"
  shows "f ` set xs \<inter> f ` set ys = {}" "f ` set zs \<inter> f ` set ys = {}"
    "f x \<notin> f ` set xs" "f x \<notin> f ` set ys" "f x \<notin> f ` set zs"
  using assms by auto

lemma placed_parts:
  assumes "placed m n (xs @ ys @ x # zs)"
  shows "placed m n xs" "placed m (n + length xs) ys" "placed m (Suc (n + length xs) + length ys) zs"
  using assms by simp_all

lemma remove_rep:
  assumes rep: "bucket_rep pr m0 pieces bnd (as @ (b @ x # c) # cs)"
    and m: "agree_except (nat x) m0 m"
  obtains m' pieces' bnd' where
    "remove_loop m pieces bnd (length (concat as @ b)) (length (concat as @ b)) (length as) =
      (m', pieces', bnd')"
    "bucket_rep (pr(nat x := - 1)) m' (butlast pieces') bnd' (as @ (b @ rotr c) # map rotr cs)"
    "reindexed (nat ` set (butlast pieces')) m m'" "m' ! nat x = m ! nat x"
proof -
  note r = bucket_repD [OF rep]
  let ?n = "length (concat as @ b)" and ?pre = "concat as @ b" and ?bs = "c # cs"
  let ?nbs = "as @ (b @ rotr c) # map rotr cs"
  have all: "pieces = ?pre @ x # concat ?bs" by (simp add: r(2))
  have bnd: "bnd = ends 0 as @ ends (Suc ?n) ?bs" by (simp add: r(3) ends_append add.assoc)
  have dn: "distinct (map nat (?pre @ x # concat ?bs))"
    using placed_distinct_nat [OF r(5,4)] unfolding all .
  have ids: "ids m0 pieces" using r(5) by (rule placed_ids)
  then have x: "0 \<le> x" "nat x < length m" using m by (auto simp: all agree_except_def)
  have notx: "nat x \<notin> nat ` set (?pre @ concat ?bs)" using dn by (rule distinct_map_mid)
  have placed: "placed m 0 ?pre" "placed m (Suc ?n) (concat ?bs)"
    using r(5) notx unfolding all placed_append by (auto intro: placed_except [OF m])
  have "\<exists>m' pieces'. remove_loop m (?pre @ x # concat ?bs) (ends 0 as @ ends (Suc ?n) ?bs) ?n ?n
      (length (ends 0 as)) = (m', pieces', ends 0 as @ ends ?n ?bs) \<and> butlast pieces' = ?pre @ concat (map rotr ?bs)
    \<and> reindexed (nat ` set (concat ?bs)) m m' \<and> placed m' ?n (concat (map rotr ?bs))"
    using r(4) placed(2) by (intro remove_loop_correct) (auto simp: all)
  then obtain m' pieces' where m': "remove_loop m (?pre @ x # concat ?bs) (ends 0 as @ ends (Suc ?n) ?bs) ?n ?n
      (length (ends 0 as)) = (m', pieces', ends 0 as @ ends ?n ?bs)" "butlast pieces' = ?pre @ concat (map rotr ?bs)"
    "reindexed (nat ` set (concat ?bs)) m m'" "placed m' ?n (concat (map rotr ?bs))"
    by blast
  have "nat ` set ?pre \<inter> nat ` set (concat ?bs) = {}" using dn by (rule distinct_map_mid)
  then have pre: "placed m' 0 ?pre" by (rule placed_reindexed [OF m'(3) placed(1)])
  have pieces': "concat ?nbs = butlast pieces'" by (simp add: m'(2))
  have set: "set (concat ?nbs) = set (?pre @ concat ?bs)" by auto
  have "bucket_rep (pr(nat x := - 1)) m' (butlast pieces') (ends 0 as @ ends ?n ?bs) ?nbs"
    unfolding bucket_rep_def
  proof (intro conjI)
    have "mset (butlast pieces') = mset (?pre @ concat ?bs)" by (simp add: m'(2))
    then have "distinct (butlast pieces') = distinct (?pre @ concat ?bs)" by (rule mset_eq_imp_distinct_iff)
    then show "distinct (butlast pieces')" using r(4) by (simp add: all)
    show "placed m' 0 (butlast pieces')" unfolding m'(2) placed_append using pre m'(4) by simp
    show "bucketed (pr(nat x := - 1)) 0 ?nbs"
    proof (rule bucketed_fresh)
      show "nat x \<notin> nat ` set (concat ?nbs)" using notx unfolding set .
    qed (use r(6) in auto)
    show "\<forall>j < length m'. (pr(nat x := - 1)) j \<noteq> - 1 \<longrightarrow> int j \<in> set (butlast pieces')"
    proof (intro allI impI)
      fix j assume "j < length m'" "(pr(nat x := - 1)) j \<noteq> - 1"
      then have "j \<noteq> nat x" "int j \<in> set pieces"
        using r(7) [of j] reindexed_length [OF m'(3)] m by (auto simp: agree_except_def split: if_splits)
      then show "int j \<in> set (butlast pieces')" unfolding pieces' [symmetric] set all by auto
    qed
  qed (simp_all add: pieces' [symmetric] ends_append add.assoc)
  moreover have "reindexed (nat ` set (butlast pieces')) m m'"
    using m'(3) reindexed_refl by (rule reindexed_trans) (auto simp: m'(2))
  moreover have "m' ! nat x = m ! nat x"
    using m'(3) notx x(2) unfolding set_append image_Un by (intro reindexed_other) blast+
  ultimately show thesis using that m'(1) unfolding all bnd by simp
qed

lemma bucket_rep_move:
  assumes rep: "bucket_rep pr m0 pieces bnd bs" and "nbs \<noteq> []"
    and mset: "mset (concat nbs) = mset (concat bs)" and "placed m' 0 (concat nbs)"
    and "bucketed (pr(i := v)) 0 nbs" "length m' = length m0" "int i \<in> set pieces"
  shows "bucket_rep (pr(i := v)) m' (concat nbs) (ends 0 nbs) nbs"
proof -
  note r = bucket_repD [OF rep]
  have "distinct (concat nbs)" using mset_eq_imp_distinct_iff [OF mset] r(2,4) by simp
  moreover have "set (concat nbs) = set pieces" using mset_eq_setD [OF mset] r(2) by simp
  ultimately show ?thesis using assms(2,4-7) r(7) by (auto simp: bucket_rep_def simp del: set_concat)
qed

lemma update_up_rep:
  assumes rep: "bucket_rep pr m0 pieces bnd (as @ b # mid @ (c @ x # d) # cs)"
    and m: "agree_except (nat x) m0 m"
  obtains m' pieces' bnd' n where
    "update_up (Suc (length mid)) m pieces bnd (length (concat (as @ b # mid) @ c)) x
      (length as + Suc (length mid)) = (m', pieces', bnd', n)"
    "bucket_rep (pr(nat x := int (length as))) (set_index m' (nat x) n) (pieces'[n := x]) bnd'
      (as @ (b @ [x]) # map rotate1 mid @ (rotate1 c @ d) # cs)"
    "reindexed (nat ` set (pieces'[n := x])) m (set_index m' (nat x) n)"
    "n = length (concat as @ b)"
proof -
  note r = bucket_repD [OF rep]
  let ?n = "length (concat as @ b)" and ?pre = "concat as @ b" and ?bs = "mid @ [c]"
  let ?nbs = "as @ (b @ [x]) # map rotate1 mid @ (rotate1 c @ d) # cs" and ?post = "d @ concat cs"
  let ?tail = "ends (?n + length (concat mid)) ((c @ x # d) # cs)"
  have all: "pieces = ?pre @ concat ?bs @ x # ?post" by (simp add: r(2))
  have st: "starts ?n ?bs = ?n # ends ?n mid" by (simp add: ends_starts starts_append)
  have bnd: "bnd = ends 0 as @ starts ?n ?bs @ ?tail"
    unfolding st by (simp add: r(3) ends_append add.assoc)
  have "distinct (map nat (?pre @ concat ?bs @ x # ?post))"
    using placed_distinct_nat [OF r(5,4)] unfolding all .
  note dn = distinct_map_parts [OF this] and pl = placed_parts [OF r(5) [unfolded all]]
  have "ids m0 pieces" using r(5) by (rule placed_ids)
  then have x: "0 \<le> x" "nat x < length m" using m by (auto simp: all agree_except_def)
  have placed: "placed m 0 ?pre" "placed m ?n (concat ?bs)" "placed m (Suc ?n + length (concat ?bs)) ?post"
    using placed_except [OF m pl(1) dn(3)] placed_except [OF m pl(2) dn(4)]
      placed_except [OF m pl(3) dn(5)] by simp_all
  have "\<exists>m' h'. update_up (length ?bs) m (?pre @ concat ?bs @ x # ?post) (ends 0 as @ starts ?n ?bs @ ?tail)
        (?n + length (concat ?bs)) x (length (ends 0 as) + length ?bs) =
      (m', ?pre @ h' # concat (map rotate1 ?bs) @ ?post, ends 0 as @ map Suc (starts ?n ?bs) @ ?tail, ?n)
    \<and> reindexed (nat ` set (concat ?bs)) m m' \<and> placed m' (Suc ?n) (concat (map rotate1 ?bs))"
    using r(4) placed(2) by (intro update_up_correct) (auto simp: all)
  then obtain m' h' where m': "update_up (length ?bs) m (?pre @ concat ?bs @ x # ?post) (ends 0 as @ starts ?n ?bs @ ?tail)
        (?n + length (concat ?bs)) x (length (ends 0 as) + length ?bs) =
      (m', ?pre @ h' # concat (map rotate1 ?bs) @ ?post, ends 0 as @ map Suc (starts ?n ?bs) @ ?tail, ?n)"
    "reindexed (nat ` set (concat ?bs)) m m'" "placed m' (Suc ?n) (concat (map rotate1 ?bs))"
    by blast
  let ?m' = "set_index m' (nat x) ?n"
  have len': "length m' = length m" using m'(2) by (rule reindexed_length)
  have "placed m' 0 ?pre" "placed m' (Suc ?n + length (concat ?bs)) ?post"
    using placed_reindexed [OF m'(2) placed(1) dn(1)] placed_reindexed [OF m'(2) placed(3) dn(2)] .
  then have "placed ?m' 0 ?pre" "placed ?m' (Suc ?n) (concat (map rotate1 ?bs))"
    "placed ?m' (Suc ?n + length (concat ?bs)) ?post"
    using m'(3) dn(3-5) by (simp_all only: placed_set_index set_concat_rotate not_False_eq_True)
  then have "placed ?m' 0 (concat ?nbs)" using x len' by (simp add: set_index_nth add.assoc)
  have rep': "bucket_rep (pr(nat x := int (length as))) ?m' (concat ?nbs) (ends 0 ?nbs) ?nbs"
  proof (rule bucket_rep_move [OF rep])
    have "bucketed (pr(nat x := int (length as))) 0 (as @ b # mid @ (c @ d) # cs)"
    proof (rule bucketed_fresh)
      show "nat x \<notin> nat ` set (concat (as @ b # mid @ (c @ d) # cs))"
        using dn(3-5) by (simp add: image_Un del: set_concat)
    qed (use r(6) in auto)
    then show "bucketed (pr(nat x := int (length as))) 0 ?nbs" by auto
  qed (use x m len' \<open>placed ?m' 0 (concat ?nbs)\<close> in \<open>simp_all add: all agree_except_def\<close>)
  have "ends 0 as @ map Suc (starts ?n ?bs) @ ?tail = ends 0 ?nbs"
    unfolding st by (simp add: ends_append ends_Suc add.assoc)
  with m'(1) have run: "update_up (Suc (length mid)) m pieces bnd (length (concat (as @ b # mid) @ c)) x
      (length as + Suc (length mid)) = (m', ?pre @ h' # concat (map rotate1 ?bs) @ ?post, ends 0 ?nbs, ?n)"
    by (simp add: all bnd add.assoc del: update_up.simps)
  have upd: "(?pre @ h' # concat (map rotate1 ?bs) @ ?post)[?n := x] = concat ?nbs"
    by (simp add: list_update_append)
  show thesis
  proof (rule that [OF run, unfolded upd, OF rep'])
    show "reindexed (nat ` set (concat ?nbs)) m ?m'"
      using m'(2) reindexed_set_index [of "nat x" "{nat x}"] by (rule reindexed_trans) auto
  qed simp
qed

lemma distinct_map_parts':
  assumes "distinct (map f (xs @ x # ys @ zs))"
  shows "f ` set xs \<inter> f ` set ys = {}" "f ` set zs \<inter> f ` set ys = {}"
    "f x \<notin> f ` set xs" "f x \<notin> f ` set ys" "f x \<notin> f ` set zs"
  using assms by auto

lemma placed_parts':
  assumes "placed m n (xs @ x # ys @ zs)"
  shows "placed m n xs" "placed m (Suc (n + length xs)) ys" "placed m (Suc (n + length xs) + length ys) zs"
  using assms by simp_all

lemma update_down_rep:
  assumes rep: "bucket_rep pr m0 pieces bnd (as @ (c @ x # d) # mid @ b # cs)"
    and m: "agree_except (nat x) m0 m"
  obtains m' pieces' bnd' n where
    "update_down (Suc (length mid)) m pieces bnd (length (concat as @ c)) x (length as) =
      (m', pieces', bnd', n)"
    "bucket_rep (pr(nat x := int (length as + Suc (length mid)))) (set_index m' (nat x) n) (pieces'[n := x]) bnd'
      (as @ (c @ rotr d) # map rotr mid @ (x # b) # cs)"
    "reindexed (nat ` set (pieces'[n := x])) m (set_index m' (nat x) n)"
    "n = length (concat (as @ (c @ d) # mid))"
proof -
  note r = bucket_repD [OF rep]
  let ?n = "length (concat as @ c)" and ?pre = "concat as @ c" and ?bs = "d # mid"
  let ?nbs = "as @ (c @ rotr d) # map rotr mid @ (x # b) # cs" and ?post = "b @ concat cs"
  let ?l = "?n + length (concat ?bs)" and ?v = "int (length as + Suc (length mid))"
  let ?tail = "ends (Suc ?l) (b # cs)"
  have all: "pieces = ?pre @ x # concat ?bs @ ?post" by (simp add: r(2))
  have bnd: "bnd = ends 0 as @ ends (Suc ?n) ?bs @ ?tail" by (simp add: r(3) ends_append add.assoc)
  have "distinct (map nat (?pre @ x # concat ?bs @ ?post))"
    using placed_distinct_nat [OF r(5,4)] unfolding all .
  note dn = distinct_map_parts' [OF this] and pl = placed_parts' [OF r(5) [unfolded all]]
  have "ids m0 pieces" using r(5) by (rule placed_ids)
  then have x: "0 \<le> x" "nat x < length m" using m by (auto simp: all agree_except_def)
  have placed: "placed m 0 ?pre" "placed m (Suc ?n) (concat ?bs)" "placed m (Suc ?l) ?post"
    using placed_except [OF m pl(1) dn(3)] placed_except [OF m pl(2) dn(4)]
      placed_except [OF m pl(3) dn(5)] by simp_all
  have "\<exists>m' h'. update_down (length ?bs) m (?pre @ x # concat ?bs @ ?post) (ends 0 as @ ends (Suc ?n) ?bs @ ?tail)
        ?n x (length (ends 0 as)) =
      (m', ?pre @ concat (map rotr ?bs) @ h' # ?post, ends 0 as @ ends ?n ?bs @ ?tail, ?l)
    \<and> reindexed (nat ` set (concat ?bs)) m m' \<and> placed m' ?n (concat (map rotr ?bs))"
    using r(4) placed(2) by (intro update_down_correct) (auto simp: all)
  then obtain m' h' where m': "update_down (length ?bs) m (?pre @ x # concat ?bs @ ?post) (ends 0 as @ ends (Suc ?n) ?bs @ ?tail)
        ?n x (length (ends 0 as)) =
      (m', ?pre @ concat (map rotr ?bs) @ h' # ?post, ends 0 as @ ends ?n ?bs @ ?tail, ?l)"
    "reindexed (nat ` set (concat ?bs)) m m'" "placed m' ?n (concat (map rotr ?bs))"
    by blast
  let ?m' = "set_index m' (nat x) ?l"
  have len': "length m' = length m" using m'(2) by (rule reindexed_length)
  have "placed m' 0 ?pre" "placed m' (Suc ?l) ?post"
    using placed_reindexed [OF m'(2) placed(1) dn(1)] placed_reindexed [OF m'(2) placed(3) dn(2)] .
  then have "placed ?m' 0 ?pre" "placed ?m' ?n (concat (map rotr ?bs))" "placed ?m' (Suc ?l) ?post"
    using m'(3) dn(3-5) by (simp_all only: placed_set_index set_concat_rotr not_False_eq_True)
  then have "placed ?m' 0 (concat ?nbs)" using x len' by (simp add: set_index_nth add.assoc)
  have rep': "bucket_rep (pr(nat x := ?v)) ?m' (concat ?nbs) (ends 0 ?nbs) ?nbs"
  proof (rule bucket_rep_move [OF rep])
    have "bucketed (pr(nat x := ?v)) 0 (as @ (c @ d) # mid @ b # cs)"
    proof (rule bucketed_fresh)
      show "nat x \<notin> nat ` set (concat (as @ (c @ d) # mid @ b # cs))"
        using dn(3-5) by (simp add: image_Un del: set_concat)
    qed (use r(6) in auto)
    then show "bucketed (pr(nat x := ?v)) 0 ?nbs" by auto
  qed (use x m len' \<open>placed ?m' 0 (concat ?nbs)\<close> in \<open>simp_all add: all agree_except_def\<close>)
  have "ends 0 as @ ends ?n ?bs @ ?tail = ends 0 ?nbs" by (simp add: ends_append add.assoc)
  with m'(1) have run: "update_down (Suc (length mid)) m pieces bnd (length (concat as @ c)) x (length as) =
      (m', ?pre @ concat (map rotr ?bs) @ h' # ?post, ends 0 ?nbs, ?l)"
    by (simp add: all bnd add.assoc del: update_down.simps)
  have upd: "(?pre @ concat (map rotr ?bs) @ h' # ?post)[?l := x] = concat ?nbs"
    by (simp add: list_update_append)
  show thesis
  proof (rule that [OF run, unfolded upd, OF rep'])
    show "reindexed (nat ` set (concat ?nbs)) m ?m'"
      using m'(2) reindexed_set_index [of "nat x" "{nat x}"] by (rule reindexed_trans) auto
  qed simp
qed

lemma placed_iff_nth:
  "placed m n xs \<longleftrightarrow>
   (\<forall>j < length xs. 0 \<le> xs ! j \<and> nat (xs ! j) < length m \<and> index (m ! nat (xs ! j)) = n + j)"
  by (induction xs arbitrary: n) (auto simp: All_less_Suc2)

lemma placed_swap:
  assumes p: "placed m 0 xs" and d: "distinct xs" and o: "o' < length xs" and e: "e < length xs"
  shows "placed (set_index (set_index m (nat (xs ! o')) e) (nat (xs ! e)) o') 0 (xs[o' := xs ! e, e := xs ! o'])"
  unfolding placed_iff_nth
proof (intro allI impI)
  fix j assume j: "j < length (xs[o' := xs ! e, e := xs ! o'])"
  have eq: "nat (xs ! i) = nat (xs ! k) \<longleftrightarrow> i = k" if "i < length xs" "k < length xs" for i k
    using that placed_nth [OF p] d by (metis eq_nat_nat_iff nth_eq_iff_index_eq)
  have pj: "0 \<le> xs ! k \<and> nat (xs ! k) < length m \<and> index (m ! nat (xs ! k)) = k" if "k < length xs" for k
    using placed_nth [OF p that] by simp
  let ?ys = "xs[o' := xs ! e, e := xs ! o']"
  let ?m = "set_index (set_index m (nat (xs ! o')) e) (nat (xs ! e)) o'"
  consider "j = e" "o' \<noteq> e" | "j = o'" "j \<noteq> e" | "j \<noteq> e" "j \<noteq> o'" | "j = e" "o' = e" by blast
  then show "0 \<le> ?ys ! j \<and> nat (?ys ! j) < length ?m \<and> index (?m ! nat (?ys ! j)) = 0 + j"
    using j o e pj [of j] pj [OF o] pj [OF e] eq [OF e o] eq [OF o e] eq [of j e] eq [of j o']
    by cases (auto simp: set_index_nth)
qed

lemma bucket_rep_swap:
  assumes rep: "bucket_rep pr m xs bnd (as @ b # cs)"
    and n: "n = length (concat as)" and i: "i < length b" and j: "j < length b"
  shows "bucket_rep pr (set_index (set_index m (nat (xs ! (n + i))) (n + j)) (nat (xs ! (n + j))) (n + i))
    (xs[n + i := xs ! (n + j), n + j := xs ! (n + i)]) bnd (as @ b[i := b ! j, j := b ! i] # cs)"
proof -
  note r = bucket_repD [OF rep]
  define c where "c = b[i := b ! j, j := b ! i]"
  have c: "mset c = mset b" "length c = length b" using i j by (auto simp: c_def mset_swap)
  note c' = mset_eq_setD [OF c(1)]
  have ys: "xs[n + i := xs ! (n + j), n + j := xs ! (n + i)] = concat (as @ c # cs)"
    using i j by (simp add: r(2) n c_def list_update_append nth_append)
  have ij: "n + i < length xs" "n + j < length xs" using i j by (simp_all add: r(2) n)
  have ms: "mset (concat (as @ c # cs)) = mset xs" using c(1) by (simp add: r(2))
  have "bnd = ends 0 (as @ c # cs)" using c(2) by (simp add: r(3) ends_append)
  moreover have "bucketed pr 0 (as @ c # cs)" using r(6) c' by simp
  ultimately show ?thesis
    using placed_swap [OF r(5,4) ij] r(4,7) mset_eq_imp_distinct_iff [OF ms] mset_eq_setD [OF ms]
    unfolding c_def [symmetric] ys bucket_rep_def by simp
qed

text \<open>What the callers need of a queue operation: the queue left behind, and what changed.\<close>

definition only_queue :: "piece_picker \<Rightarrow> piece_picker \<Rightarrow> bool" where
  "only_queue s s' \<longleftrightarrow>
     s' = s\<lparr>m_pieces := m_pieces s', m_priority_boundries := m_priority_boundries s',
           m_piece_map := m_piece_map s'\<rparr>"

lemma shuffle_rep:
  assumes rep: "bucket_rep pr (m_piece_map s) (m_pieces s) (m_priority_boundries s) (as @ b # cs)"
    and e: "length (concat as) \<le> e" "e < length (concat as) + length b"
    and s'_def: "s' = shuffle rnd (length as) e s"
  shows "queue_rep pr s'" and "only_queue s s'" and "set (m_pieces s') = set (m_pieces s)"
    and "reindexed (nat ` set (m_pieces s)) (m_piece_map s) (m_piece_map s')"
proof -
  note r = bucket_repD [OF rep]
  define n where "n = length (concat as)"
  define j where "j = e - n"
  define i where "i = rnd mod length b"
  have "0 < length b" using e by linarith
  then have e': "e = n + j" "j < length b" "i < length b" using e by (auto simp: n_def j_def i_def)
  have range: "priority_range (length as) (m_priority_boundries s) = (n, n + length b)"
    unfolding n_def r(3) by (rule priority_range_eq) (rule refl)
  have len: "n + i < length (m_pieces s)" "n + j < length (m_pieces s)"
    using e' by (simp_all add: r(2) n_def)
  define xs where "xs = m_pieces s"
  have sh: "s' = (if i = j then s else
      s\<lparr>m_pieces := xs[n + i := xs ! (n + j), n + j := xs ! (n + i)],
        m_piece_map := set_index (set_index (m_piece_map s) (nat (xs ! (n + i))) (n + j)) (nat (xs ! (n + j))) (n + i)\<rparr>)"
    using placed_nth [OF r(5) len(1)] placed_nth [OF r(5) len(2)]
    by (simp add: s'_def shuffle_def range e'(1) i_def [symmetric] Let_def xs_def add.commute)
  show "queue_rep pr s'"
    using rep bucket_rep_swap [OF rep n_def e'(3,2)] unfolding sh
    by (auto simp: queue_rep_def xs_def)
  show "only_queue s s'" unfolding sh only_queue_def by simp
  show "set (m_pieces s') = set (m_pieces s)"
    using len unfolding sh by (simp add: set_swap xs_def)
  have "reindexed (nat ` set xs) (m_piece_map s)
     (set_index (set_index (m_piece_map s) (nat (xs ! (n + i))) (n + j)) (nat (xs ! (n + j))) (n + i))"
    by (rule reindexed_trans [OF reindexed_set_index reindexed_set_index, of _ "nat ` set xs" _ "nat ` set xs"])
      (use len in \<open>auto simp: xs_def\<close>)
  then show "reindexed (nat ` set (m_pieces s)) (m_piece_map s) (m_piece_map s')"
    unfolding sh by (simp add: xs_def)
qed

section \<open>The queue of a picker\<close>

text \<open>
  \<open>queue_ok\<close> is the part of \<open>piece_picker::check_invariant\<close> about \<open>m_pieces\<close>: the queue holds
  every piece under its current priority, at the position the piece knows.
\<close>

definition prio_of :: "piece_picker \<Rightarrow> nat \<Rightarrow> int" where
  "prio_of s q = priority (m_seeds s) (m_piece_map s ! q)"

definition pieces_ok :: "piece_pos list \<Rightarrow> bool" where
  "pieces_ok m \<longleftrightarrow> length m \<le> we_have_index \<and> (\<forall>p \<in> set m. piece_priority p < 8)"

definition queue_ok :: "piece_picker \<Rightarrow> bool" where
  "queue_ok s \<longleftrightarrow> pieces_ok (m_piece_map s) \<and> queue_rep (prio_of s) s"

lemma prio_of_ge: "pieces_ok (m_piece_map s) \<Longrightarrow> i < num_pieces s \<Longrightarrow> - 1 \<le> prio_of s i"
  unfolding prio_of_def pieces_ok_def by (intro priority_ge) auto

definition same_pieces :: "piece_pos list \<Rightarrow> piece_pos list \<Rightarrow> bool" where
  "same_pieces m m' \<longleftrightarrow> length m' = length m \<and>
     (\<forall>q < length m. (\<exists>k. m' ! q = (m ! q)\<lparr>index := k\<rparr>) \<and> pos_have (m' ! q) = pos_have (m ! q))"

definition requeued :: "piece_picker \<Rightarrow> piece_picker \<Rightarrow> bool" where
  "requeued s s' \<longleftrightarrow> only_queue s s' \<and> same_pieces (m_piece_map s) (m_piece_map s')"

lemma bucket_rep_cong:
  assumes "bucket_rep pr m pieces bnd bs" "\<And>q. q < length m \<Longrightarrow> pr' q = pr q"
  shows "bucket_rep pr' m pieces bnd bs"
proof -
  note r = bucket_repD [OF assms(1)]
  have ids: "ids m (concat bs)" using placed_ids [OF r(5)] r(2) by simp
  have "bucketed pr n cs \<Longrightarrow> ids m (concat cs) \<Longrightarrow> bucketed pr' n cs" for n cs
    by (induction cs arbitrary: n) (auto simp: assms(2) ids_def)
  with ids r show ?thesis by (auto simp: bucket_rep_def assms(2))
qed

lemma bucket_rep_except:
  assumes "bucket_rep pr m pieces bnd bs" "agree_except i m m'" "i \<notin> nat ` set pieces"
  shows "bucket_rep pr m' pieces bnd bs"
proof -
  have "length m' = length m" using assms(2) by (simp add: agree_except_def)
  then show ?thesis
    using assms(1) placed_except [OF assms(2) bucket_repD(5) [OF assms(1)] assms(3)]
    unfolding bucket_rep_def by metis
qed

lemma placed_length:
  assumes "placed m 0 xs" "distinct xs"
  shows "length xs \<le> length m"
proof -
  have "set (map nat xs) \<subseteq> {..<length m}" using placed_ids [OF assms(1)] by (auto simp: ids_def)
  then have "card (set (map nat xs)) \<le> card {..<length m}" by (intro card_mono) simp_all
  then show ?thesis using distinct_card [OF placed_distinct_nat [OF assms]] by simp
qed

lemma reindexed_priority:
  assumes re: "reindexed (nat ` set pieces) m m'" and rep: "bucket_rep pr m' pieces bnd bs"
    and pr: "\<And>q. q < length m \<Longrightarrow> pr q = priority seeds (m ! q)"
    and n: "length m \<le> we_have_index" and q: "q < length m"
  shows "priority seeds (m' ! q) = pr q \<and> pos_have (m' ! q) = pos_have (m ! q)"
proof (cases "q \<in> nat ` set pieces")
  case False
  then show ?thesis using reindexed_other [OF re] q pr by simp
next
  case True
  note r = bucket_repD [OF rep]
  have len: "length m' = length m" using re by (rule reindexed_length)
  obtain j where j: "j < length pieces" "pieces ! j = int q"
    using True placed_ids [OF r(5)] by (force simp: ids_def in_set_conv_nth)
  then have "index (m' ! q) = j" using placed_nth [OF r(5), of j] by simp
  moreover have "j < we_have_index" using j(1) placed_length [OF r(5,4)] n len by simp
  moreover obtain k where "m' ! q = (m ! q)\<lparr>index := k\<rparr>" using re q by (auto simp: reindexed_def)
  ultimately have m': "m' ! q = (m ! q)\<lparr>index := j\<rparr>" "j \<noteq> we_have_index" by auto
  have "0 \<le> pr q" using bucketed_queued [OF r(6), of "int q"] j nth_mem [OF j(1)] r(2) by simp
  then have "\<not> pos_have (m ! q)" using pr [OF q] by (auto simp: priority_def)
  then show ?thesis using m' pr [OF q] by (simp add: priority_cong_index pos_have_def)
qed

lemma requeue_ok:
  assumes ok: "pieces_ok (m_piece_map s)" and rep: "queue_rep pr s'" and oq: "only_queue s s'"
    and re: "reindexed (nat ` set (m_pieces s')) (m_piece_map s) (m_piece_map s')"
    and pr: "\<And>q. q < num_pieces s \<Longrightarrow> pr q = prio_of s q"
  shows "queue_ok s' \<and> requeued s s'"
proof -
  obtain bs where bs: "bucket_rep pr (m_piece_map s') (m_pieces s') (m_priority_boundries s') bs"
    using rep by (auto simp: queue_rep_def)
  have seeds: "m_seeds s' = m_seeds s"
    by (subst oq [unfolded only_queue_def]) simp
  have len: "num_pieces s' = num_pieces s" using re by (rule reindexed_length)
  have *: "priority (m_seeds s) (m_piece_map s' ! q) = pr q \<and>
      pos_have (m_piece_map s' ! q) = pos_have (m_piece_map s ! q)" if "q < num_pieces s" for q
    using reindexed_priority [OF re bs pr [unfolded prio_of_def] _ that] ok by (simp add: pieces_ok_def)
  then have "same_pieces (m_piece_map s) (m_piece_map s')"
    using re by (simp add: same_pieces_def reindexed_def)
  moreover from this have "pieces_ok (m_piece_map s')"
    using ok by (fastforce simp: pieces_ok_def same_pieces_def in_set_conv_nth)
  moreover have "queue_rep (prio_of s') s'"
    using bucket_rep_cong [OF bs, of "prio_of s'"] * len seeds by (auto simp: queue_rep_def prio_of_def)
  ultimately show ?thesis using oq by (simp add: queue_ok_def requeued_def)
qed

text \<open>
  The callers change the record of one piece, and fields the queue does not read, then call
  the queue operation.
\<close>

definition piece_changed :: "nat \<Rightarrow> piece_picker \<Rightarrow> piece_picker \<Rightarrow> bool" where
  "piece_changed i s0 s \<longleftrightarrow> i < num_pieces s0 \<and> agree_except i (m_piece_map s0) (m_piece_map s)
     \<and> m_seeds s = m_seeds s0 \<and> m_pieces s = m_pieces s0
     \<and> m_priority_boundries s = m_priority_boundries s0"

lemma piece_changedD:
  assumes "piece_changed i s0 s"
  shows "i < num_pieces s0" "agree_except i (m_piece_map s0) (m_piece_map s)" "m_seeds s = m_seeds s0"
    "m_pieces s = m_pieces s0" "m_priority_boundries s = m_priority_boundries s0"
    "num_pieces s = num_pieces s0"
  using assms by (simp_all add: piece_changed_def agree_except_def)

lemma piece_changed_prio:
  "piece_changed i s0 s \<Longrightarrow> q < num_pieces s \<Longrightarrow> ((prio_of s0)(i := prio_of s i)) q = prio_of s q"
  by (auto simp: piece_changed_def agree_except_def prio_of_def)

lemma grow_boundaries:
  assumes "bucket_rep pr m pieces bnd bs"
    and bnd'_def: "bnd' = (if length bnd \<le> p then resize (p + 1) (length pieces) bnd else bnd)"
  obtains as b cs where "bucket_rep pr m pieces bnd' (as @ b # cs)" "length as = p"
proof -
  obtain bs' where bs': "bucket_rep pr m pieces bnd' bs'" "p < length bs'"
  proof (cases "length bnd \<le> p")
    case True
    then show thesis using bucket_rep_resize [OF assms(1)] bucket_repD(3) [OF assms(1)]
      by (intro that) (auto simp: bnd'_def)
  next
    case False
    then show thesis using assms bucket_repD(3) [OF assms(1)] by (intro that) auto
  qed
  then show thesis using that by (metis bucket_split)
qed

lemma add_ok:
  assumes ok: "queue_ok s0" "pieces_ok (m_piece_map s)" and ch: "piece_changed i s0 s"
    and old: "prio_of s0 i = - 1" and new: "0 \<le> prio_of s i"
  shows "queue_ok (add rnd i s) \<and> requeued s (add rnd i s)"
proof -
  note c = piece_changedD [OF ch]
  define prio where "prio = nat (prio_of s i)"
  define bnd where "bnd = (if length (m_priority_boundries s) \<le> prio
    then resize (prio + 1) (length (m_pieces s)) (m_priority_boundries s) else m_priority_boundries s)"
  obtain bs0 where "bucket_rep (prio_of s0) (m_piece_map s0) (m_pieces s) (m_priority_boundries s) bs0"
    using ok(1) c by (auto simp: queue_ok_def queue_rep_def)
  then obtain as b cs where rep0: "bucket_rep (prio_of s0) (m_piece_map s0) (m_pieces s) bnd (as @ b # cs)"
    and len: "length as = prio" using bnd_def by (rule grow_boundaries)
  note r = bucket_repD [OF rep0]
  have fresh: "i \<notin> nat ` set (m_pieces s)"
    using bucketed_queued [OF r(6)] old placed_ids [OF r(5)] r(2) by (force simp: ids_def simp del: set_concat)
  have xs: "m_pieces s = concat as @ b @ concat cs" by (simp add: r(2))
  have rep: "bucket_rep (prio_of s0) (m_piece_map s) (concat as @ b @ concat cs) bnd (as @ b # cs)"
    unfolding xs [symmetric] using rep0 c(2) fresh by (rule bucket_rep_except)
  define n where "n = length (concat as)"
  define k where "k = (if length b = 0 then 0 else rnd mod (length b + 1))"
  have k: "k \<le> length b" by (simp add: k_def less_Suc_eq_le [symmetric])
  have range: "priority_range prio bnd = (n, n + length b)"
    unfolding n_def len [symmetric] r(3) by (rule priority_range_eq) (rule refl)
  obtain m' bnd' where m': "add_place (m_piece_map s) (m_pieces s @ [- 1]) bnd (int i) (n + k) prio =
      (m', concat as @ take k b @ int i # rotate1 (drop k b) @ concat (map rotate1 cs), bnd')"
    "bucket_rep ((prio_of s0)(i := int prio)) m'
      (concat as @ take k b @ int i # rotate1 (drop k b) @ concat (map rotate1 cs)) bnd'
      (as @ (take k b @ int i # rotate1 (drop k b)) # map rotate1 cs)"
    "reindexed (nat ` set (concat (as @ (take k b @ int i # rotate1 (drop k b)) # map rotate1 cs)))
      (m_piece_map s) m'"
    using add_rep [OF rep _ old k] c(1,6) unfolding len n_def [symmetric] xs by metis
  have ni: "(if n + length b = n then n else rnd mod (n + length b - n + 1) + n) = n + k"
    by (simp add: k_def)
  have add: "add rnd i s = s\<lparr>m_pieces := concat as @ take k b @ int i # rotate1 (drop k b) @ concat (map rotate1 cs),
      m_priority_boundries := bnd', m_piece_map := m'\<rparr>"
    using m'(1) ni by (simp add: add_def Let_def prio_of_def [symmetric] prio_def [symmetric] bnd_def [symmetric] range)
  show ?thesis
  proof (rule requeue_ok [OF ok(2)])
    show "queue_rep ((prio_of s0)(i := prio_of s i)) (add rnd i s)"
      using m'(2) new unfolding add prio_def by (auto simp: queue_rep_def)
    show "only_queue s (add rnd i s)" by (simp add: add only_queue_def)
    show "reindexed (nat ` set (m_pieces (add rnd i s))) (m_piece_map s) (m_piece_map (add rnd i s))"
      using m'(3) by (simp add: add)
  qed (rule piece_changed_prio [OF ch])
qed

lemma queued_split:
  assumes rep: "bucket_rep pr m pieces bnd bs" and i: "i < length m" "pr i = int p"
  obtains as b c cs where "bs = as @ (b @ int i # c) # cs" "length as = p"
    "index (m ! i) = length (concat as @ b)"
proof -
  note r = bucket_repD [OF rep]
  have "int i \<in> set (concat bs)" using r(7) [OF i(1)] i(2) r(2) by simp
  then obtain d where d: "d \<in> set bs" "int i \<in> set d" by auto
  obtain as cs where bs: "bs = as @ d # cs" using d(1) by (auto dest: split_list)
  obtain b c where d': "d = b @ int i # c" using d(2) by (auto dest: split_list)
  have "pr (nat (int i)) = int (length as)" using r(6) d(2) unfolding bs by auto
  then have "length as = p" using i(2) by simp
  moreover have "index (m ! nat (pieces ! length (concat as @ b))) = 0 + length (concat as @ b)"
    using placed_nth [OF r(5), of "length (concat as @ b)"] by (simp add: r(2) bs d')
  moreover have "pieces ! length (concat as @ b) = int i" by (simp add: r(2) bs d' nth_append)
  ultimately show thesis using that bs d' by simp
qed

lemma split_two:
  assumes "as @ b # cs = as' @ d # cs'" "length as < length as'"
  obtains mid where "as' = as @ b # mid" "cs = mid @ d # cs'"
proof -
  obtain us where "as' = as @ us \<and> us @ d # cs' = b # cs \<or> as = as' @ us \<and> us @ b # cs = d # cs'"
    using assms(1) unfolding append_eq_append_conv2 by metis
  then show thesis using assms(2) that by (cases us) auto
qed

lemma remove_ok:
  assumes ok: "queue_ok s0" "pieces_ok (m_piece_map s)" and ch: "piece_changed i s0 s"
    and old: "prio_of s0 i = int prio" and new: "prio_of s i = - 1"
  shows "queue_ok (remove prio (index (m_piece_map s0 ! i)) s)
    \<and> requeued s (remove prio (index (m_piece_map s0 ! i)) s)"
proof -
  note c = piece_changedD [OF ch]
  obtain bs where "bucket_rep (prio_of s0) (m_piece_map s0) (m_pieces s) (m_priority_boundries s) bs"
    using ok(1) c by (auto simp: queue_ok_def queue_rep_def)
  from this c(1) old obtain as b d cs where bs: "bs = as @ (b @ int i # d) # cs" "length as = prio"
    "index (m_piece_map s0 ! i) = length (concat as @ b)" by (rule queued_split)
  have rep: "bucket_rep (prio_of s0) (m_piece_map s0) (m_pieces s) (m_priority_boundries s)
      (as @ (b @ int i # d) # cs)" using \<open>bucket_rep _ _ _ _ bs\<close> bs(1) by simp
  let ?k = "length (concat as @ b)"
  have "agree_except (nat (int i)) (m_piece_map s0) (m_piece_map s)" using c(2) by simp
  from remove_rep [OF rep this] obtain m' pieces' bnd' where m':
    "remove_loop (m_piece_map s) (m_pieces s) (m_priority_boundries s) ?k ?k prio = (m', pieces', bnd')"
    "bucket_rep ((prio_of s0)(i := - 1)) m' (butlast pieces') bnd' (as @ (b @ rotr d) # map rotr cs)"
    "reindexed (nat ` set (butlast pieces')) (m_piece_map s) m'"
    unfolding bs(2) nat_int by metis
  have rem: "remove prio (index (m_piece_map s0 ! i)) s =
      s\<lparr>m_pieces := butlast pieces', m_priority_boundries := bnd', m_piece_map := m'\<rparr>"
    using m'(1) unfolding bs(3) remove_def by simp
  show ?thesis
  proof (rule requeue_ok [OF ok(2)])
    show "queue_rep ((prio_of s0)(i := prio_of s i)) (remove prio (index (m_piece_map s0 ! i)) s)"
      using m'(2) unfolding rem new by (auto simp: queue_rep_def)
    show "only_queue s (remove prio (index (m_piece_map s0 ! i)) s)" by (simp add: rem only_queue_def)
  qed (use m'(3) piece_changed_prio [OF ch] in \<open>simp_all add: rem\<close>)
qed

lemma move_ok:
  assumes ok: "pieces_ok (m_piece_map s)" and ch: "piece_changed i s0 s"
    and rep: "bucket_rep ((prio_of s0)(i := prio_of s i)) m1 pieces1 bnd1 (as @ b # cs)"
    and e: "length (concat as) \<le> e" "e < length (concat as) + length b"
    and re: "reindexed (nat ` set pieces1) (m_piece_map s) m1"
    and s': "s' = shuffle rnd (length as) e (s\<lparr>m_pieces := pieces1, m_priority_boundries := bnd1, m_piece_map := m1\<rparr>)"
  shows "queue_ok s' \<and> requeued s s'"
proof -
  let ?s1 = "s\<lparr>m_pieces := pieces1, m_priority_boundries := bnd1, m_piece_map := m1\<rparr>"
  have rep1: "bucket_rep ((prio_of s0)(i := prio_of s i)) (m_piece_map ?s1) (m_pieces ?s1)
    (m_priority_boundries ?s1) (as @ b # cs)" using rep by simp
  note sh = shuffle_rep [OF rep1 e s']
  show ?thesis
  proof (rule requeue_ok [OF ok sh(1)])
    show "only_queue s s'"
      unfolding only_queue_def by (subst sh(2) [unfolded only_queue_def]) simp
    have "reindexed (nat ` set pieces1) m1 (m_piece_map s')" using sh(4) by simp
    from reindexed_trans [OF re this subset_refl subset_refl]
    show "reindexed (nat ` set (m_pieces s')) (m_piece_map s) (m_piece_map s')" using sh(3) by simp
  qed (rule piece_changed_prio [OF ch])
qed

lemma same_index_ok:
  assumes ok: "queue_ok s0" "pieces_ok (m_piece_map s)" and ch: "piece_changed i s0 s"
    and "index (m_piece_map s ! i) = index (m_piece_map s0 ! i)" "prio_of s i = prio_of s0 i"
  shows "queue_ok s"
proof -
  note c = piece_changedD [OF ch]
  obtain bs where bs: "bucket_rep (prio_of s0) (m_piece_map s0) (m_pieces s) (m_priority_boundries s) bs"
    using ok(1) c by (auto simp: queue_ok_def queue_rep_def)
  have "index (m_piece_map s ! q) = index (m_piece_map s0 ! q)" if "q < num_pieces s0" for q
    using c(2) assms(4) that by (cases "q = i") (auto simp: agree_except_def)
  then have "placed (m_piece_map s) 0 (m_pieces s)"
    using bucket_repD(5) [OF bs] c(6) by (simp add: placed_iff_nth)
  then have "bucket_rep (prio_of s0) (m_piece_map s) (m_pieces s) (m_priority_boundries s) bs"
    using bs c(6) unfolding bucket_rep_def by metis
  moreover have "prio_of s q = prio_of s0 q" if "q < num_pieces s" for q
    using piece_changed_prio [OF ch that] assms(5) by (auto split: if_splits)
  ultimately have "bucket_rep (prio_of s) (m_piece_map s) (m_pieces s) (m_priority_boundries s) bs"
    by (rule bucket_rep_cong)
  then show ?thesis using ok(2) by (auto simp: queue_ok_def queue_rep_def)
qed

lemma unqueued_ok:
  assumes ok: "queue_ok s0" "pieces_ok (m_piece_map s)" and ch: "piece_changed i s0 s"
    and "prio_of s0 i = - 1" "prio_of s i = - 1"
  shows "queue_ok s"
proof -
  note c = piece_changedD [OF ch]
  obtain bs where bs: "bucket_rep (prio_of s0) (m_piece_map s0) (m_pieces s) (m_priority_boundries s) bs"
    using ok(1) c by (auto simp: queue_ok_def queue_rep_def)
  note r = bucket_repD [OF bs]
  have "i \<notin> nat ` set (m_pieces s)"
  proof
    assume "i \<in> nat ` set (m_pieces s)"
    then obtain x where x: "x \<in> set (m_pieces s)" "i = nat x" by (elim imageE)
    have "x \<in> set (concat bs)" using x(1) unfolding r(2) .
    from bucketed_queued [OF r(6) this] show False using assms(4) x(2) by simp
  qed
  then have "bucket_rep (prio_of s0) (m_piece_map s) (m_pieces s) (m_priority_boundries s) bs"
    by (rule bucket_rep_except [OF bs c(2)])
  moreover have "prio_of s q = prio_of s0 q" if "q < num_pieces s" for q
    using piece_changed_prio [OF ch that] assms(4,5) by (cases "q = i") simp_all
  ultimately have "bucket_rep (prio_of s) (m_piece_map s) (m_pieces s) (m_priority_boundries s) bs"
    by (rule bucket_rep_cong)
  then show ?thesis using ok(2) by (auto simp: queue_ok_def queue_rep_def)
qed

lemma requeued_refl [simp]: "requeued s s"
  by (simp add: requeued_def only_queue_def same_pieces_def)

lemma update_ok:
  assumes ok: "queue_ok s0" "pieces_ok (m_piece_map s)" and ch: "piece_changed i s0 s"
    and old: "prio_of s0 i = int prio"
    and idx: "prio_of s i = - 1 \<or> index (m_piece_map s ! i) = index (m_piece_map s0 ! i)"
  shows "queue_ok (update rnd prio (index (m_piece_map s0 ! i)) s)
    \<and> requeued s (update rnd prio (index (m_piece_map s0 ! i)) s)"
proof -
  note c = piece_changedD [OF ch]
  obtain bs where bs: "bucket_rep (prio_of s0) (m_piece_map s0) (m_pieces s) (m_priority_boundries s) bs"
    using ok(1) c by (auto simp: queue_ok_def queue_rep_def)
  from this c(1) old obtain as0 b0 d0 cs0 where bs0: "bs = as0 @ (b0 @ int i # d0) # cs0"
    "index (m_piece_map s0 ! i) = length (concat as0 @ b0)" by (rule queued_split)
  let ?k = "index (m_piece_map s0 ! i)"
  have ind: "m_pieces s ! ?k = int i"
    using bucket_repD(2) [OF bs] by (simp add: bs0 nth_append)
  note upd = update_def [of rnd prio ?k s, unfolded ind Let_def nat_int prio_of_def [symmetric]]
  have ge: "- 1 \<le> prio_of s i"
    using ok(2) c(1,6) unfolding prio_of_def pieces_ok_def by (intro priority_ge) auto
  consider (same) "prio_of s i = int prio" | (gone) "prio_of s i = - 1"
    | (moved) new where "prio_of s i = int new" "new \<noteq> prio"
    using ge by (cases "prio_of s i" rule: int_cases) auto
  then show ?thesis
  proof cases
    case same
    then show ?thesis using same_index_ok [OF ok ch] idx old by (simp add: upd)
  next
    case gone
    then show ?thesis using remove_ok [OF ok ch old gone] by (simp add: upd)
  next
    case moved
    define bnd where "bnd = (if length (m_priority_boundries s) \<le> new
      then resize (new + 1) (length (m_pieces s)) (m_priority_boundries s) else m_priority_boundries s)"
    from bs bnd_def obtain as b cs where
      rep: "bucket_rep (prio_of s0) (m_piece_map s0) (m_pieces s) bnd (as @ b # cs)" "length as = new"
      by (rule grow_boundaries)
    from rep(1) c(1) old obtain as' b' d cs' where sp: "as @ b # cs = as' @ (b' @ int i # d) # cs'"
      "length as' = prio" "?k = length (concat as' @ b')" by (rule queued_split)
    have agree: "agree_except (nat (int i)) (m_piece_map s0) (m_piece_map s)" using c(2) by simp
    note upd' = upd [unfolded moved(1) nat_int bnd_def [symmetric]]
    have pr: "(prio_of s0)(i := int new) = (prio_of s0)(i := prio_of s i)" using moved(1) by simp
    show ?thesis
    proof (cases "new < prio")
      case True
      then obtain mid where mid: "as' = as @ b # mid" "cs = mid @ (b' @ int i # d) # cs'"
        using split_two [OF sp(1)] rep(2) sp(2) by metis
      have e: "Suc (length mid) = prio - new" "new + (prio - new) = prio" "length as = new"
        "length (concat (as @ b # mid) @ b') = ?k"
        using rep(2) sp(2,3) mid(1) by auto
      obtain m' pieces' bnd' n where u:
        "update_up (prio - new) (m_piece_map s) (m_pieces s) bnd ?k (int i) prio = (m', pieces', bnd', n)"
        "bucket_rep ((prio_of s0)(i := int new)) (set_index m' i n) (pieces'[n := int i]) bnd'
          (as @ (b @ [int i]) # map rotate1 mid @ (rotate1 b' @ d) # cs')"
        "reindexed (nat ` set (pieces'[n := int i])) (m_piece_map s) (set_index m' i n)"
        "n = length (concat as @ b)"
        by (rule update_up_rep [OF rep(1) [unfolded mid(2)] agree, unfolded e nat_int])
      show ?thesis
        by (rule move_ok [OF ok(2) ch u(2) [unfolded pr] _ _ u(3), of n _ rnd])
          (use True moved u(1,4) rep(2) in \<open>simp_all add: upd'\<close>)
    next
      case False
      then have "length as' < length as" using rep(2) sp(2) moved(2) by simp
      then obtain mid where mid: "as = as' @ (b' @ int i # d) # mid" "cs' = mid @ b # cs"
        using split_two [OF sp(1) [symmetric]] by metis
      have e: "Suc (length mid) = new - prio" "prio + (new - prio) = new" "length as' = prio"
        "length (concat as' @ b') = ?k"
        using rep(2) sp(2,3) mid(1) by auto
      obtain m' pieces' bnd' n where u:
        "update_down (new - prio) (m_piece_map s) (m_pieces s) bnd ?k (int i) prio = (m', pieces', bnd', n)"
        "bucket_rep ((prio_of s0)(i := int new)) (set_index m' i n) (pieces'[n := int i]) bnd'
          ((as' @ (b' @ rotr d) # map rotr mid) @ (int i # b) # cs)"
        "reindexed (nat ` set (pieces'[n := int i])) (m_piece_map s) (set_index m' i n)"
        "n = length (concat (as' @ (b' @ d) # mid))"
        by (rule update_down_rep [OF rep(1) [unfolded sp(1) mid(2)] agree, unfolded e nat_int]) (rule that, simp_all)
      show ?thesis
        by (rule move_ok [OF ok(2) ch u(2) [unfolded pr] _ _ u(3), of n _ rnd])
          (use False moved u(1,4) rep(2) mid(1) in \<open>simp_all add: upd'\<close>)
    qed
  qed
qed

end
