(* ===== verification/Picker_Downloads.thy ===== *)
theory Picker_Downloads
  imports Picker_State
begin

text \<open>
  The pieces being downloaded (\<^verbatim>\<open>src/piece_picker.cpp\<close>): \<open>m_downloads\<close>, sorted by piece, and the
  vector \<open>m_block_info\<close> in which every download owns one slot of \<open>m_blocks_per_piece\<close> records.
  A new download takes the slot after the last one; an erased download leaves a hole that the
  download in the last slot is moved into. The theory shows that this is a finite map from
  pieces to their blocks: adding, erasing and changing one download leaves the others alone.
\<close>

section \<open>The operations\<close>

text \<open>\<open>std::lower_bound\<close> on a range sorted by \<open>operator<\<close>, and \<open>std::find_if\<close>, as positions.\<close>

definition lower_bound_dl :: "nat \<Rightarrow> downloading_piece list \<Rightarrow> nat" where
  "lower_bound_dl piece ds = length (takeWhile (\<lambda>d. dl_index d < piece) ds)"

definition find_if :: "('a \<Rightarrow> bool) \<Rightarrow> 'a list \<Rightarrow> nat" where
  "find_if P xs = length (takeWhile (\<lambda>x. \<not> P x) xs)"

definition find_dl_piece :: "nat \<Rightarrow> piece_picker \<Rightarrow> nat option" where
  "find_dl_piece piece s =
    (let i = lower_bound_dl piece (m_downloads s)
     in if i = length (m_downloads s) then None
        else if dl_index (m_downloads s ! i) = piece then Some i
        else None)"

definition blank_block :: block_info where
  "blank_block = \<lparr>peer = 0, num_peers = 0, block_state = state_none\<rparr>"

definition add_download_piece :: "nat \<Rightarrow> piece_picker \<Rightarrow> nat \<times> piece_picker" where
  "add_download_piece piece s =
    (let bpp = m_blocks_per_piece s;
         first_block = length (m_downloads s) * bpp;
         blocks = (if length (m_block_info s) < first_block + bpp
                   then resize (first_block + bpp) blank_block (m_block_info s)
                   else m_block_info s);
         i = lower_bound_dl piece (m_downloads s);
         dp = \<lparr>dl_state = ps_none, dl_index = piece, info = first_block,
               finished = 0, writing = 0, requested = 0\<rparr>;
         blocks = foldl (\<lambda>bs j. bs[first_block + j := blank_block]) blocks [0..<bpp]
     in (i, s\<lparr>m_downloads := take i (m_downloads s) @ dp # drop i (m_downloads s),
              m_block_info := blocks\<rparr>))"

definition set_downloading :: "bool \<Rightarrow> nat \<Rightarrow> piece_pos list \<Rightarrow> piece_pos list" where
  "set_downloading b i pmap = pmap[i := (pmap ! i)\<lparr>downloading := b\<rparr>]"

definition erase_download_piece :: "nat \<Rightarrow> piece_picker \<Rightarrow> piece_picker" where
  "erase_download_piece i s =
    (let bpp = m_blocks_per_piece s;
         ds = m_downloads s;
         other = find_if (\<lambda>d. info d = (length ds - 1) * bpp) ds;
         (ds', blocks) =
           (if i \<noteq> other
            then (ds[other := (ds ! other)\<lparr>info := info (ds ! i)\<rparr>],
                  foldl (\<lambda>bs j. bs[info (ds ! i) + j := bs ! (info (ds ! other) + j)])
                    (m_block_info s) [0..<bpp])
            else (ds, m_block_info s))
     in s\<lparr>m_piece_map := set_downloading False (dl_index (ds ! i)) (m_piece_map s),
          m_downloads := take i ds' @ drop (Suc i) ds',
          m_block_info := blocks\<rparr>)"

text \<open>Writing through \<open>i->\<close> and through \<open>i->info[j]\<close>.\<close>

definition set_dl :: "nat \<Rightarrow> (downloading_piece \<Rightarrow> downloading_piece) \<Rightarrow> piece_picker \<Rightarrow> piece_picker" where
  "set_dl i f s = s\<lparr>m_downloads := (m_downloads s)[i := f (m_downloads s ! i)]\<rparr>"

definition dl_block :: "nat \<Rightarrow> nat \<Rightarrow> piece_picker \<Rightarrow> block_info" where
  "dl_block i j s = m_block_info s ! (info (m_downloads s ! i) + j)"

definition set_block :: "nat \<Rightarrow> nat \<Rightarrow> (block_info \<Rightarrow> block_info) \<Rightarrow> piece_picker \<Rightarrow> piece_picker" where
  "set_block i j f s =
    s\<lparr>m_block_info := (m_block_info s)[info (m_downloads s ! i) + j := f (dl_block i j s)]\<rparr>"

section \<open>The map from pieces to downloads\<close>

record download =
  v_state :: piece_state_t
  v_finished :: int
  v_writing :: int
  v_requested :: int
  v_blocks :: "block_info list"

definition view_of :: "block_info list \<Rightarrow> nat \<Rightarrow> downloading_piece \<Rightarrow> download" where
  "view_of blocks bpp d = \<lparr>v_state = dl_state d, v_finished = finished d, v_writing = writing d,
     v_requested = requested d, v_blocks = take bpp (drop (info d) blocks)\<rparr>"

definition dl_view :: "piece_picker \<Rightarrow> nat \<Rightarrow> download option" where
  "dl_view s piece = map_option (view_of (m_block_info s) (m_blocks_per_piece s))
     (map_of (map (\<lambda>d. (dl_index d, d)) (m_downloads s)) piece)"

text \<open>The slots: the downloads own the first slots of the vector, each its own.\<close>

definition slots_ok :: "nat \<Rightarrow> block_info list \<Rightarrow> downloading_piece list \<Rightarrow> bool" where
  "slots_ok bpp blocks ds \<longleftrightarrow> 0 < bpp \<and> sorted_wrt (<) (map dl_index ds)
     \<and> distinct (map info ds) \<and> (\<forall>d \<in> set ds. \<exists>k < length ds. info d = k * bpp)
     \<and> length ds * bpp \<le> length blocks"

definition dl_ok :: "piece_picker \<Rightarrow> bool" where
  "dl_ok s \<longleftrightarrow> slots_ok (m_blocks_per_piece s) (m_block_info s) (m_downloads s)
     \<and> (\<forall>i. i \<in> dl_index ` set (m_downloads s) \<longleftrightarrow> i < num_pieces s \<and> downloading (m_piece_map s ! i))"

lemma slots_okD:
  assumes "slots_ok bpp blocks ds"
  shows "0 < bpp" "sorted_wrt (<) (map dl_index ds)" "distinct (map info ds)"
    "length ds * bpp \<le> length blocks"
    "\<And>d. d \<in> set ds \<Longrightarrow> \<exists>k < length ds. info d = k * bpp"
  using assms by (auto simp: slots_ok_def)

lemma lower_bound_split:
  assumes "sorted_wrt (<) (map dl_index ds)"
  shows "\<forall>d \<in> set (take (lower_bound_dl p ds) ds). dl_index d < p"
    and "\<forall>d \<in> set (drop (lower_bound_dl p ds) ds). p \<le> dl_index d"
proof -
  show "\<forall>d \<in> set (take (lower_bound_dl p ds) ds). dl_index d < p"
    unfolding lower_bound_dl_def by (metis set_takeWhileD takeWhile_eq_take)
  have "\<forall>d \<in> set (dropWhile (\<lambda>d. dl_index d < p) ds). p \<le> dl_index d"
    using assms by (induction ds) auto
  then show "\<forall>d \<in> set (drop (lower_bound_dl p ds) ds). p \<le> dl_index d"
    unfolding lower_bound_dl_def by (simp add: dropWhile_eq_drop)
qed

lemma lower_bound_le: "lower_bound_dl p ds \<le> length ds"
  by (simp add: lower_bound_dl_def length_takeWhile_le)

lemma sorted_distinct_index: "sorted_wrt (<) (map dl_index ds) \<Longrightarrow> distinct (map dl_index ds)"
  by (simp add: strict_sorted_iff)

lemma map_of_downloads:
  assumes "sorted_wrt (<) (map dl_index ds)" "i < length ds"
  shows "map_of (map (\<lambda>d. (dl_index d, d)) ds) (dl_index (ds ! i)) = Some (ds ! i)"
  using sorted_distinct_index [OF assms(1)] assms(2) by (intro map_of_is_SomeI) (auto simp: comp_def)

lemma find_dl_piece_Some:
  assumes "find_dl_piece p s = Some i"
  shows "i < length (m_downloads s)" "dl_index (m_downloads s ! i) = p"
  using assms lower_bound_le [of p "m_downloads s"]
  by (auto simp: find_dl_piece_def Let_def split: if_splits)

lemma find_dl_piece_iff:
  assumes "sorted_wrt (<) (map dl_index (m_downloads s))"
  shows "find_dl_piece p s = None \<longleftrightarrow> p \<notin> dl_index ` set (m_downloads s)"
proof -
  let ?ds = "m_downloads s" and ?i = "lower_bound_dl p (m_downloads s)"
  note lb = lower_bound_split [OF assms, of p]
  have "p \<in> dl_index ` set ?ds \<longleftrightarrow> ?i < length ?ds \<and> dl_index (?ds ! ?i) = p"
  proof
    assume "p \<in> dl_index ` set ?ds"
    then have in_drop: "p \<in> dl_index ` set (drop ?i ?ds)"
      using lb(1) by (metis (no_types, lifting) Un_iff append_take_drop_id image_iff less_irrefl set_append)
    then have lt: "?i < length ?ds" by (cases "?i < length ?ds") auto
    then have dr: "drop ?i ?ds = ?ds ! ?i # drop (Suc ?i) ?ds" by (rule Cons_nth_drop_Suc [symmetric])
    have "sorted_wrt (<) (map dl_index (drop ?i ?ds))" using assms by (simp add: drop_map [symmetric] sorted_wrt_drop)
    then show "?i < length ?ds \<and> dl_index (?ds ! ?i) = p"
      using in_drop lt lb(2) unfolding dr by fastforce
  qed (metis image_eqI nth_mem)
  then show ?thesis using lower_bound_le [of p ?ds] by (auto simp: find_dl_piece_def Let_def)
qed


lemma view_find:
  assumes "dl_ok s" "find_dl_piece p s = Some i"
  shows "dl_view s p = Some (view_of (m_block_info s) (m_blocks_per_piece s) (m_downloads s ! i))"
  using find_dl_piece_Some [OF assms(2)] map_of_downloads [of "m_downloads s" i] assms(1)
  by (auto simp: dl_view_def dl_ok_def slots_ok_def)

lemma view_None_iff: "dl_view s p = None \<longleftrightarrow> p \<notin> dl_index ` set (m_downloads s)"
  by (auto simp: dl_view_def map_of_eq_None_iff image_image)

lemma find_downloading:
  assumes "dl_ok s" "p < num_pieces s"
  shows "(\<exists>i. find_dl_piece p s = Some i) \<longleftrightarrow> downloading (m_piece_map s ! p)"
  using assms find_dl_piece_iff [of s p] by (auto simp: dl_ok_def slots_ok_def)

text \<open>Two slots do not overlap.\<close>

lemma slot_disjoint:
  assumes "slots_ok bpp blocks ds" "i < length ds" "k < length ds" "i \<noteq> k"
  shows "info (ds ! i) + bpp \<le> info (ds ! k) \<or> info (ds ! k) + bpp \<le> info (ds ! i)"
proof -
  note s = slots_okD [OF assms(1)]
  obtain a b where ab: "info (ds ! i) = a * bpp" "info (ds ! k) = b * bpp"
    using s(5) assms(2,3) nth_mem by metis
  have "info (ds ! i) \<noteq> info (ds ! k)"
    using s(3) assms(2-4) by (metis distinct_conv_nth length_map nth_map)
  then have "a < b \<or> b < a" using ab by (metis nat_neq_iff)
  then show ?thesis
  proof
    assume "a < b"
    then have "Suc a * bpp \<le> b * bpp" by (intro mult_le_mono1) simp
    then show ?thesis using ab by simp
  next
    assume "b < a"
    then have "Suc b * bpp \<le> a * bpp" by (intro mult_le_mono1) simp
    then show ?thesis using ab by simp
  qed
qed

lemma slot_in_range:
  assumes "slots_ok bpp blocks ds" "d \<in> set ds"
  shows "info d + bpp \<le> length blocks"
proof -
  obtain k where "k < length ds" "info d = k * bpp" using slots_okD(5) [OF assms] by blast
  then have "info d + bpp = Suc k * bpp" "Suc k * bpp \<le> length ds * bpp"
    by (auto intro: mult_le_mono1 simp del: mult_Suc) simp
  then show ?thesis using slots_okD(4) [OF assms(1)] by linarith
qed

lemma take_drop_update_other:
  assumes "p < a \<or> a + n \<le> p"
  shows "take n (drop a (xs[p := x])) = take n (drop a xs)"
proof (cases "p < a")
  case False
  with assms have "drop a (xs[p := x]) = (drop a xs)[p - a := x]" by (simp add: drop_update_swap)
  then show ?thesis using assms False by simp
qed simp

lemma take_drop_update_same:
  "j < n \<Longrightarrow> take n (drop a (xs[a + j := x])) = (take n (drop a xs))[j := x]"
  by (simp add: drop_update_swap take_update_swap)


section \<open>Changing one download\<close>

lemma map_of_update:
  assumes "sorted_wrt (<) (map dl_index ds)" "i < length ds" "dl_index d = dl_index (ds ! i)"
  shows "map_of (map (\<lambda>d. (dl_index d, d)) (ds[i := d])) =
    (map_of (map (\<lambda>d. (dl_index d, d)) ds))(dl_index d \<mapsto> d)"
proof
  fix p
  have idx: "map dl_index (ds[i := d]) = map dl_index ds"
    using assms(2,3) by (metis list_update_id map_update nth_map)
  have dist: "distinct (map dl_index (ds[i := d]))" "distinct (map dl_index ds)"
    using sorted_distinct_index [OF assms(1)] idx by simp_all
  show "map_of (map (\<lambda>d. (dl_index d, d)) (ds[i := d])) p =
    ((map_of (map (\<lambda>d. (dl_index d, d)) ds))(dl_index d \<mapsto> d)) p"
  proof (cases "p \<in> set (map dl_index ds)")
    case True
    then obtain k where k: "k < length ds" "p = dl_index (ds ! k)" by (auto simp: in_set_conv_nth)
    have "map_of (map (\<lambda>d. (dl_index d, d)) (ds[i := d])) (dl_index (ds[i := d] ! k)) = Some (ds[i := d] ! k)"
      using assms(1) idx k(1) by (intro map_of_downloads) simp_all
    moreover have "dl_index (ds[i := d] ! k) = p"
      using k assms(2,3) by (cases "k = i") auto
    moreover have "p = dl_index d \<longleftrightarrow> k = i"
      using dist(2) k assms(2,3) by (metis distinct_conv_nth length_map nth_map)
    ultimately show ?thesis using k map_of_downloads [OF assms(1) k(1)] assms(2) by auto
  next
    case False
    then have "map_of (map (\<lambda>d. (dl_index d, d)) ds) p = None"
      by (auto simp: map_of_eq_None_iff image_image)
    moreover have "p \<notin> set (map dl_index (ds[i := d]))" using False idx by simp
    then have "map_of (map (\<lambda>d. (dl_index d, d)) (ds[i := d])) p = None"
      by (auto simp: map_of_eq_None_iff image_image)
    moreover have "p \<noteq> dl_index d" using False assms(2,3) by auto
    ultimately show ?thesis by simp
  qed
qed

lemma set_dl_view:
  assumes "dl_ok s" "find_dl_piece p s = Some i"
    and f: "dl_index (f (m_downloads s ! i)) = dl_index (m_downloads s ! i)"
      "info (f (m_downloads s ! i)) = info (m_downloads s ! i)"
  shows "dl_view (set_dl i f s) = (dl_view s)(p \<mapsto> view_of (m_block_info s) (m_blocks_per_piece s) (f (m_downloads s ! i)))"
proof -
  note i = find_dl_piece_Some [OF assms(2)]
  have "sorted_wrt (<) (map dl_index (m_downloads s))" using assms(1) by (simp add: dl_ok_def slots_ok_def)
  then show ?thesis using i f(1) by (auto simp: dl_view_def set_dl_def map_of_update fun_eq_iff)
qed

lemma map_dl_update:
  assumes "i < length ds" "g d = g (ds ! i)"
  shows "map g (ds[i := d]) = map g ds"
  using assms by (metis list_update_id map_update nth_map)

lemma slots_ok_update:
  assumes "slots_ok bpp blocks ds" "i < length ds" "dl_index d = dl_index (ds ! i)" "info d = info (ds ! i)"
  shows "slots_ok bpp blocks (ds[i := d])"
proof -
  have "map dl_index (ds[i := d]) = map dl_index ds" "map info (ds[i := d]) = map info ds"
    using assms by (auto intro!: map_dl_update)
  then show ?thesis using assms unfolding slots_ok_def
    by (metis (no_types, lifting) length_list_update nth_mem set_update_subsetI insert_subset in_set_conv_nth nth_list_update)
qed

lemma set_dl_ok:
  assumes "dl_ok s" "i < length (m_downloads s)"
    and "dl_index (f (m_downloads s ! i)) = dl_index (m_downloads s ! i)"
      "info (f (m_downloads s ! i)) = info (m_downloads s ! i)"
  shows "dl_ok (set_dl i f s)"
proof -
  let ?ds = "(m_downloads s)[i := f (m_downloads s ! i)]"
  have "map dl_index ?ds = map dl_index (m_downloads s)" using assms by (intro map_dl_update) auto
  then have "dl_index ` set ?ds = dl_index ` set (m_downloads s)" by (metis set_map)
  then show ?thesis using assms slots_ok_update [of _ _ "m_downloads s" i]
    by (simp add: dl_ok_def set_dl_def)
qed

lemma set_block_ok [simp]: "dl_ok (set_block i j f s) = dl_ok s"
  by (simp add: dl_ok_def set_block_def slots_ok_def)

lemma set_block_view:
  assumes ok: "dl_ok s" and p: "find_dl_piece p s = Some i" and j: "j < m_blocks_per_piece s"
    and v: "dl_view s p = Some v"
  shows "dl_view (set_block i j f s) = (dl_view s)(p \<mapsto> v\<lparr>v_blocks := (v_blocks v)[j := f (dl_block i j s)]\<rparr>)"
proof
  fix q
  let ?ds = "m_downloads s" and ?bpp = "m_blocks_per_piece s"
  note i = find_dl_piece_Some [OF p]
  have sl: "slots_ok ?bpp (m_block_info s) ?ds" using ok by (simp add: dl_ok_def)
  have v': "v = view_of (m_block_info s) ?bpp (?ds ! i)" using v view_find [OF ok p] by simp
  show "dl_view (set_block i j f s) q = ((dl_view s)(p \<mapsto> v\<lparr>v_blocks := (v_blocks v)[j := f (dl_block i j s)]\<rparr>)) q"
  proof (cases "map_of (map (\<lambda>d. (dl_index d, d)) ?ds) q")
    case None
    then have "q \<noteq> p" using i map_of_downloads [OF slots_okD(2) [OF sl] i(1)] by auto
    then show ?thesis using None by (simp add: dl_view_def set_block_def)
  next
    case (Some d)
    then obtain k where k: "k < length ?ds" "d = ?ds ! k" "q = dl_index d"
      by (auto dest!: map_of_SomeD simp: in_set_conv_nth)
    have "view_of ((m_block_info s)[info (?ds ! i) + j := f (dl_block i j s)]) ?bpp d =
      (if k = i then v\<lparr>v_blocks := (v_blocks v)[j := f (dl_block i j s)]\<rparr> else view_of (m_block_info s) ?bpp d)"
      using slot_disjoint [OF sl k(1) i(1)] j
      by (auto simp: view_of_def v' k(2) take_drop_update_same take_drop_update_other)
    moreover have "q = p \<longleftrightarrow> k = i"
      using sorted_distinct_index [OF slots_okD(2) [OF sl]] i k by (metis distinct_conv_nth length_map nth_map)
    ultimately show ?thesis using Some by (simp add: dl_view_def set_block_def)
  qed
qed

lemma dl_block_view:
  assumes "dl_ok s" "find_dl_piece p s = Some i" "dl_view s p = Some v" "j < m_blocks_per_piece s"
  shows "dl_block i j s = v_blocks v ! j"
proof -
  have "slots_ok (m_blocks_per_piece s) (m_block_info s) (m_downloads s)" using assms(1) by (simp add: dl_ok_def)
  from slot_in_range [OF this, of "m_downloads s ! i"] find_dl_piece_Some [OF assms(2)]
  have "info (m_downloads s ! i) + m_blocks_per_piece s \<le> length (m_block_info s)" by simp
  then show ?thesis using view_find [OF assms(1,2)] assms(3,4) by (simp add: view_of_def dl_block_def)
qed


section \<open>Adding a download\<close>

lemma fill_nth:
  "length (foldl (\<lambda>bs j. bs[a + j := x]) bs [0..<n]) = length bs"
  "q < length bs \<Longrightarrow> foldl (\<lambda>bs j. bs[a + j := x]) bs [0..<n] ! q = (if a \<le> q \<and> q < a + n then x else bs ! q)"
  by (induction n) (auto simp: nth_list_update less_Suc_eq)

lemma copy_nth:
  assumes "t + n \<le> f \<or> f + n \<le> t" "f + n \<le> length bs" "t + n \<le> length bs"
  shows "length (foldl (\<lambda>bs j. bs[t + j := bs ! (f + j)]) bs [0..<n]) = length bs
    \<and> (\<forall>q < length bs. foldl (\<lambda>bs j. bs[t + j := bs ! (f + j)]) bs [0..<n] ! q =
        (if t \<le> q \<and> q < t + n then bs ! (f + (q - t)) else bs ! q))"
  using assms by (induction n) (auto simp: nth_list_update less_Suc_eq)

lemma map_of_insert:
  assumes "p \<notin> dl_index ` set (xs @ ys)" "dl_index d = p"
  shows "map_of (map (\<lambda>d. (dl_index d, d)) (xs @ d # ys)) =
    (map_of (map (\<lambda>d. (dl_index d, d)) (xs @ ys)))(p \<mapsto> d)"
proof
  fix q
  have "map_of (map (\<lambda>d. (dl_index d, d)) xs) p = None" "map_of (map (\<lambda>d. (dl_index d, d)) ys) p = None"
    using assms(1) by (auto simp: map_of_eq_None_iff image_image)
  then show "map_of (map (\<lambda>d. (dl_index d, d)) (xs @ d # ys)) q =
    ((map_of (map (\<lambda>d. (dl_index d, d)) (xs @ ys)))(p \<mapsto> d)) q"
    using assms(2) by (auto simp: map_add_def split: option.splits)
qed

definition fresh_download :: "nat \<Rightarrow> download" where
  "fresh_download bpp = \<lparr>v_state = ps_none, v_finished = 0, v_writing = 0, v_requested = 0,
     v_blocks = replicate bpp blank_block\<rparr>"

lemma add_download_slots:
  assumes sl: "slots_ok (m_blocks_per_piece s) (m_block_info s) (m_downloads s)"
    and new: "p \<notin> dl_index ` set (m_downloads s)" and add: "add_download_piece p s = (i, s')"
  shows "slots_ok (m_blocks_per_piece s') (m_block_info s') (m_downloads s')"
    and "dl_view s' = (dl_view s)(p \<mapsto> fresh_download (m_blocks_per_piece s))"
    and "find_dl_piece p s' = Some i"
    and "dl_index ` set (m_downloads s') = insert p (dl_index ` set (m_downloads s))"
    and "s' = s\<lparr>m_downloads := m_downloads s', m_block_info := m_block_info s'\<rparr>"
proof -
  let ?ds = "m_downloads s" and ?bpp = "m_blocks_per_piece s"
  let ?n = "length ?ds * ?bpp"
  define bl where "bl = (if length (m_block_info s) < ?n + ?bpp
    then resize (?n + ?bpp) blank_block (m_block_info s) else m_block_info s)"
  define bl' where "bl' = foldl (\<lambda>bs j. bs[?n + j := blank_block]) bl [0..<?bpp]"
  define dp where "dp = \<lparr>dl_state = ps_none, dl_index = p, info = ?n, finished = 0, writing = 0, requested = 0\<rparr>"
  have i: "i = lower_bound_dl p ?ds"
    and s': "s' = s\<lparr>m_downloads := take i ?ds @ dp # drop i ?ds, m_block_info := bl'\<rparr>"
    using add by (auto simp: add_download_piece_def Let_def bl_def bl'_def dp_def)
  note sd = slots_okD [OF sl] and lb = lower_bound_split [OF slots_okD(2) [OF sl], of p]
  have len: "?n + ?bpp \<le> length bl'" "?n \<le> length bl" "length bl' = length bl"
    using sd(4) by (auto simp: bl'_def fill_nth(1) bl_def)
  have old: "bl' ! q = m_block_info s ! q" if "q < ?n" for q
    using that sd(4) len by (auto simp: bl'_def fill_nth bl_def resize_def nth_append)
  have new': "bl' ! q = blank_block" if "?n \<le> q" "q < ?n + ?bpp" for q
    using that len by (simp add: bl'_def fill_nth)
  have set: "set (take i ?ds @ dp # drop i ?ds) = insert dp (set ?ds)"
    by (metis append_take_drop_id list.simps(15) set_append Un_insert_right)
  show "dl_index ` set (m_downloads s') = insert p (dl_index ` set ?ds)"
    using set by (simp add: s' dp_def)
  show "s' = s\<lparr>m_downloads := m_downloads s', m_block_info := m_block_info s'\<rparr>" by (simp add: s')
  have sorted: "sorted_wrt (<) (map dl_index (take i ?ds @ dp # drop i ?ds))"
  proof -
    have "\<forall>d \<in> set (drop i ?ds). p < dl_index d"
      using lb(2) new by (metis i image_eqI in_set_dropD le_neq_implies_less)
    moreover have "sorted_wrt (<) (map dl_index (take i ?ds @ drop i ?ds))" using sd(2) by simp
    ultimately show ?thesis using lb(1) unfolding i map_append sorted_wrt_append
      by (auto simp: dp_def)
  qed
  have "\<forall>d \<in> set (take i ?ds @ drop i ?ds). info d \<noteq> ?n"
    using sd(1,5) by (metis append_take_drop_id less_irrefl mult_less_cancel2 nat_neq_iff)
  moreover have "distinct (map info (take i ?ds @ drop i ?ds))" using sd(3) by simp
  ultimately have "distinct (map info (take i ?ds @ dp # drop i ?ds))"
    unfolding map_append distinct_append by (auto simp: dp_def dest: in_set_takeD in_set_dropD)
  moreover have lend: "length (take i ?ds @ dp # drop i ?ds) = Suc (length ?ds)" by simp
  moreover have "\<exists>k < Suc (length ?ds). info d = k * ?bpp" if "d \<in> insert dp (set ?ds)" for d
    using that sd(5) by (auto simp: dp_def intro: less_SucI)
  ultimately show "slots_ok (m_blocks_per_piece s') (m_block_info s') (m_downloads s')"
    using sorted sd(1) len(1) set unfolding slots_ok_def by (simp add: s')
  have keep: "view_of bl' ?bpp d = view_of (m_block_info s) ?bpp d" if d: "d \<in> set ?ds" for d
  proof -
    obtain k where k: "k < length ?ds" "info d = k * ?bpp" using sd(5) [OF d] by blast
    then have "info d + ?bpp = Suc k * ?bpp" "Suc k * ?bpp \<le> ?n"
      by (auto intro: mult_le_mono1 simp del: mult_Suc) simp
    then have "take ?bpp (drop (info d) bl') = take ?bpp (drop (info d) (m_block_info s))"
      using len sd(4) by (intro nth_equalityI) (auto simp: old)
    then show ?thesis by (simp add: view_of_def)
  qed
  have "take ?bpp (drop ?n bl') = replicate ?bpp blank_block"
    using len(1) by (intro nth_equalityI) (auto simp: new')
  then have fresh: "view_of bl' ?bpp dp = fresh_download ?bpp"
    by (simp add: view_of_def fresh_download_def dp_def)
  have "map_of (map (\<lambda>d. (dl_index d, d)) (take i ?ds @ dp # drop i ?ds)) =
    (map_of (map (\<lambda>d. (dl_index d, d)) ?ds))(p \<mapsto> dp)"
    using map_of_insert [of p "take i ?ds" "drop i ?ds" dp] new by (simp add: dp_def)
  moreover have "map_option (view_of bl' ?bpp) (map_of (map (\<lambda>d. (dl_index d, d)) ?ds) q) =
    map_option (view_of (m_block_info s) ?bpp) (map_of (map (\<lambda>d. (dl_index d, d)) ?ds) q)" for q
    using keep by (cases "map_of (map (\<lambda>d. (dl_index d, d)) ?ds) q") (auto dest!: map_of_SomeD)
  ultimately show "dl_view s' = (dl_view s)(p \<mapsto> fresh_download ?bpp)"
    using fresh by (simp add: s' dl_view_def fun_eq_iff)
  have le: "i \<le> length ?ds" unfolding i by (rule lower_bound_le)
  have "takeWhile (\<lambda>d. dl_index d < p) (take i ?ds @ dp # drop i ?ds) = take i ?ds"
    using lb(1) by (simp add: i dp_def takeWhile_append_all)
  then have "lower_bound_dl p (m_downloads s') = i"
    using le by (simp add: s' lower_bound_dl_def)
  moreover have "m_downloads s' ! i = dp" using le by (simp add: s' nth_append)
  ultimately show "find_dl_piece p s' = Some i"
    using le by (simp add: find_dl_piece_def Let_def) (simp add: s' dp_def)
qed

section \<open>Erasing a download\<close>

lemma last_slot:
  assumes "slots_ok bpp blocks ds" "ds \<noteq> []"
  shows "find_if (\<lambda>d. info d = (length ds - 1) * bpp) ds < length ds"
    and "info (ds ! find_if (\<lambda>d. info d = (length ds - 1) * bpp) ds) = (length ds - 1) * bpp"
proof -
  let ?P = "\<lambda>d. info d = (length ds - 1) * bpp"
  note sd = slots_okD [OF assms(1)]
  have sub: "set (map info ds) \<subseteq> (\<lambda>k. k * bpp) ` {..<length ds}" using sd(5) by fastforce
  have "card ((\<lambda>k. k * bpp) ` {..<length ds}) = length ds"
    using sd(1) by (simp add: card_image inj_on_def)
  then have "set (map info ds) = (\<lambda>k. k * bpp) ` {..<length ds}"
    using sub distinct_card [OF sd(3)] by (intro card_subset_eq) auto
  then have "(length ds - 1) * bpp \<in> set (map info ds)" using assms(2) by auto
  then have ex: "\<exists>d \<in> set ds. ?P d" by auto
  then show "find_if ?P ds < length ds"
    unfolding find_if_def using length_takeWhile_le [of "\<lambda>x. \<not> ?P x" ds] takeWhile_eq_all_conv [of "\<lambda>x. \<not> ?P x" ds]
    by (metis (no_types, lifting) le_neq_implies_less takeWhile_eq_take take_all_iff order_refl)
  then show "?P (ds ! find_if ?P ds)"
    unfolding find_if_def using nth_length_takeWhile by fastforce
qed

lemma erase_at:
  assumes "distinct (map f xs)" "i < length xs"
  shows "set (take i xs @ drop (Suc i) xs) = set xs - {xs ! i}"
    and "f ` set (take i xs @ drop (Suc i) xs) = f ` set xs - {f (xs ! i)}"
proof -
  have split: "take i xs @ xs ! i # drop (Suc i) xs = xs" using assms(2) by (rule id_take_nth_drop [symmetric])
  have dist: "distinct (map f (take i xs @ xs ! i # drop (Suc i) xs))" unfolding split using assms(1) .
  have "set xs = set (take i xs @ xs ! i # drop (Suc i) xs)" unfolding split ..
  then show "set (take i xs @ drop (Suc i) xs) = set xs - {xs ! i}"
    and "f ` set (take i xs @ drop (Suc i) xs) = f ` set xs - {f (xs ! i)}"
    using dist by (auto simp: image_Un)
qed

lemma map_of_erase:
  assumes "sorted_wrt (<) (map dl_index ds)" "i < length ds"
  shows "map_of (map (\<lambda>d. (dl_index d, d)) (take i ds @ drop (Suc i) ds)) =
    (map_of (map (\<lambda>d. (dl_index d, d)) ds))(dl_index (ds ! i) := None)"
proof -
  let ?m = "\<lambda>xs. map_of (map (\<lambda>d. (dl_index d, d)) xs)"
  have split: "take i ds @ ds ! i # drop (Suc i) ds = ds" using assms(2) by (rule id_take_nth_drop [symmetric])
  have "distinct (map dl_index (take i ds @ ds ! i # drop (Suc i) ds))"
    unfolding split using sorted_distinct_index [OF assms(1)] .
  then have new: "dl_index (ds ! i) \<notin> dl_index ` set (take i ds @ drop (Suc i) ds)" by auto
  from map_of_insert [OF new refl] have "?m ds = (?m (take i ds @ drop (Suc i) ds))(dl_index (ds ! i) \<mapsto> ds ! i)"
    unfolding split .
  moreover have "?m (take i ds @ drop (Suc i) ds) (dl_index (ds ! i)) = None"
    using new unfolding map_of_eq_None_iff by (auto simp: image_iff)
  ultimately show ?thesis by (auto simp: fun_eq_iff)
qed


lemma sorted_erase:
  assumes "sorted_wrt P xs"
  shows "sorted_wrt P (take i xs @ drop (Suc i) xs)"
proof -
  have sub: "set (drop (Suc i) xs) \<subseteq> set (drop i xs)" by (simp add: set_drop_subset_set_drop)
  have "sorted_wrt P (take i xs @ drop i xs)" using assms by simp
  then have "sorted_wrt P (take i xs)" "\<forall>x \<in> set (take i xs). \<forall>y \<in> set (drop i xs). P x y"
    unfolding sorted_wrt_append by blast+
  then show ?thesis
    using sub sorted_wrt_drop [OF assms, of "Suc i"] unfolding sorted_wrt_append by blast
qed

lemma distinct_erase: "distinct xs \<Longrightarrow> distinct (take i xs @ drop (Suc i) xs)"
  by (auto simp: set_take_disj_set_drop_if_distinct)

lemma erase_download_slots:
  assumes sl: "slots_ok (m_blocks_per_piece s) (m_block_info s) (m_downloads s)"
    and i: "i < length (m_downloads s)" and p: "p = dl_index (m_downloads s ! i)"
    and s'_def: "s' = erase_download_piece i s"
  shows "slots_ok (m_blocks_per_piece s') (m_block_info s') (m_downloads s')"
    and "dl_view s' = (dl_view s)(p := None)"
    and "dl_index ` set (m_downloads s') = dl_index ` set (m_downloads s) - {p}"
    and "s' = s\<lparr>m_piece_map := set_downloading False p (m_piece_map s), m_downloads := m_downloads s',
      m_block_info := m_block_info s'\<rparr>"
proof -
  let ?ds = "m_downloads s" and ?bpp = "m_blocks_per_piece s" and ?bl = "m_block_info s"
  define o' where "o' = find_if (\<lambda>d. info d = (length ?ds - 1) * ?bpp) ?ds"
  define ds where "ds = (if i \<noteq> o' then ?ds[o' := (?ds ! o')\<lparr>info := info (?ds ! i)\<rparr>] else ?ds)"
  define bl where "bl = (if i \<noteq> o' then foldl (\<lambda>bs j. bs[info (?ds ! i) + j := bs ! (info (?ds ! o') + j)])
    ?bl [0..<?bpp] else ?bl)"
  have s': "s' = s\<lparr>m_piece_map := set_downloading False p (m_piece_map s),
      m_downloads := take i ds @ drop (Suc i) ds, m_block_info := bl\<rparr>"
    unfolding s'_def erase_download_piece_def Let_def o'_def [symmetric] ds_def bl_def p by simp
  note sd = slots_okD [OF sl]
  have ne: "?ds \<noteq> []" using i by auto
  have o: "o' < length ?ds" "info (?ds ! o') = (length ?ds - 1) * ?bpp"
    using last_slot [OF sl ne] by (simp_all add: o'_def)
  have len: "length ds = length ?ds" and idx: "map dl_index ds = map dl_index ?ds"
    using o(1) by (auto simp: ds_def intro!: map_dl_update)
  have sorted: "sorted_wrt (<) (map dl_index ds)" using sd(2) idx by simp
  show "s' = s\<lparr>m_piece_map := set_downloading False p (m_piece_map s), m_downloads := m_downloads s',
      m_block_info := m_block_info s'\<rparr>" by (simp add: s')
  have pi: "dl_index (ds ! i) = p" using idx i len p by (metis nth_map)
  have "dl_index ` set ds = dl_index ` set ?ds" using idx by (metis set_map)
  then show "dl_index ` set (m_downloads s') = dl_index ` set ?ds - {p}"
    using erase_at(2) [OF sorted_distinct_index [OF sorted], of i] i len pi by (simp add: s')
  define sw where "sw = (map info ?ds)[o' := map info ?ds ! i, i := map info ?ds ! o']"
  have sw: "map info (take i ds @ drop (Suc i) ds) = take i sw @ drop (Suc i) sw"
    using i o(1) by (auto simp: sw_def ds_def take_map [symmetric] drop_map [symmetric] map_update)
  have swd: "distinct (map id sw)" "sw ! i = (length ?ds - 1) * ?bpp" "set sw = set (map info ?ds)" "i < length sw"
  proof -
    have il: "i < length (map info ?ds)" "o' < length (map info ?ds)" using i o(1) by simp_all
    show "distinct (map id sw)" using sd(3) distinct_swap [OF il(2,1)] by (simp add: sw_def)
    show "set sw = set (map info ?ds)" unfolding sw_def by (rule set_swap [OF il(2,1)])
  qed (use i o in \<open>simp_all add: sw_def\<close>)
  have infos: "set (map info (take i ds @ drop (Suc i) ds)) = set (map info ?ds) - {(length ?ds - 1) * ?bpp}"
    using erase_at(1) [OF swd(1,4)] unfolding sw swd(2,3) .
  have "distinct (map info (take i ds @ drop (Suc i) ds))"
    unfolding sw using swd(1) by (intro distinct_erase) simp
  moreover have "\<exists>k < length ?ds - 1. info d = k * ?bpp" if "d \<in> set (take i ds @ drop (Suc i) ds)" for d
  proof -
    have "info d \<in> set (map info ?ds) - {(length ?ds - 1) * ?bpp}"
      unfolding infos [symmetric] by (metis imageI set_map that)
    then obtain k where "k < length ?ds" "info d = k * ?bpp" "k \<noteq> length ?ds - 1" using sd(5) by fastforce
    then show ?thesis by (intro exI [of _ k]) auto
  qed
  moreover have lbl: "length bl = length ?bl" "\<And>q. q < length ?bl \<Longrightarrow> i \<noteq> o' \<Longrightarrow> bl ! q =
      (if info (?ds ! i) \<le> q \<and> q < info (?ds ! i) + ?bpp then ?bl ! (info (?ds ! o') + (q - info (?ds ! i))) else ?bl ! q)"
    using copy_nth [of "info (?ds ! i)" ?bpp "info (?ds ! o')" ?bl] slot_disjoint [OF sl i o(1)]
      slot_in_range [OF sl nth_mem [OF i]] slot_in_range [OF sl nth_mem [OF o(1)]]
    by (auto simp: bl_def)
  moreover have "(length ?ds - 1) * ?bpp \<le> length ?bl"
    using sd(4) by (meson diff_le_self le_trans mult_le_mono1)
  moreover have "sorted_wrt (<) (map dl_index (take i ds @ drop (Suc i) ds))"
    using sorted sorted_erase [of "(<)" "map dl_index ds" i] by (simp add: take_map drop_map)
  moreover have lenD: "length (take i ds @ drop (Suc i) ds) = length ?ds - 1" using i len by simp
  ultimately show "slots_ok (m_blocks_per_piece s') (m_block_info s') (m_downloads s')"
    using sd(1) unfolding slots_ok_def by (simp add: s')
  have view: "map_option (view_of bl ?bpp) (map_of (map (\<lambda>d. (dl_index d, d)) ds) q) = dl_view s q"
    if q: "q \<noteq> p" for q
  proof (cases "i = o'")
    case True
    then show ?thesis by (simp add: ds_def bl_def dl_view_def)
  next
    case False
    let ?od = "(?ds ! o')\<lparr>info := info (?ds ! i)\<rparr>"
    have m: "map_of (map (\<lambda>d. (dl_index d, d)) ds) =
      (map_of (map (\<lambda>d. (dl_index d, d)) ?ds))(dl_index (?ds ! o') \<mapsto> ?od)"
      using map_of_update [OF sd(2) o(1), of ?od] False by (simp add: ds_def)
    note rg = slot_in_range [OF sl nth_mem [OF i]] slot_in_range [OF sl nth_mem [OF o(1)]]
    have moved: "view_of bl ?bpp ?od = view_of ?bl ?bpp (?ds ! o')"
      using rg lbl(1) unfolding view_of_def by (auto intro!: nth_equalityI simp: lbl(2) [OF _ False])
    have kept: "view_of bl ?bpp (?ds ! k) = view_of ?bl ?bpp (?ds ! k)"
      if "k < length ?ds" "dl_index (?ds ! k) \<noteq> dl_index (?ds ! i)" for k
    proof -
      have "k \<noteq> i" using that(2) by auto
      then show ?thesis
        using rg lbl(1) slot_disjoint [OF sl that(1) i] slot_in_range [OF sl nth_mem [OF that(1)]]
        unfolding view_of_def by (auto intro!: nth_equalityI simp: lbl(2) [OF _ False])
    qed
    show ?thesis
    proof (cases "q = dl_index (?ds ! o')")
      case True
      then show ?thesis using m moved map_of_downloads [OF sd(2) o(1)] by (simp add: dl_view_def)
    next
      case False
      then show ?thesis using m q kept p
        by (cases "map_of (map (\<lambda>d. (dl_index d, d)) ?ds) q")
          (auto simp: dl_view_def in_set_conv_nth dest!: map_of_SomeD)
    qed
  qed
  show "dl_view s' = (dl_view s)(p := None)"
  proof
    fix q
    have "map_of (map (\<lambda>d. (dl_index d, d)) (take i ds @ drop (Suc i) ds)) =
      (map_of (map (\<lambda>d. (dl_index d, d)) ds))(p := None)"
      using map_of_erase [OF sorted] i len pi by simp
    moreover have "dl_view s' q = map_option (view_of bl ?bpp)
      (map_of (map (\<lambda>d. (dl_index d, d)) (take i ds @ drop (Suc i) ds)) q)"
      by (simp add: s' dl_view_def)
    ultimately show "dl_view s' q = ((dl_view s)(p := None)) q"
      using view [of q] by (simp del: map_append)
  qed
qed


lemma erase_download_ok:
  assumes ok: "dl_ok s" and p: "find_dl_piece p s = Some i"
  shows "dl_ok (erase_download_piece i s)"
    and "dl_view (erase_download_piece i s) = (dl_view s)(p := None)"
    and "\<exists>ds bl. erase_download_piece i s =
      s\<lparr>m_piece_map := set_downloading False p (m_piece_map s), m_downloads := ds, m_block_info := bl\<rparr>"
proof -
  note i = find_dl_piece_Some [OF p]
  have sl: "slots_ok (m_blocks_per_piece s) (m_block_info s) (m_downloads s)" using ok by (simp add: dl_ok_def)
  note e = erase_download_slots [OF sl i(1) i(2) [symmetric] refl]
  show "dl_view (erase_download_piece i s) = (dl_view s)(p := None)" by (rule e(2))
  show "\<exists>ds bl. erase_download_piece i s =
      s\<lparr>m_piece_map := set_downloading False p (m_piece_map s), m_downloads := ds, m_block_info := bl\<rparr>"
    using e(4) by blast
  have map: "m_piece_map (erase_download_piece i s) = set_downloading False p (m_piece_map s)"
    by (subst e(4)) simp
  have "i < length (m_downloads s) \<Longrightarrow> dl_index (m_downloads s ! i) \<in> dl_index ` set (m_downloads s)" by simp
  then have pn: "p < num_pieces s" using ok i by (auto simp: dl_ok_def)
  show "dl_ok (erase_download_piece i s)"
    using ok e(1) pn unfolding dl_ok_def e(3) map by (auto simp: set_downloading_def nth_list_update)
qed

lemma add_download_ok:
  assumes ok: "dl_ok s0" and s: "s = s0\<lparr>m_piece_map := m, m_pieces := xs, m_priority_boundries := bnd\<rparr>"
    and m: "length m = num_pieces s0" "\<forall>q < num_pieces s0. downloading (m ! q) \<longleftrightarrow> q = p \<or> downloading (m_piece_map s0 ! q)"
    and new: "p < num_pieces s0" "\<not> downloading (m_piece_map s0 ! p)"
    and add: "add_download_piece p s = (i, s')"
  shows "dl_ok s'" and "find_dl_piece p s' = Some i"
    and "dl_view s' = (dl_view s0)(p \<mapsto> fresh_download (m_blocks_per_piece s0))"
    and "\<exists>ds bl. s' = s\<lparr>m_downloads := ds, m_block_info := bl\<rparr>"
proof -
  have sl: "slots_ok (m_blocks_per_piece s) (m_block_info s) (m_downloads s)" using ok s by (simp add: dl_ok_def)
  have np: "p \<notin> dl_index ` set (m_downloads s)" using ok new s by (simp add: dl_ok_def)
  note a = add_download_slots [OF sl np add]
  show "find_dl_piece p s' = Some i" by (rule a(3))
  have "dl_view s = dl_view s0" by (simp add: s dl_view_def fun_eq_iff)
  then show "dl_view s' = (dl_view s0)(p \<mapsto> fresh_download (m_blocks_per_piece s0))" using a(2) s by simp
  show "\<exists>ds bl. s' = s\<lparr>m_downloads := ds, m_block_info := bl\<rparr>" using a(5) by blast
  have "m_piece_map s' = m" by (subst a(5)) (simp add: s)
  moreover have "m_downloads s = m_downloads s0" by (simp add: s)
  ultimately show "dl_ok s'"
    using ok a(1,4) m new by (auto simp: dl_ok_def)
qed

end
