(* ===== verification/Picker_Ops.thy ===== *)
theory Picker_Ops
  imports Picker_Queue Picker_Downloads
begin

text \<open>
  The operations of \<open>piece_picker\<close> on whole pieces: \<open>init\<close>, the availability counts
  (\<open>inc_refcount\<close>, \<open>dec_refcount\<close>), \<open>we_have\<close>, \<open>we_dont_have\<close>, \<open>set_piece_priority\<close>,
  \<open>restore_piece\<close>, and \<open>update_pieces\<close>, which rebuilds the queue. The invariant
  \<open>picker_ok\<close> is \<open>piece_picker::check_invariant\<close>; every operation keeps it.
\<close>

section \<open>The operations\<close>

definition piece_pos_init :: "nat \<Rightarrow> nat \<Rightarrow> piece_pos" where
  "piece_pos_init pc ind =
    \<lparr>peer_count = pc, downloading = False, full = False, piece_priority = 1, index = ind\<rparr>"

definition piece_picker_new :: piece_picker where
  "piece_picker_new =
    \<lparr>m_seeds = 0, m_pieces = [], m_priority_boundries = [0], m_piece_map = [], m_downloads = [],
     m_block_info = [], m_blocks_per_piece = 0, m_blocks_in_last_piece = 0, m_num_filtered = 0,
     m_num_have_filtered = 0, m_num_have = 0, m_cursor = 0, m_reverse_cursor = 0,
     m_sparse_regions = 1, m_dirty = False\<rparr>"

definition passed :: "piece_pos \<Rightarrow> bool" where
  "passed p \<longleftrightarrow> pos_have p \<or> pos_filtered p"

text \<open>The loops that move a cursor over the pieces we have or do not want.\<close>

function cursor_up :: "piece_pos list \<Rightarrow> nat \<Rightarrow> nat" where
  "cursor_up pmap c = (if c < length pmap \<and> passed (pmap ! c) then cursor_up pmap (c + 1) else c)"
  by pat_completeness auto
termination
  by (relation "measure (\<lambda>(pmap, c). length pmap - c)") auto

declare cursor_up.simps [simp del]

fun cursor_down :: "piece_pos list \<Rightarrow> nat \<Rightarrow> nat" where
  "cursor_down pmap 0 = 0"
| "cursor_down pmap (Suc c) = (if passed (pmap ! c) then cursor_down pmap c else Suc c)"

definition init :: "nat \<Rightarrow> nat \<Rightarrow> nat \<Rightarrow> piece_picker \<Rightarrow> piece_picker" where
  "init blocks_per_piece blocks_in_last_piece total_num_pieces s =
    (let pmap = resize total_num_pieces (piece_pos_init 0 0) (m_piece_map s);
         pmap = map (\<lambda>p. p\<lparr>peer_count := 0, downloading := False, index := 0\<rparr>) pmap
     in s\<lparr>m_piece_map := pmap,
          m_downloads := [],
          m_block_info := [],
          m_num_filtered := m_num_filtered s + m_num_have_filtered s,
          m_num_have_filtered := 0,
          m_num_have := 0,
          m_dirty := True,
          m_cursor := cursor_up pmap 0,
          m_reverse_cursor := cursor_down pmap (length pmap),
          m_blocks_per_piece := blocks_per_piece,
          m_blocks_in_last_piece :=
            (if blocks_in_last_piece = 0 then blocks_per_piece else blocks_in_last_piece)\<rparr>)"

definition blocks_in_piece :: "nat \<Rightarrow> piece_picker \<Rightarrow> nat" where
  "blocks_in_piece i s =
    (if i + 1 = num_pieces s then m_blocks_in_last_piece s else m_blocks_per_piece s)"

text \<open>\<open>piece_info\<close>: the counters of a piece, without the pointer to its blocks.\<close>

definition piece_info :: "nat \<Rightarrow> piece_picker \<Rightarrow> piece_state_t \<Rightarrow> downloading_piece" where
  "piece_info i s st =
    (case (if downloading (m_piece_map s ! i) then find_dl_piece i s else None) of
       Some k \<Rightarrow> (m_downloads s ! k)\<lparr>info := 0\<rparr>
     | None \<Rightarrow>
         \<lparr>dl_state = st, dl_index = i, info = 0,
          finished = (if pos_have (m_piece_map s ! i) then int (blocks_in_piece i s) else 0),
          writing = 0, requested = 0\<rparr>)"

text \<open>A piece whose priority changed from \<open>prev_priority\<close> is queued or moved.\<close>

definition requeue :: "nat \<Rightarrow> int \<Rightarrow> nat \<Rightarrow> piece_picker \<Rightarrow> piece_picker" where
  "requeue rnd prev_priority i s =
    (if prev_priority = - 1 then add rnd i s
     else update rnd (nat prev_priority) (index (m_piece_map s ! i)) s)"

definition restore_piece :: "nat \<Rightarrow> nat \<Rightarrow> piece_picker \<Rightarrow> piece_picker" where
  "restore_piece rnd i s =
    (case find_dl_piece i s of
       None \<Rightarrow> s
     | Some k \<Rightarrow>
         let prev_priority = prio_of s i;
             s = erase_download_piece k s;
             new_priority = prio_of s i
         in if new_priority = prev_priority then s
            else if m_dirty s then s
            else requeue rnd prev_priority i s)"

definition inc_refcount_all :: "piece_picker \<Rightarrow> piece_picker" where
  "inc_refcount_all s =
    (let s = s\<lparr>m_seeds := m_seeds s + 1\<rparr>
     in if m_seeds s = 1 then s\<lparr>m_dirty := True\<rparr> else s)"

definition dec_refcount_all :: "piece_picker \<Rightarrow> piece_picker" where
  "dec_refcount_all s =
    (if 0 < m_seeds s then
       let s = s\<lparr>m_seeds := m_seeds s - 1\<rparr>
       in if m_seeds s = 0 then s\<lparr>m_dirty := True\<rparr> else s
     else s\<lparr>m_piece_map := map dec_peer_count (m_piece_map s), m_dirty := True\<rparr>)"

definition set_piece :: "nat \<Rightarrow> (piece_pos \<Rightarrow> piece_pos) \<Rightarrow> piece_picker \<Rightarrow> piece_picker" where
  "set_piece i f s = s\<lparr>m_piece_map := (m_piece_map s)[i := f (m_piece_map s ! i)]\<rparr>"

definition inc_refcount :: "nat \<Rightarrow> nat \<Rightarrow> piece_picker \<Rightarrow> piece_picker" where
  "inc_refcount rnd i s =
    (let prev_priority = prio_of s i;
         s = set_piece i inc_peer_count s
     in if m_dirty s then s
        else if prev_priority = prio_of s i then s
        else requeue rnd prev_priority i s)"

definition dec_refcount :: "nat \<Rightarrow> nat \<Rightarrow> piece_picker \<Rightarrow> piece_picker" where
  "dec_refcount rnd i s =
    (let prev_priority = prio_of s i;
         s = set_piece i dec_peer_count s
     in if m_dirty s then s
        else if prev_priority \<ge> 0
        then update rnd (nat prev_priority) (index (m_piece_map s ! i)) s
        else s)"

text \<open>The variants for a whole bitfield; the bits beyond the pieces are never set.\<close>

definition inc_refcount_bits :: "bool list \<Rightarrow> piece_picker \<Rightarrow> piece_picker" where
  "inc_refcount_bits bitmask s =
    (let s = s\<lparr>m_piece_map := map2 (\<lambda>b p. if b then inc_peer_count p else p) bitmask (m_piece_map s)\<rparr>
     in if True \<in> set bitmask then s\<lparr>m_dirty := True\<rparr> else s)"

definition dec_refcount_bits :: "bool list \<Rightarrow> piece_picker \<Rightarrow> piece_picker" where
  "dec_refcount_bits bitmask s =
    (let s = s\<lparr>m_piece_map := map2 (\<lambda>b p. if b then dec_peer_count p else p) bitmask (m_piece_map s)\<rparr>
     in if True \<in> set bitmask then s\<lparr>m_dirty := True\<rparr> else s)"

text \<open>The cursors are moved to include piece \<open>i\<close>, which is wanted again.\<close>

definition enter_cursors :: "nat \<Rightarrow> piece_picker \<Rightarrow> piece_picker" where
  "enter_cursors i s =
    (let cursor = (if i < m_cursor s then i else m_cursor s);
         reverse_cursor = (if m_reverse_cursor s \<le> i then i + 1 else m_reverse_cursor s)
     in if reverse_cursor = cursor
        then s\<lparr>m_reverse_cursor := 0, m_cursor := num_pieces s\<rparr>
        else s\<lparr>m_reverse_cursor := reverse_cursor, m_cursor := cursor\<rparr>)"

definition we_dont_have :: "nat \<Rightarrow> nat \<Rightarrow> piece_picker \<Rightarrow> piece_picker" where
  "we_dont_have rnd i s =
    (let p = m_piece_map s ! i
     in if \<not> pos_have p then s
        else
          let s = (if pos_filtered p
                   then s\<lparr>m_num_filtered := m_num_filtered s + 1,
                          m_num_have_filtered := m_num_have_filtered s - 1\<rparr>
                   else enter_cursors i s);
              s = set_piece i set_not_have (s\<lparr>m_num_have := m_num_have s - 1\<rparr>)
          in if m_dirty s then s
             else if prio_of s i \<ge> 0 then add rnd i s
             else s)"

text \<open>The number of runs of missing pieces, kept by \<open>we_have\<close> (the block on \<open>m_sparse_regions\<close>).\<close>

definition we_have_regions :: "nat \<Rightarrow> piece_pos list \<Rightarrow> int \<Rightarrow> int" where
  "we_have_regions i pmap regions =
    (if i = 0 then
       (if i = length pmap - 1 \<or> pos_have (pmap ! (i + 1)) then regions - 1 else regions)
     else if i = length pmap - 1 then
       (if i = 0 \<or> pos_have (pmap ! (i - 1)) then regions - 1 else regions)
     else
       let have_before = pos_have (pmap ! (i - 1));
           have_after = pos_have (pmap ! (i + 1))
       in if have_after \<and> have_before then regions - 1
          else if \<not> have_after \<and> \<not> have_before then regions + 1
          else regions)"

text \<open>The cursors step over piece \<open>i\<close>, which is no longer wanted.\<close>

definition leave_cursors :: "nat \<Rightarrow> piece_picker \<Rightarrow> piece_picker" where
  "leave_cursors i s =
    (if m_cursor s + 1 = m_reverse_cursor s \<and> m_cursor s = i
     then s\<lparr>m_cursor := num_pieces s, m_reverse_cursor := 0\<rparr>
     else if m_cursor s = i
     then s\<lparr>m_cursor := cursor_up (m_piece_map s) (m_cursor s + 1)\<rparr>
     else if m_reverse_cursor s = i + 1
     then s\<lparr>m_reverse_cursor := cursor_down (m_piece_map s) (m_reverse_cursor s - 1)\<rparr>
     else s)"

definition we_have :: "nat \<Rightarrow> piece_picker \<Rightarrow> piece_picker" where
  "we_have i s =
    (let info_index = index (m_piece_map s ! i);
         priority = prio_of s i;
         s = (if downloading (m_piece_map s ! i)
              then case find_dl_piece i s of Some k \<Rightarrow> erase_download_piece k s | None \<Rightarrow> s
              else s);
         p = m_piece_map s ! i
     in if pos_have p then s
        else
          let s = s\<lparr>m_sparse_regions := we_have_regions i (m_piece_map s) (m_sparse_regions s)\<rparr>;
              s = (if pos_filtered p
                   then s\<lparr>m_num_filtered := m_num_filtered s - 1,
                          m_num_have_filtered := m_num_have_filtered s + 1\<rparr>
                   else s);
              s = set_piece i set_have (s\<lparr>m_num_have := m_num_have s + 1\<rparr>);
              s = leave_cursors i s
          in if priority = - 1 then s
             else if m_dirty s then s
             else remove (nat priority) info_index s)"

definition set_piece_priority :: "nat \<Rightarrow> nat \<Rightarrow> nat \<Rightarrow> piece_picker \<Rightarrow> bool \<times> piece_picker" where
  "set_piece_priority rnd i new_piece_priority s =
    (let p = m_piece_map s ! i
     in if new_piece_priority = piece_priority p then (False, s)
        else
          let prev_priority = prio_of s i;
              (ret, s) =
                (if new_piece_priority = 0 \<and> piece_priority p \<noteq> 0 then
                   (True,
                    if pos_have p then s\<lparr>m_num_have_filtered := m_num_have_filtered s + 1\<rparr>
                    else leave_cursors i (s\<lparr>m_num_filtered := m_num_filtered s + 1\<rparr>))
                 else if new_piece_priority \<noteq> 0 \<and> piece_priority p = 0 then
                   (True,
                    if pos_have p then s\<lparr>m_num_have_filtered := m_num_have_filtered s - 1\<rparr>
                    else enter_cursors i (s\<lparr>m_num_filtered := m_num_filtered s - 1\<rparr>))
                 else (False, s));
              s = set_piece i (\<lambda>p. p\<lparr>piece_priority := new_piece_priority\<rparr>) s;
              new_priority = prio_of s i
          in if prev_priority = new_priority then (ret, s)
             else if m_dirty s then (ret, s)
             else (ret, requeue rnd prev_priority i s))"

definition piece_priorities :: "piece_picker \<Rightarrow> nat list" where
  "piece_priorities s = map piece_priority (m_piece_map s)"

definition filtered_pieces :: "piece_picker \<Rightarrow> bool list" where
  "filtered_pieces s = map pos_filtered (m_piece_map s)"

definition get_availability :: "piece_picker \<Rightarrow> nat list" where
  "get_availability s = map (\<lambda>p. peer_count p + m_seeds s) (m_piece_map s)"

text \<open>\<open>distributed_copies\<close>: the loop state is (\<open>min_availability\<close>, \<open>integer_part\<close>, \<open>fraction_part\<close>).\<close>

definition copies_step :: "nat \<times> nat \<times> nat \<Rightarrow> piece_pos \<Rightarrow> nat \<times> nat \<times> nat" where
  "copies_step = (\<lambda>(min_availability, integer_part, fraction_part) p.
     let count = peer_count p + (if pos_have p then 1 else 0)
     in if count < min_availability then (count, 1, fraction_part + integer_part)
        else if count = min_availability then (min_availability, integer_part + 1, fraction_part)
        else (min_availability, integer_part, fraction_part + 1))"

definition distributed_copies :: "piece_picker \<Rightarrow> nat \<times> nat" where
  "distributed_copies s =
    (if num_pieces s = 0 then (1, 0)
     else
       let (min_availability, integer_part, fraction_part) =
             foldl copies_step (max_peer_count, 0, 0) (m_piece_map s)
       in (min_availability + m_seeds s, fraction_part * 1000 div num_pieces s))"

section \<open>Counts and cursors\<close>

definition counts_ok :: "piece_picker \<Rightarrow> bool" where
  "counts_ok s \<longleftrightarrow>
     m_num_have s = int (length (filter pos_have (m_piece_map s)))
     \<and> m_num_filtered s = int (length (filter (\<lambda>p. pos_filtered p \<and> \<not> pos_have p) (m_piece_map s)))
     \<and> m_num_have_filtered s = int (length (filter (\<lambda>p. pos_filtered p \<and> pos_have p) (m_piece_map s)))"

definition cursor_at :: "piece_pos list \<Rightarrow> nat \<Rightarrow> bool" where
  "cursor_at m c \<longleftrightarrow> c \<le> length m \<and> (\<forall>i < c. passed (m ! i)) \<and> (c < length m \<longrightarrow> \<not> passed (m ! c))"

definition rcursor_at :: "piece_pos list \<Rightarrow> nat \<Rightarrow> bool" where
  "rcursor_at m r \<longleftrightarrow> r \<le> length m \<and> (\<forall>i < length m. r \<le> i \<longrightarrow> passed (m ! i))
     \<and> (0 < r \<longrightarrow> \<not> passed (m ! (r - 1)))"

definition cursors_ok :: "piece_picker \<Rightarrow> bool" where
  "cursors_ok s \<longleftrightarrow> cursor_at (m_piece_map s) (m_cursor s) \<and> rcursor_at (m_piece_map s) (m_reverse_cursor s)"

lemma length_filter_update:
  assumes "i < length m"
  shows "int (length (filter P (m[i := p]))) =
    int (length (filter P m)) - (if P (m ! i) then 1 else 0) + (if P p then 1 else 0)"
proof -
  have "filter P m = filter P (take i m @ m ! i # drop (Suc i) m)" using id_take_nth_drop [OF assms] by simp
  moreover have "filter P (m[i := p]) = filter P (take i m @ p # drop (Suc i) m)"
    using upd_conv_take_nth_drop [OF assms] by simp
  ultimately show ?thesis by simp
qed

lemma cursor_up_at:
  "c \<le> length m \<Longrightarrow> \<forall>i < c. passed (m' ! i) \<Longrightarrow> \<forall>i. c \<le> i \<longrightarrow> m' ! i = m ! i \<Longrightarrow> length m' = length m \<Longrightarrow>
   cursor_at m' (cursor_up m c)"
proof (induction m c rule: cursor_up.induct)
  case (1 m c)
  show ?case
  proof (cases "c < length m \<and> passed (m ! c)")
    case True
    then show ?thesis using 1 by (subst cursor_up.simps) (auto simp: less_Suc_eq)
  next
    case False
    then show ?thesis using 1 by (subst cursor_up.simps) (auto simp: cursor_at_def)
  qed
qed

lemma cursor_down_at:
  "r \<le> length m' \<Longrightarrow> \<forall>i < length m'. r \<le> i \<longrightarrow> passed (m' ! i) \<Longrightarrow> \<forall>i < r. m' ! i = m ! i \<Longrightarrow>
   rcursor_at m' (cursor_down m r)"
proof (induction m r rule: cursor_down.induct)
  case (1 m)
  then show ?case by (simp add: rcursor_at_def)
next
  case (2 m r)
  show ?case
  proof (cases "passed (m ! r)")
    case True
    then have "rcursor_at m' (cursor_down m r)"
      using 2 by (intro 2(1)) (auto simp: Suc_le_eq le_less)
    then show ?thesis using True by simp
  next
    case False
    then show ?thesis using 2 by (simp add: rcursor_at_def)
  qed
qed

lemma cursor_order:
  assumes "cursor_at m c" "rcursor_at m r" "i < length m" "\<not> passed (m ! i)"
  shows "c \<le> i" "i < r"
  using assms by (auto simp: cursor_at_def rcursor_at_def not_less [symmetric])

lemma cursor_cong:
  assumes "map passed m' = map passed m"
  shows "cursor_at m' c = cursor_at m c" "rcursor_at m' r = rcursor_at m r"
proof -
  have "length m' = length m" "\<And>q. q < length m \<Longrightarrow> passed (m' ! q) = passed (m ! q)"
    using assms map_eq_imp_length_eq [OF assms] by (auto simp: list_eq_iff_nth_eq)
  then show "cursor_at m' c = cursor_at m c" "rcursor_at m' r = rcursor_at m r"
    by (auto simp: cursor_at_def rcursor_at_def)
qed

lemma leave_cursors_ok:
  assumes c: "cursor_at m0 (m_cursor s)" "rcursor_at m0 (m_reverse_cursor s)"
    and i: "i < length m0" "\<not> passed (m0 ! i)" and m: "m = m0[i := p]" "passed p"
    and s: "m_piece_map s = m \<or> m_piece_map s = m0"
  shows "cursor_at m (m_cursor (leave_cursors i s)) \<and> rcursor_at m (m_reverse_cursor (leave_cursors i s))"
proof -
  let ?c = "m_cursor s" and ?r = "m_reverse_cursor s"
  note ci = cursor_order [OF c i]
  have len: "length m = length m0" "num_pieces s = length m0" using m(1) s by auto
  have other: "m ! k = m0 ! k" "m_piece_map s ! k = m0 ! k" if "k \<noteq> i" for k using that m(1) s by auto
  have at: "m ! i = p" using m(1) i(1) by simp
  consider (only) "?c + 1 = ?r" "?c = i" | (first) "?c = i" "?c + 1 \<noteq> ?r"
    | (last) "?c \<noteq> i" "?r = i + 1" | (mid) "?c \<noteq> i" "?r \<noteq> i + 1" by auto
  then show ?thesis
  proof cases
    case only
    have "passed (m ! k)" if "k < length m0" for k
      using c other [of k] that at m(2) only by (cases "k < i"; cases "k = i") (auto simp: cursor_at_def rcursor_at_def)
    then show ?thesis using only len by (simp add: leave_cursors_def cursor_at_def rcursor_at_def)
  next
    case first
    have "passed (m ! k)" if "k < ?c + 1" for k
      using c other [of k] that at m(2) first(1) by (cases "k = i") (auto simp: cursor_at_def)
    then have "cursor_at m (cursor_up (m_piece_map s) (?c + 1))"
      using first(1) i len other by (intro cursor_up_at) auto
    moreover have "rcursor_at m ?r"
      using c(2) ci first len other m(2) at by (auto simp: rcursor_at_def)
    ultimately show ?thesis using first by (simp add: leave_cursors_def)
  next
    case last
    have "rcursor_at m (cursor_down (m_piece_map s) (?r - 1))"
    proof (rule cursor_down_at)
      show "\<forall>k < length m. ?r - 1 \<le> k \<longrightarrow> passed (m ! k)"
        using c(2) last other at m(2) len by (metis diff_add_inverse2 le_neq_implies_less le_Suc_eq
          Suc_eq_plus1 Suc_leI rcursor_at_def)
    qed (use last i len other in auto)
    moreover have "cursor_at m ?c"
      using c(1) ci last len other m(2) at by (auto simp: cursor_at_def)
    ultimately show ?thesis using last by (simp add: leave_cursors_def)
  next
    case mid
    then have "cursor_at m ?c" "rcursor_at m ?r"
      using c ci len other m(2) at by (auto simp: cursor_at_def rcursor_at_def)
    then show ?thesis using mid by (simp add: leave_cursors_def)
  qed
qed

lemma enter_cursors_ok:
  assumes c: "cursor_at m0 (m_cursor s)" "rcursor_at m0 (m_reverse_cursor s)"
    and i: "i < length m0" "passed (m0 ! i)" and m: "m = m0[i := p]" "\<not> passed p"
  shows "cursor_at m (m_cursor (enter_cursors i s)) \<and> rcursor_at m (m_reverse_cursor (enter_cursors i s))"
proof -
  let ?c = "if i < m_cursor s then i else m_cursor s"
  let ?r = "if m_reverse_cursor s \<le> i then i + 1 else m_reverse_cursor s"
  have ne: "?r \<noteq> ?c" by auto
  have other: "m ! k = m0 ! k" if "k \<noteq> i" for k using that m(1) by auto
  have "m ! i = p" "length m = length m0" using m(1) i(1) by simp_all
  moreover have "m_cursor s \<noteq> i" using c(1) i by (auto simp: cursor_at_def)
  moreover have "m_reverse_cursor s \<noteq> i + 1" using c(2) i by (auto simp: rcursor_at_def)
  ultimately have "cursor_at m ?c" "rcursor_at m ?r"
    using c i m(2) other by (auto simp: cursor_at_def rcursor_at_def)
  then show ?thesis using ne by (simp add: enter_cursors_def Let_def)
qed

section \<open>The invariant\<close>

definition count_state :: "block_state \<Rightarrow> block_info list \<Rightarrow> int" where
  "count_state st bs = int (length (filter (\<lambda>b. block_state b = st) bs))"

definition peers_ok :: "block_info \<Rightarrow> bool" where
  "peers_ok b \<longleftrightarrow> (0 < num_peers b \<longleftrightarrow> block_state b = state_requested)"

definition view_ok :: "nat \<Rightarrow> download \<Rightarrow> bool" where
  "view_ok n v \<longleftrightarrow>
     v_finished v = count_state state_finished (take n (v_blocks v))
     \<and> v_writing v = count_state state_writing (take n (v_blocks v))
     \<and> v_requested v = count_state state_requested (take n (v_blocks v))
     \<and> (v_requested v \<noteq> 0 \<longleftrightarrow> v_state v \<noteq> ps_none)
     \<and> (\<forall>j < n. peers_ok (v_blocks v ! j))"

definition taken :: "download \<Rightarrow> int" where
  "taken v = v_requested v + v_finished v + v_writing v"

definition views_ok :: "piece_picker \<Rightarrow> bool" where
  "views_ok s \<longleftrightarrow> (\<forall>p v. dl_view s p = Some v \<longrightarrow> view_ok (blocks_in_piece p s) v)"

text \<open>A piece marked \<open>full\<close> has no block left to request.\<close>

definition full_ok :: "piece_picker \<Rightarrow> bool" where
  "full_ok s \<longleftrightarrow> (\<forall>p \<in> dl_index ` set (m_downloads s). full (m_piece_map s ! p) \<longrightarrow>
     taken (the (dl_view s p)) = int (blocks_in_piece p s))"

definition base_ok :: "piece_picker \<Rightarrow> bool" where
  "base_ok s \<longleftrightarrow> pieces_ok (m_piece_map s) \<and> counts_ok s \<and> cursors_ok s \<and> dl_ok s \<and> views_ok s
     \<and> (\<forall>p \<in> set (m_piece_map s). pos_have p \<longrightarrow> \<not> downloading p)
     \<and> 0 < m_blocks_in_last_piece s \<and> m_blocks_in_last_piece s \<le> m_blocks_per_piece s"

definition picker_ok :: "piece_picker \<Rightarrow> bool" where
  "picker_ok s \<longleftrightarrow> base_ok s \<and> (m_dirty s \<or> queue_ok s)"

text \<open>What the invariant without the queue reads of a piece, and of the picker.\<close>

definition flags :: "piece_pos \<Rightarrow> bool \<times> nat \<times> bool" where
  "flags p = (pos_have p, piece_priority p, downloading p)"

definition same_base :: "piece_picker \<Rightarrow> piece_picker \<Rightarrow> bool" where
  "same_base s s' \<longleftrightarrow> map flags (m_piece_map s') = map flags (m_piece_map s)
     \<and> m_num_have s' = m_num_have s \<and> m_num_filtered s' = m_num_filtered s
     \<and> m_num_have_filtered s' = m_num_have_filtered s \<and> m_cursor s' = m_cursor s
     \<and> m_reverse_cursor s' = m_reverse_cursor s \<and> m_downloads s' = m_downloads s
     \<and> m_block_info s' = m_block_info s \<and> m_blocks_per_piece s' = m_blocks_per_piece s
     \<and> m_blocks_in_last_piece s' = m_blocks_in_last_piece s"

lemma map_flags_nth:
  assumes "map flags m' = map flags m"
  shows "length m' = length m" "\<And>q. q < length m \<Longrightarrow> flags (m' ! q) = flags (m ! q)"
  using assms map_eq_imp_length_eq [OF assms] by (auto simp: list_eq_iff_nth_eq)

lemma filter_length_cong:
  assumes "map f m' = map f m" "\<And>p q. f p = f q \<Longrightarrow> P p = P q"
  shows "length (filter P m') = length (filter P m)"
  using assms(1)
proof (induction m' arbitrary: m)
  case (Cons p m')
  obtain q n where m: "m = q # n" "f p = f q" "map f m' = map f n"
    using Cons.prems by (cases m) auto
  show ?case unfolding m(1) using assms(2) [OF m(2)] Cons.IH [OF m(3)] by simp
qed simp

definition wants :: "piece_pos \<Rightarrow> bool \<times> nat" where
  "wants p = (pos_have p, piece_priority p)"

lemma counts_cursors_cong:
  assumes w: "map wants (m_piece_map s') = map wants (m_piece_map s)"
    and f: "m_num_have s' = m_num_have s" "m_num_filtered s' = m_num_filtered s"
      "m_num_have_filtered s' = m_num_have_filtered s" "m_cursor s' = m_cursor s"
      "m_reverse_cursor s' = m_reverse_cursor s"
  shows "counts_ok s \<Longrightarrow> counts_ok s'" "cursors_ok s \<Longrightarrow> cursors_ok s'"
proof -
  have "length (filter pos_have (m_piece_map s')) = length (filter pos_have (m_piece_map s))"
    "length (filter (\<lambda>p. pos_filtered p \<and> \<not> pos_have p) (m_piece_map s')) =
      length (filter (\<lambda>p. pos_filtered p \<and> \<not> pos_have p) (m_piece_map s))"
    "length (filter (\<lambda>p. pos_filtered p \<and> pos_have p) (m_piece_map s')) =
      length (filter (\<lambda>p. pos_filtered p \<and> pos_have p) (m_piece_map s))"
    by (rule filter_length_cong [OF w], simp add: wants_def pos_filtered_def)+
  then show "counts_ok s \<Longrightarrow> counts_ok s'" using f by (simp add: counts_ok_def)
  have len: "num_pieces s' = num_pieces s" using map_eq_imp_length_eq [OF w] .
  have "passed (m_piece_map s' ! q) = passed (m_piece_map s ! q)" if "q < num_pieces s" for q
    using w len that by (auto simp: list_eq_iff_nth_eq wants_def passed_def pos_filtered_def)
  then show "cursors_ok s \<Longrightarrow> cursors_ok s'"
    using f len by (auto simp: cursors_ok_def cursor_at_def rcursor_at_def)
qed

lemma same_base_ok:
  assumes "same_base s s'" "base_ok s"
  shows "base_ok s'"
proof -
  have fl: "map flags (m_piece_map s') = map flags (m_piece_map s)" using assms(1) by (simp add: same_base_def)
  note nth = map_flags_nth [OF fl]
  have q: "pos_have (m_piece_map s' ! q) = pos_have (m_piece_map s ! q)"
    "piece_priority (m_piece_map s' ! q) = piece_priority (m_piece_map s ! q)"
    "downloading (m_piece_map s' ! q) = downloading (m_piece_map s ! q)" if "q < num_pieces s" for q
    using nth(2) [OF that] by (simp_all add: flags_def)
  have "map wants (m_piece_map s') = map wants (m_piece_map s)"
    using nth(1) q(1,2) by (simp add: list_eq_iff_nth_eq wants_def)
  from counts_cursors_cong [OF this] have cnt: "counts_ok s'" and cur: "cursors_ok s'"
    using assms by (simp_all add: base_ok_def same_base_def)
  have dl: "dl_ok s'" using assms q(3) nth(1) by (auto simp: base_ok_def same_base_def dl_ok_def)
  have view: "dl_view s' = dl_view s" using assms(1) by (simp add: same_base_def dl_view_def fun_eq_iff)
  have bip: "blocks_in_piece p s' = blocks_in_piece p s" for p
    using assms(1) nth(1) by (simp add: same_base_def blocks_in_piece_def)
  have vi: "views_ok s'"
    using assms(2) by (simp add: base_ok_def views_ok_def view bip)
  have pi: "pieces_ok (m_piece_map s')" "\<forall>p \<in> set (m_piece_map s'). pos_have p \<longrightarrow> \<not> downloading p"
    using assms(2) q nth(1) unfolding base_ok_def pieces_ok_def
    by (metis in_set_conv_nth, metis in_set_conv_nth)
  show ?thesis using cnt cur dl vi pi assms by (simp add: base_ok_def same_base_def)
qed

lemma same_pieces_flags:
  assumes "same_pieces m m'"
  shows "map flags m' = map flags m"
proof -
  have "flags (m' ! q) = flags (m ! q)" if q: "q < length m" for q
  proof -
    obtain k where "m' ! q = (m ! q)\<lparr>index := k\<rparr>" "pos_have (m' ! q) = pos_have (m ! q)"
      using assms q unfolding same_pieces_def by blast
    then show ?thesis by (simp add: flags_def)
  qed
  then show ?thesis using assms by (auto simp: same_pieces_def list_eq_iff_nth_eq)
qed

lemma requeued_same_base:
  assumes "requeued s s'"
  shows "same_base s s'" "m_dirty s' = m_dirty s" "m_seeds s' = m_seeds s"
    "m_sparse_regions s' = m_sparse_regions s"
proof -
  have oq: "only_queue s s'" and sp: "same_pieces (m_piece_map s) (m_piece_map s')"
    using assms by (simp_all add: requeued_def)
  have "map flags (m_piece_map s') = map flags (m_piece_map s)" using sp by (rule same_pieces_flags)
  moreover obtain a b c where "s' = s\<lparr>m_pieces := a, m_priority_boundries := b, m_piece_map := c\<rparr>"
    using oq unfolding only_queue_def by blast
  ultimately show "same_base s s'" "m_dirty s' = m_dirty s" "m_seeds s' = m_seeds s"
    "m_sparse_regions s' = m_sparse_regions s"
    by (simp_all add: same_base_def)
qed

lemma requeue_step:
  assumes ok: "picker_ok s0" "base_ok s" and ch: "piece_changed i s0 s"
    and idx: "index (m_piece_map s ! i) = index (m_piece_map s0 ! i)" and d: "m_dirty s = m_dirty s0"
  shows "picker_ok (if m_dirty s then s else if prio_of s0 i = prio_of s i then s
     else requeue rnd (prio_of s0 i) i s)"
proof (cases "m_dirty s")
  case True
  then show ?thesis using ok(2) by (simp add: picker_ok_def)
next
  case False
  have qo: "queue_ok s0" using ok(1) False d by (simp add: picker_ok_def)
  have po: "pieces_ok (m_piece_map s)" using ok(2) by (simp add: base_ok_def)
  have ge: "- 1 \<le> prio_of s i" "- 1 \<le> prio_of s0 i"
    using qo po piece_changedD(1,6) [OF ch] unfolding prio_of_def pieces_ok_def queue_ok_def
    by (auto intro!: priority_ge)
  consider "prio_of s0 i = prio_of s i" | "prio_of s0 i \<noteq> prio_of s i" "prio_of s0 i = - 1"
    | "prio_of s0 i \<noteq> prio_of s i" "0 \<le> prio_of s0 i" using ge by fastforce
  then show ?thesis
  proof cases
    case 1
    then show ?thesis using False same_index_ok [OF qo po ch idx] ok(2) by (simp add: picker_ok_def)
  next
    case 2
    then have "queue_ok (add rnd i s) \<and> requeued s (add rnd i s)"
      using add_ok [OF qo po ch] ge by simp
    then show ?thesis using 2 False same_base_ok [OF _ ok(2)] requeued_same_base
      by (auto simp: requeue_def picker_ok_def)
  next
    case 3
    then have "queue_ok (update rnd (nat (prio_of s0 i)) (index (m_piece_map s ! i)) s)
      \<and> requeued s (update rnd (nat (prio_of s0 i)) (index (m_piece_map s ! i)) s)"
      using update_ok [OF qo po ch, of "nat (prio_of s0 i)" rnd] idx by simp
    then show ?thesis using 3 False same_base_ok [OF _ ok(2)] requeued_same_base
      by (auto simp: requeue_def picker_ok_def)
  qed
qed

section \<open>Every operation keeps the invariant\<close>

lemma piece_changed_set_piece:
  "i < num_pieces s \<Longrightarrow> piece_changed i s (set_piece i f s)"
  by (simp add: piece_changed_def agree_except_def set_piece_def)

lemma set_piece_same_base:
  "i < num_pieces s \<Longrightarrow> flags (f (m_piece_map s ! i)) = flags (m_piece_map s ! i) \<Longrightarrow> same_base s (set_piece i f s)"
  by (simp add: same_base_def set_piece_def map_update list_update_same_conv)

lemma set_piece_simps [simp]:
  "num_pieces (set_piece i f s) = num_pieces s" "m_dirty (set_piece i f s) = m_dirty s"
  "m_seeds (set_piece i f s) = m_seeds s"
  "i < num_pieces s \<Longrightarrow> m_piece_map (set_piece i f s) ! i = f (m_piece_map s ! i)"
  by (simp_all add: set_piece_def)

lemma update_step:
  assumes ok: "picker_ok s0" "base_ok s" and ch: "piece_changed i s0 s"
    and idx: "index (m_piece_map s ! i) = index (m_piece_map s0 ! i)" and d: "m_dirty s = m_dirty s0"
    and new: "prio_of s0 i = - 1 \<Longrightarrow> prio_of s i = - 1"
    and s': "s' = (if \<not> m_dirty s \<and> 0 \<le> prio_of s0 i
      then update rnd (nat (prio_of s0 i)) (index (m_piece_map s ! i)) s else s)"
  shows "picker_ok s'" "requeued s s'"
proof -
  have po: "pieces_ok (m_piece_map s)" using ok(2) by (simp add: base_ok_def)
  have ge: "- 1 \<le> prio_of s0 i"
    using ok(1) piece_changedD(1) [OF ch] unfolding prio_of_def pieces_ok_def picker_ok_def base_ok_def
    by (auto intro!: priority_ge)
  have "picker_ok s' \<and> requeued s s'"
  proof (cases "\<not> m_dirty s \<and> 0 \<le> prio_of s0 i")
    case True
    then have "queue_ok s0" using ok(1) d by (simp add: picker_ok_def)
    from update_ok [OF this po ch, of "nat (prio_of s0 i)" rnd] True idx
    have "queue_ok s' \<and> requeued s s'" using s' by simp
    then show ?thesis using same_base_ok [OF _ ok(2)] requeued_same_base by (auto simp: picker_ok_def)
  next
    case False
    then have "m_dirty s \<or> queue_ok s"
      using ok(1) d new ge same_index_ok [OF _ po ch idx] by (auto simp: picker_ok_def)
    moreover have "s' = s" using s' False by auto
    ultimately show ?thesis using ok(2) by (simp add: picker_ok_def)
  qed
  then show "picker_ok s'" "requeued s s'" by simp_all
qed

lemma inc_refcount_ok:
  assumes "picker_ok s" "i < num_pieces s"
  shows "picker_ok (inc_refcount rnd i s)"
proof -
  let ?s = "set_piece i inc_peer_count s"
  have "same_base s ?s" using assms(2) by (intro set_piece_same_base) (simp_all add: flags_def inc_peer_count_def pos_have_def)
  then have base: "base_ok ?s" using assms(1) by (auto simp: picker_ok_def intro: same_base_ok)
  have "index (m_piece_map ?s ! i) = index (m_piece_map s ! i)" using assms(2) by (simp add: inc_peer_count_def)
  from requeue_step [OF assms(1) base piece_changed_set_piece [OF assms(2)] this, of rnd]
  show ?thesis by (simp add: inc_refcount_def Let_def)
qed

lemma dec_refcount_ok:
  assumes "picker_ok s" "i < num_pieces s" "0 < peer_count (m_piece_map s ! i)"
  shows "picker_ok (dec_refcount rnd i s)"
proof -
  let ?s = "set_piece i dec_peer_count s" and ?p = "m_piece_map s ! i"
  have "same_base s ?s" using assms(2) by (intro set_piece_same_base) (simp_all add: flags_def dec_peer_count_def pos_have_def)
  then have base: "base_ok ?s" using assms(1) by (auto simp: picker_ok_def intro: same_base_ok)
  have idx: "index (m_piece_map ?s ! i) = index ?p" using assms(2) by (simp add: dec_peer_count_def)
  have pr: "piece_priority ?p < 8"
    using assms(1,2) by (auto simp: picker_ok_def base_ok_def pieces_ok_def)
  have new: "prio_of ?s i = - 1" if "prio_of s i = - 1"
  proof -
    have "pos_filtered ?p \<or> pos_have ?p"
      using that assms(3) pr by (auto simp: prio_of_def priority_minus_one)
    then show ?thesis using assms(2) pr
      by (auto simp: prio_of_def priority_def dec_peer_count_def pos_have_def pos_filtered_def)
  qed
  show ?thesis
    by (rule update_step [OF assms(1) base piece_changed_set_piece [OF assms(2)] idx _ new, of _ rnd])
      (simp_all add: dec_refcount_def Let_def)
qed


lemma base_okD:
  assumes "base_ok s"
  shows "pieces_ok (m_piece_map s)" "counts_ok s" "cursors_ok s" "dl_ok s" "views_ok s"
    "\<And>i. i < num_pieces s \<Longrightarrow> pos_have (m_piece_map s ! i) \<Longrightarrow> \<not> downloading (m_piece_map s ! i)"
    "0 < m_blocks_in_last_piece s" "m_blocks_in_last_piece s \<le> m_blocks_per_piece s"
    "\<And>i. i < num_pieces s \<Longrightarrow> piece_priority (m_piece_map s ! i) < 8"
  using assms by (auto simp: base_ok_def pieces_ok_def)

lemma dl_lt: "dl_ok s \<Longrightarrow> find_dl_piece p s = Some k \<Longrightarrow> p < num_pieces s \<and> downloading (m_piece_map s ! p)"
  using find_dl_piece_Some [of p s k] by (auto simp: dl_ok_def)

lemma erase_base_ok:
  assumes ok: "base_ok s" and k: "find_dl_piece p s = Some k"
  shows "base_ok (erase_download_piece k s)"
    and "piece_changed p s (erase_download_piece k s)"
    and "m_piece_map (erase_download_piece k s) = set_downloading False p (m_piece_map s)"
    and "m_dirty (erase_download_piece k s) = m_dirty s"
    and "\<not> m_dirty s \<Longrightarrow> m_pieces (erase_download_piece k s) = m_pieces s"
proof -
  note b = base_okD [OF ok]
  note e = erase_download_ok [OF b(4) k]
  have p: "p < num_pieces s" using dl_lt [OF b(4) k] by simp
  obtain ds bl where s': "erase_download_piece k s =
      s\<lparr>m_piece_map := set_downloading False p (m_piece_map s), m_downloads := ds, m_block_info := bl\<rparr>"
    using e(3) by blast
  show "piece_changed p s (erase_download_piece k s)"
    using p by (simp add: s' piece_changed_def agree_except_def set_downloading_def)
  show "m_piece_map (erase_download_piece k s) = set_downloading False p (m_piece_map s)"
    "m_dirty (erase_download_piece k s) = m_dirty s"
    "m_pieces (erase_download_piece k s) = m_pieces s" by (simp_all add: s')
  have "map wants (set_downloading False p (m_piece_map s)) = map wants (m_piece_map s)"
    using p by (auto simp: set_downloading_def wants_def pos_have_def list_eq_iff_nth_eq nth_list_update)
  then have "counts_ok (erase_download_piece k s)" "cursors_ok (erase_download_piece k s)"
    using b(2,3) by (auto simp: s' elim!: counts_cursors_cong [rotated -1])
  moreover have "views_ok (erase_download_piece k s)"
    using b(5) p unfolding views_ok_def e(2)
    by (auto simp: s' blocks_in_piece_def set_downloading_def nth_list_update split: if_splits)
  moreover have "pieces_ok (m_piece_map (erase_download_piece k s))"
    using b(1,9) p by (auto simp: s' pieces_ok_def set_downloading_def in_set_conv_nth nth_list_update)
  moreover have "\<forall>q \<in> set (m_piece_map (erase_download_piece k s)). pos_have q \<longrightarrow> \<not> downloading q"
    using b(6) p
    by (auto simp: s' set_downloading_def in_set_conv_nth nth_list_update pos_have_def split: if_splits)
  ultimately show "base_ok (erase_download_piece k s)" using e(1) b(7,8) by (simp add: base_ok_def s')
qed

lemma restore_piece_ok:
  assumes "picker_ok s"
  shows "picker_ok (restore_piece rnd i s)"
proof (cases "find_dl_piece i s")
  case None
  then show ?thesis using assms by (simp add: restore_piece_def)
next
  case (Some k)
  have base: "base_ok s" using assms by (simp add: picker_ok_def)
  note e = erase_base_ok [OF base Some]
  have "i < num_pieces s" using dl_lt [OF base_okD(4) [OF base] Some] by simp
  then have "index (m_piece_map (erase_download_piece k s) ! i) = index (m_piece_map s ! i)"
    by (simp add: e(3) set_downloading_def)
  from requeue_step [OF assms e(1,2) this e(4), of rnd] show ?thesis
    using Some by (auto simp: restore_piece_def Let_def split: if_splits)
qed


lemma base_ok_piece:
  assumes ok: "base_ok s" and i: "i < num_pieces s" and m: "m_piece_map s' = (m_piece_map s)[i := p]"
    and p: "downloading p = downloading (m_piece_map s ! i)" "piece_priority p < 8" "pos_have p \<Longrightarrow> \<not> downloading p"
    and "counts_ok s'" "cursors_ok s'"
    and f: "m_downloads s' = m_downloads s" "m_block_info s' = m_block_info s"
      "m_blocks_per_piece s' = m_blocks_per_piece s" "m_blocks_in_last_piece s' = m_blocks_in_last_piece s"
  shows "base_ok s'"
proof -
  note b = base_okD [OF ok]
  have dl: "downloading (m_piece_map s' ! q) = downloading (m_piece_map s ! q)" for q
    using m p i by (auto simp: nth_list_update)
  have view: "dl_view s' = dl_view s" using f by (simp add: dl_view_def fun_eq_iff)
  have bip: "blocks_in_piece q s' = blocks_in_piece q s" for q using m f by (simp add: blocks_in_piece_def)
  have "dl_ok s'" using b(4) dl m f by (simp add: dl_ok_def)
  moreover have "views_ok s'" using b(5) by (simp add: views_ok_def view bip)
  moreover have "pieces_ok (m_piece_map s')"
    using b(1,9) p(2) i by (auto simp: m pieces_ok_def in_set_conv_nth nth_list_update)
  moreover have "\<forall>q \<in> set (m_piece_map s'). pos_have q \<longrightarrow> \<not> downloading q"
    using b(6) p(3) i by (auto simp: m in_set_conv_nth nth_list_update split: if_splits)
  ultimately show ?thesis using assms(7,8) b(7,8) f by (simp add: base_ok_def)
qed

lemma piece_changed_fields:
  assumes "i < num_pieces s" "m_piece_map s' = (m_piece_map s)[i := p]" "m_seeds s' = m_seeds s"
    "m_pieces s' = m_pieces s" "m_priority_boundries s' = m_priority_boundries s"
  shows "piece_changed i s s'"
  using assms by (simp add: piece_changed_def agree_except_def)

lemmas count_update = counts_ok_def length_filter_update

lemma enter_cursors_fields [simp]:
  "m_piece_map (enter_cursors i s) = m_piece_map s" "m_seeds (enter_cursors i s) = m_seeds s"
  "m_pieces (enter_cursors i s) = m_pieces s" "m_priority_boundries (enter_cursors i s) = m_priority_boundries s"
  "m_downloads (enter_cursors i s) = m_downloads s" "m_block_info (enter_cursors i s) = m_block_info s"
  "m_blocks_per_piece (enter_cursors i s) = m_blocks_per_piece s"
  "m_blocks_in_last_piece (enter_cursors i s) = m_blocks_in_last_piece s"
  "m_num_have (enter_cursors i s) = m_num_have s" "m_num_filtered (enter_cursors i s) = m_num_filtered s"
  "m_num_have_filtered (enter_cursors i s) = m_num_have_filtered s" "m_dirty (enter_cursors i s) = m_dirty s"
  "m_sparse_regions (enter_cursors i s) = m_sparse_regions s"
  by (simp_all add: enter_cursors_def Let_def)

lemma leave_cursors_fields [simp]:
  "m_piece_map (leave_cursors i s) = m_piece_map s" "m_seeds (leave_cursors i s) = m_seeds s"
  "m_pieces (leave_cursors i s) = m_pieces s" "m_priority_boundries (leave_cursors i s) = m_priority_boundries s"
  "m_downloads (leave_cursors i s) = m_downloads s" "m_block_info (leave_cursors i s) = m_block_info s"
  "m_blocks_per_piece (leave_cursors i s) = m_blocks_per_piece s"
  "m_blocks_in_last_piece (leave_cursors i s) = m_blocks_in_last_piece s"
  "m_num_have (leave_cursors i s) = m_num_have s" "m_num_filtered (leave_cursors i s) = m_num_filtered s"
  "m_num_have_filtered (leave_cursors i s) = m_num_have_filtered s" "m_dirty (leave_cursors i s) = m_dirty s"
  "m_sparse_regions (leave_cursors i s) = m_sparse_regions s"
  by (simp_all add: leave_cursors_def)

lemma we_dont_have_ok:
  assumes ok: "picker_ok s" and i: "i < num_pieces s"
  shows "picker_ok (we_dont_have rnd i s)"
proof (cases "pos_have (m_piece_map s ! i)")
  case False
  then show ?thesis using ok by (simp add: we_dont_have_def)
next
  case True
  let ?p = "m_piece_map s ! i"
  have base: "base_ok s" using ok by (simp add: picker_ok_def)
  note b = base_okD [OF base]
  define s1 where "s1 = (if pos_filtered ?p
    then s\<lparr>m_num_filtered := m_num_filtered s + 1, m_num_have_filtered := m_num_have_filtered s - 1\<rparr>
    else enter_cursors i s)"
  define s2 where "s2 = set_piece i set_not_have (s1\<lparr>m_num_have := m_num_have s1 - 1\<rparr>)"
  have wd: "we_dont_have rnd i s = (if m_dirty s2 then s2 else if 0 \<le> prio_of s2 i then add rnd i s2 else s2)"
    using True by (simp add: we_dont_have_def Let_def s1_def [symmetric] s2_def)
  have m2: "m_piece_map s2 = (m_piece_map s)[i := set_not_have ?p]"
    by (simp add: s2_def s1_def set_piece_def)
  have nh: "\<not> pos_have (set_not_have ?p)" by (simp add: set_not_have_def pos_have_def we_have_index_def)
  have f: "pos_filtered (set_not_have ?p) = pos_filtered ?p" by (simp add: set_not_have_def pos_filtered_def)
  have cnt: "counts_ok s2"
    using b(2) i True nh f unfolding counts_ok_def m2 length_filter_update [OF i]
    by (auto simp: s2_def s1_def set_piece_def)
  have cur: "cursors_ok s2"
  proof (cases "pos_filtered ?p")
    case True
    have "map passed ((m_piece_map s)[i := set_not_have ?p]) = map passed (m_piece_map s)"
      using i True f by (intro map_dl_update) (auto simp: passed_def)
    from cursor_cong [OF this] show ?thesis using b(3) True
      by (simp add: cursors_ok_def m2) (simp add: s2_def s1_def set_piece_def)
  next
    case False
    have "cursor_at (m_piece_map s2) (m_cursor (enter_cursors i s)) \<and> rcursor_at (m_piece_map s2) (m_reverse_cursor (enter_cursors i s))"
      using b(3) i True False nh f unfolding cursors_ok_def m2
      by (intro enter_cursors_ok) (auto simp: passed_def)
    then show ?thesis using False by (simp add: cursors_ok_def) (simp add: s2_def s1_def set_piece_def)
  qed
  have base2: "base_ok s2"
    by (rule base_ok_piece [OF base i m2 _ _ _ cnt cur])
      (use b(9) [OF i] nh in \<open>simp_all add: set_not_have_def s2_def s1_def set_piece_def\<close>)
  have ch: "piece_changed i s s2"
    by (rule piece_changed_fields [OF i m2]) (simp_all add: s2_def s1_def set_piece_def)
  have old: "prio_of s i = - 1" using True by (simp add: prio_of_def priority_def)
  have ge: "- 1 \<le> prio_of s2 i"
    using i m2 by (intro prio_of_ge base_okD(1) [OF base2]) simp
  show ?thesis
  proof (cases "m_dirty s2")
    case True
    then show ?thesis using base2 by (simp add: wd picker_ok_def)
  next
    case False
    have "m_dirty s2 = m_dirty s" by (simp add: s2_def s1_def set_piece_def)
    then have q: "queue_ok s" using False ok by (simp add: picker_ok_def)
    note ck = q base_okD(1) [OF base2] ch
    show ?thesis
    proof (cases "0 \<le> prio_of s2 i")
      case True
      from add_ok [OF ck old True, of rnd] show ?thesis
        using True False same_base_ok [OF _ base2] requeued_same_base by (auto simp: wd picker_ok_def)
    next
      case neg: False
      have "queue_ok s2" using neg ge by (intro unqueued_ok [OF ck old]) simp
      then show ?thesis using neg base2 by (simp add: wd picker_ok_def)
    qed
  qed
qed

lemma dirty_ok: "base_ok s \<Longrightarrow> m_dirty s \<Longrightarrow> picker_ok s"
  by (simp add: picker_ok_def)

lemma we_have_erased_ok:
  assumes ok: "picker_ok s"
    and s1: "s1 = (if downloading (m_piece_map s ! i)
      then case find_dl_piece i s of Some k \<Rightarrow> erase_download_piece k s | None \<Rightarrow> s else s)"
    and i: "i < num_pieces s"
  shows "base_ok s1" "piece_changed i s s1" "m_dirty s1 = m_dirty s"
    "m_piece_map s1 = set_downloading False i (m_piece_map s)"
    "m_sparse_regions s1 = m_sparse_regions s" "dl_view s1 = (dl_view s)(i := None)"
proof -
  have base: "base_ok s" using ok by (simp add: picker_ok_def)
  have "base_ok s1 \<and> piece_changed i s s1 \<and> m_dirty s1 = m_dirty s
    \<and> m_piece_map s1 = set_downloading False i (m_piece_map s) \<and> m_sparse_regions s1 = m_sparse_regions s
    \<and> dl_view s1 = (dl_view s)(i := None)"
  proof (cases "downloading (m_piece_map s ! i)")
    case True
    then obtain k where k: "find_dl_piece i s = Some k"
      using find_downloading [OF base_okD(4) [OF base] i] by auto
    obtain ds bl where "erase_download_piece k s =
        s\<lparr>m_piece_map := set_downloading False i (m_piece_map s), m_downloads := ds, m_block_info := bl\<rparr>"
      using erase_download_ok(3) [OF base_okD(4) [OF base] k] by blast
    then have "m_sparse_regions (erase_download_piece k s) = m_sparse_regions s" by simp
    then show ?thesis
      using True k erase_base_ok [OF base k] erase_download_ok(2) [OF base_okD(4) [OF base] k] by (simp add: s1)
  next
    case False
    have "dl_view s i = None"
      using False base_okD(4) [OF base] i view_None_iff [of s i] by (simp add: dl_ok_def)
    moreover have "(m_piece_map s)[i := (m_piece_map s ! i)\<lparr>downloading := False\<rparr>] = m_piece_map s"
      using False i by (simp add: list_update_same_conv)
    ultimately show ?thesis
      using False base i by (auto simp: s1 piece_changed_def agree_except_def set_downloading_def)
  qed
  then show "base_ok s1" "piece_changed i s s1" "m_dirty s1 = m_dirty s"
    "m_piece_map s1 = set_downloading False i (m_piece_map s)"
    "m_sparse_regions s1 = m_sparse_regions s" "dl_view s1 = (dl_view s)(i := None)" by blast+
qed

text \<open>The state of \<open>we_have\<close> just before the piece is taken off the queue.\<close>

lemma we_have_marked:
  assumes base: "base_ok s1" and i: "i < num_pieces s1"
    and p: "\<not> pos_have (m_piece_map s1 ! i)" "\<not> downloading (m_piece_map s1 ! i)"
    and s2: "s2 = s1\<lparr>m_sparse_regions := we_have_regions i (m_piece_map s1) (m_sparse_regions s1)\<rparr>"
    and s3: "s3 = (if pos_filtered (m_piece_map s1 ! i)
      then s2\<lparr>m_num_filtered := m_num_filtered s2 - 1, m_num_have_filtered := m_num_have_filtered s2 + 1\<rparr> else s2)"
    and s4: "s4 = leave_cursors i (set_piece i set_have (s3\<lparr>m_num_have := m_num_have s3 + 1\<rparr>))"
  shows "base_ok s4" "piece_changed i s1 s4" "m_dirty s4 = m_dirty s1" "prio_of s4 i = - 1"
    "m_piece_map s4 = (m_piece_map s1)[i := set_have (m_piece_map s1 ! i)]"
    "m_sparse_regions s4 = we_have_regions i (m_piece_map s1) (m_sparse_regions s1)"
proof -
  let ?p = "m_piece_map s1 ! i"
  note b = base_okD [OF base]
  show m4: "m_piece_map s4 = (m_piece_map s1)[i := set_have ?p]"
    and "m_dirty s4 = m_dirty s1"
    and "m_sparse_regions s4 = we_have_regions i (m_piece_map s1) (m_sparse_regions s1)"
    by (simp_all add: s4 s3 s2 set_piece_def)
  have h: "pos_have (set_have ?p)" "pos_filtered (set_have ?p) = pos_filtered ?p"
    by (simp_all add: set_have_def pos_have_def pos_filtered_def)
  have cnt: "counts_ok s4"
    using b(2) p(1) h unfolding counts_ok_def m4 length_filter_update [OF i]
    by (auto simp: s4 s3 s2 set_piece_def)
  have cur: "cursors_ok s4"
  proof (cases "pos_filtered ?p")
    case False
    have "cursor_at (m_piece_map s4) (m_cursor (leave_cursors i (set_piece i set_have (s3\<lparr>m_num_have := m_num_have s3 + 1\<rparr>))))
      \<and> rcursor_at (m_piece_map s4) (m_reverse_cursor (leave_cursors i (set_piece i set_have (s3\<lparr>m_num_have := m_num_have s3 + 1\<rparr>))))"
      by (rule leave_cursors_ok [of "m_piece_map s1" _ i _ "set_have ?p"])
        (use b(3) i p(1) False h m4 in \<open>auto simp: cursors_ok_def s3 s2 set_piece_def passed_def\<close>)
    then show ?thesis by (simp add: cursors_ok_def) (simp add: s4)
  next
    case True
    have ne: "m_cursor s1 \<noteq> i" "m_reverse_cursor s1 \<noteq> i + 1"
      using b(3) True i by (auto simp: cursors_ok_def cursor_at_def rcursor_at_def passed_def)
    have "map passed (m_piece_map s4) = map passed (m_piece_map s1)"
      unfolding m4 using i True h by (intro map_dl_update) (auto simp: passed_def)
    from cursor_cong [OF this] show ?thesis
      using b(3) ne by (simp add: cursors_ok_def) (simp add: s4 s3 s2 set_piece_def leave_cursors_def)
  qed
  show "base_ok s4"
    by (rule base_ok_piece [OF base i m4 _ _ _ cnt cur])
      (use b(9) [OF i] p in \<open>simp_all add: set_have_def s4 s3 s2 set_piece_def\<close>)
  show "piece_changed i s1 s4"
    by (rule piece_changed_fields [OF i m4]) (simp_all add: s4 s3 s2 set_piece_def)
  show "prio_of s4 i = - 1" using i h by (simp add: prio_of_def priority_def m4)
qed

lemma piece_changed_trans:
  "piece_changed i s0 s1 \<Longrightarrow> piece_changed i s1 s2 \<Longrightarrow> piece_changed i s0 s2"
  by (auto simp: piece_changed_def agree_except_def)

lemma we_have_ok:
  assumes ok: "picker_ok s" and i: "i < num_pieces s"
  shows "picker_ok (we_have i s)"
proof -
  define s1 where "s1 = (if downloading (m_piece_map s ! i)
      then case find_dl_piece i s of Some k \<Rightarrow> erase_download_piece k s | None \<Rightarrow> s else s)"
  note e = we_have_erased_ok [OF ok s1_def i]
  have i1: "i < num_pieces s1" using i e(4) by (simp add: set_downloading_def)
  have p1: "m_piece_map s1 ! i = (m_piece_map s ! i)\<lparr>downloading := False\<rparr>"
    using i e(4) by (simp add: set_downloading_def)
  show ?thesis
  proof (cases "pos_have (m_piece_map s1 ! i)")
    case True
    then have wh: "we_have i s = s1" by (simp add: we_have_def Let_def s1_def [symmetric])
    have "pos_have (m_piece_map s ! i)" using True p1 by (simp add: pos_have_def)
    moreover have "\<not> downloading (m_piece_map s ! i)"
      using ok i calculation by (auto simp: picker_ok_def dest: base_okD(6))
    ultimately show ?thesis using ok by (simp add: wh s1_def)
  next
    case False
    define s2 where "s2 = s1\<lparr>m_sparse_regions := we_have_regions i (m_piece_map s1) (m_sparse_regions s1)\<rparr>"
    define s3 where "s3 = (if pos_filtered (m_piece_map s1 ! i)
      then s2\<lparr>m_num_filtered := m_num_filtered s2 - 1, m_num_have_filtered := m_num_have_filtered s2 + 1\<rparr> else s2)"
    define s4 where "s4 = leave_cursors i (set_piece i set_have (s3\<lparr>m_num_have := m_num_have s3 + 1\<rparr>))"
    have "\<not> downloading (m_piece_map s1 ! i)" using p1 by simp
    note w = we_have_marked [OF e(1) i1 False this s2_def s3_def s4_def]
    have wh: "we_have i s = (if prio_of s i = - 1 then s4 else if m_dirty s4 then s4
        else remove (nat (prio_of s i)) (index (m_piece_map s ! i)) s4)"
      using False by (simp add: we_have_def Let_def s1_def [symmetric] s2_def [symmetric] s3_def [symmetric] s4_def [symmetric])
    note ch = piece_changed_trans [OF e(2) w(2)]
    show ?thesis
    proof (cases "m_dirty s4")
      case True
      then show ?thesis using w(1) by (simp add: wh dirty_ok)
    next
      case nd: False
      then have q: "queue_ok s" using ok w(3) e(3) by (simp add: picker_ok_def)
      note ck = q base_okD(1) [OF w(1)] ch
      have ge: "- 1 \<le> prio_of s i" using q i by (intro prio_of_ge) (auto simp: queue_ok_def)
      show ?thesis
      proof (cases "prio_of s i = - 1")
        case True
        then have "queue_ok s4" using unqueued_ok [OF ck True w(4)] by simp
        then show ?thesis using True w(1) by (simp add: wh picker_ok_def)
      next
        case False
        then have "prio_of s i = int (nat (prio_of s i))" using ge by simp
        from remove_ok [OF ck this w(4)] show ?thesis
          using False nd same_base_ok [OF _ w(1)] requeued_same_base by (auto simp: wh picker_ok_def)
      qed
    qed
  qed
qed

text \<open>\<open>set_piece_priority\<close> up to the point where the queue is adjusted.\<close>

definition reprioritized :: "nat \<Rightarrow> nat \<Rightarrow> piece_picker \<Rightarrow> piece_picker" where
  "reprioritized i n s =
    (let p = m_piece_map s ! i
     in if n = 0 \<and> piece_priority p \<noteq> 0 then
          (if pos_have p then s\<lparr>m_num_have_filtered := m_num_have_filtered s + 1\<rparr>
           else leave_cursors i (s\<lparr>m_num_filtered := m_num_filtered s + 1\<rparr>))
        else if n \<noteq> 0 \<and> piece_priority p = 0 then
          (if pos_have p then s\<lparr>m_num_have_filtered := m_num_have_filtered s - 1\<rparr>
           else enter_cursors i (s\<lparr>m_num_filtered := m_num_filtered s - 1\<rparr>))
        else s)"

lemma set_piece_priority_eq:
  "set_piece_priority rnd i n s =
    (if n = piece_priority (m_piece_map s ! i) then (False, s)
     else let s' = set_piece i (\<lambda>p. p\<lparr>piece_priority := n\<rparr>) (reprioritized i n s)
       in ((n = 0) \<noteq> (piece_priority (m_piece_map s ! i) = 0),
           if m_dirty s' then s' else if prio_of s i = prio_of s' i then s'
           else requeue rnd (prio_of s i) i s'))"
  by (auto simp: set_piece_priority_def reprioritized_def Let_def)

lemma reprioritized_ok:
  assumes base: "base_ok s" and i: "i < num_pieces s" and n: "n < 8" "n \<noteq> piece_priority (m_piece_map s ! i)"
    and s': "s' = set_piece i (\<lambda>p. p\<lparr>piece_priority := n\<rparr>) (reprioritized i n s)"
  shows "base_ok s'" "piece_changed i s s'" "m_dirty s' = m_dirty s"
    "m_piece_map s' = (m_piece_map s)[i := (m_piece_map s ! i)\<lparr>piece_priority := n\<rparr>]"
proof -
  let ?p = "m_piece_map s ! i" and ?q = "(m_piece_map s ! i)\<lparr>piece_priority := n\<rparr>"
  note b = base_okD [OF base]
  show m': "m_piece_map s' = (m_piece_map s)[i := ?q]" and "m_dirty s' = m_dirty s"
    by (simp_all add: s' set_piece_def reprioritized_def Let_def)
  have q: "pos_have ?q = pos_have ?p" "pos_filtered ?q \<longleftrightarrow> n = 0" "pos_filtered ?p \<longleftrightarrow> piece_priority ?p = 0"
    by (simp_all add: pos_have_def pos_filtered_def)
  have cnt: "counts_ok s'"
    using b(2) q n unfolding counts_ok_def m' length_filter_update [OF i]
    by (auto simp: s' set_piece_def reprioritized_def Let_def)
  have cur: "cursors_ok s'"
  proof (cases "passed ?q = passed ?p")
    case True
    have "map passed (m_piece_map s') = map passed (m_piece_map s)"
      unfolding m' using i True by (intro map_dl_update) auto
    from cursor_cong [OF this] show ?thesis
      using b(3) True q n by (auto simp: cursors_ok_def passed_def s' set_piece_def reprioritized_def Let_def)
  next
    case False
    have c: "cursor_at (m_piece_map s) (m_cursor s)" "rcursor_at (m_piece_map s) (m_reverse_cursor s)"
      using b(3) by (simp_all add: cursors_ok_def)
    show ?thesis
    proof (cases "passed ?q")
      case True
      let ?s = "s\<lparr>m_num_filtered := m_num_filtered s + 1\<rparr>"
      have "cursor_at (m_piece_map s') (m_cursor (leave_cursors i ?s)) \<and> rcursor_at (m_piece_map s') (m_reverse_cursor (leave_cursors i ?s))"
        by (rule leave_cursors_ok [of "m_piece_map s" _ i _ ?q]) (use c i True False m' in auto)
      then show ?thesis using True False q
        by (simp add: cursors_ok_def passed_def) (simp add: s' set_piece_def reprioritized_def Let_def)
    next
      case nq: False
      let ?s = "s\<lparr>m_num_filtered := m_num_filtered s - 1\<rparr>"
      have "cursor_at (m_piece_map s') (m_cursor (enter_cursors i ?s)) \<and> rcursor_at (m_piece_map s') (m_reverse_cursor (enter_cursors i ?s))"
        by (rule enter_cursors_ok [of "m_piece_map s" _ i _ ?q]) (use c i nq False m' in auto)
      then show ?thesis using nq False q
        by (simp add: cursors_ok_def passed_def) (simp add: s' set_piece_def reprioritized_def Let_def)
    qed
  qed
  have f: "m_downloads s' = m_downloads s" "m_block_info s' = m_block_info s"
      "m_blocks_per_piece s' = m_blocks_per_piece s" "m_blocks_in_last_piece s' = m_blocks_in_last_piece s"
      "m_seeds s' = m_seeds s" "m_pieces s' = m_pieces s" "m_priority_boundries s' = m_priority_boundries s"
    by (simp_all add: s' set_piece_def reprioritized_def Let_def)
  show "base_ok s'"
    by (rule base_ok_piece [OF base i m' _ _ _ cnt cur]) (use f n(1) b(6) [OF i] q in auto)
  show "piece_changed i s s'" by (rule piece_changed_fields [OF i m']) (simp_all add: f)
qed

lemma set_piece_priority_ok:
  assumes ok: "picker_ok s" and i: "i < num_pieces s" and n: "n < 8"
  shows "picker_ok (snd (set_piece_priority rnd i n s))"
proof (cases "n = piece_priority (m_piece_map s ! i)")
  case True
  then show ?thesis using ok by (simp add: set_piece_priority_eq)
next
  case False
  let ?s = "set_piece i (\<lambda>p. p\<lparr>piece_priority := n\<rparr>) (reprioritized i n s)"
  have base: "base_ok s" using ok by (simp add: picker_ok_def)
  note r = reprioritized_ok [OF base i n False refl]
  have "index (m_piece_map ?s ! i) = index (m_piece_map s ! i)" using i by (simp add: r(4))
  from requeue_step [OF ok r(1,2) this r(3), of rnd] show ?thesis
    using False by (simp add: set_piece_priority_eq Let_def)
qed

lemma inc_refcount_all_ok: "picker_ok s \<Longrightarrow> picker_ok (inc_refcount_all s)"
proof -
  assume ok: "picker_ok s"
  have "same_base s (inc_refcount_all s)" by (simp add: inc_refcount_all_def same_base_def Let_def)
  then have base: "base_ok (inc_refcount_all s)" using ok by (auto simp: picker_ok_def intro: same_base_ok)
  show ?thesis
  proof (cases "m_seeds s = 0")
    case True
    then show ?thesis using base by (intro dirty_ok) (simp_all add: inc_refcount_all_def Let_def)
  next
    case False
    then have i: "inc_refcount_all s = s\<lparr>m_seeds := m_seeds s + 1\<rparr>" by (simp add: inc_refcount_all_def Let_def)
    have "prio_of (inc_refcount_all s) = prio_of s"
      using False by (simp add: i prio_of_def priority_def fun_eq_iff Let_def)
    then show ?thesis using ok base by (simp add: picker_ok_def queue_ok_def queue_rep_def i)
  qed
qed

lemma map_piece_same_base:
  assumes "length m = num_pieces s" "\<And>q. q < num_pieces s \<Longrightarrow> flags (m ! q) = flags (m_piece_map s ! q)"
  shows "same_base s (s\<lparr>m_piece_map := m\<rparr>)" "same_base s (s\<lparr>m_piece_map := m, m_dirty := d\<rparr>)"
  using assms by (simp_all add: same_base_def list_eq_iff_nth_eq)

lemma flags_peer_count [simp]: "flags (inc_peer_count p) = flags p" "flags (dec_peer_count p) = flags p"
  by (simp_all add: flags_def inc_peer_count_def dec_peer_count_def pos_have_def)

lemma dec_refcount_all_ok: "picker_ok s \<Longrightarrow> picker_ok (dec_refcount_all s)"
proof -
  assume ok: "picker_ok s"
  then have base: "base_ok s" by (simp add: picker_ok_def)
  consider "m_seeds s = 0" | "m_seeds s = 1" | "1 < m_seeds s" by linarith
  then show ?thesis
  proof cases
    case 1
    then have "same_base s (dec_refcount_all s)"
      using map_piece_same_base(2) [of "map dec_peer_count (m_piece_map s)" s True] by (simp add: dec_refcount_all_def)
    then show ?thesis using same_base_ok [OF _ base] 1 by (intro dirty_ok) (simp_all add: dec_refcount_all_def)
  next
    case 2
    then have "same_base s (dec_refcount_all s)" by (simp add: dec_refcount_all_def same_base_def Let_def)
    then show ?thesis using same_base_ok [OF _ base] 2 by (intro dirty_ok) (simp_all add: dec_refcount_all_def Let_def)
  next
    case 3
    then have d: "dec_refcount_all s = s\<lparr>m_seeds := m_seeds s - 1\<rparr>" by (simp add: dec_refcount_all_def Let_def)
    have "same_base s (dec_refcount_all s)" by (simp add: d same_base_def)
    moreover have "prio_of (dec_refcount_all s) = prio_of s"
      using 3 by (simp add: d prio_of_def priority_def fun_eq_iff Let_def)
    ultimately show ?thesis
      using ok same_base_ok [OF _ base] by (simp add: picker_ok_def queue_ok_def queue_rep_def d)
  qed
qed

lemma refcount_bits_ok:
  assumes ok: "picker_ok s" and f: "\<And>p. flags (f p) = flags p" and len: "length bitmask = num_pieces s"
    and s': "s' = (let s = s\<lparr>m_piece_map := map2 (\<lambda>b p. if b then f p else p) bitmask (m_piece_map s)\<rparr>
      in if True \<in> set bitmask then s\<lparr>m_dirty := True\<rparr> else s)"
  shows "picker_ok s'"
proof (cases "True \<in> set bitmask")
  case True
  have "same_base s s'" using True len f unfolding s' by (simp add: Let_def same_base_def list_eq_iff_nth_eq)
  then show ?thesis using ok True same_base_ok [of s s'] by (intro dirty_ok) (simp_all add: picker_ok_def s')
next
  case False
  have "map2 (\<lambda>b p. if b then f p else p) bitmask (m_piece_map s) = m_piece_map s"
    using False len by (auto simp: list_eq_iff_nth_eq in_set_conv_nth)
  then show ?thesis using ok False by (simp add: s')
qed

lemma inc_refcount_bits_ok:
  "picker_ok s \<Longrightarrow> length bitmask = num_pieces s \<Longrightarrow> picker_ok (inc_refcount_bits bitmask s)"
  by (rule refcount_bits_ok [of s inc_peer_count]) (simp_all add: inc_refcount_bits_def)

lemma dec_refcount_bits_ok:
  "picker_ok s \<Longrightarrow> length bitmask = num_pieces s \<Longrightarrow> picker_ok (dec_refcount_bits bitmask s)"
  by (rule refcount_bits_ok [of s dec_peer_count]) (simp_all add: dec_refcount_bits_def)

lemma init_ok:
  assumes "counts_ok s" "pieces_ok (m_piece_map s)" "num_pieces s \<le> n" "n \<le> we_have_index"
    and "0 < bpp" "last_blocks \<le> bpp"
  shows "picker_ok (init bpp last_blocks n s)"
proof -
  let ?g = "\<lambda>p. p\<lparr>peer_count := 0, downloading := False, index := 0\<rparr>"
  let ?new = "replicate (n - num_pieces s) (piece_pos_init 0 0)"
  define s' where "s' = init bpp last_blocks n s"
  have m: "m_piece_map s' = map ?g (m_piece_map s @ ?new)"
    using assms(3) by (auto simp: s'_def init_def Let_def resize_def)
  have cur: "m_cursor s' = cursor_up (m_piece_map s') 0" "m_reverse_cursor s' = cursor_down (m_piece_map s') (num_pieces s')"
    by (simp_all add: s'_def init_def Let_def)
  have g: "\<not> pos_have (?g p)" "pos_filtered (?g p) = pos_filtered p" for p
    by (simp_all add: pos_have_def pos_filtered_def we_have_index_def)
  have new: "\<not> pos_filtered (piece_pos_init 0 0)" by (simp add: piece_pos_init_def pos_filtered_def)
  have "int (length (filter pos_filtered m)) = int (length (filter (\<lambda>p. pos_filtered p \<and> \<not> pos_have p) m))
      + int (length (filter (\<lambda>p. pos_filtered p \<and> pos_have p) m))" for m
    by (induction m) auto
  then have "int (length (filter pos_filtered (m_piece_map s))) = m_num_filtered s + m_num_have_filtered s"
    using assms(1) by (simp add: counts_ok_def)
  then have "counts_ok s'"
    unfolding counts_ok_def m by (simp add: filter_map comp_def g new) (simp add: s'_def init_def Let_def)
  moreover have "cursors_ok s'"
    unfolding cursors_ok_def cur by (auto intro!: cursor_up_at cursor_down_at)
  moreover have "pieces_ok (m_piece_map s')"
    using assms(2-4) by (auto simp: m pieces_ok_def piece_pos_init_def)
  moreover have "dl_ok s'" using assms(5)
    by (auto simp: dl_ok_def m slots_ok_def nth_append) (simp_all add: s'_def init_def Let_def)
  moreover have "dl_view s' = Map.empty" by (simp add: dl_view_def fun_eq_iff s'_def init_def Let_def)
  moreover have "\<forall>p \<in> set (m_piece_map s'). pos_have p \<longrightarrow> \<not> downloading p" by (auto simp: m)
  ultimately show ?thesis using assms(5,6) unfolding s'_def [symmetric]
    by (intro dirty_ok) (auto simp: base_ok_def views_ok_def, simp_all add: s'_def init_def Let_def)
qed

section \<open>The runs of missing pieces\<close>

fun runs :: "bool \<Rightarrow> piece_pos list \<Rightarrow> int" where
  "runs prev [] = 0"
| "runs prev (p # ps) = (if prev \<and> \<not> pos_have p then 1 else 0) + runs (pos_have p) ps"

definition missing_runs :: "piece_pos list \<Rightarrow> int" where
  "missing_runs m = runs True m"

lemma runs_append:
  "runs prev (as @ bs) = runs prev as + runs (if as = [] then prev else pos_have (last as)) bs"
  by (induction as arbitrary: prev) auto

lemma runs_True_False: "runs True bs = runs False bs + (if bs \<noteq> [] \<and> \<not> pos_have (hd bs) then 1 else 0)"
  by (cases bs) auto

lemma we_have_regions_runs:
  assumes "i < length m" "\<not> pos_have (m ! i)" "pos_have p"
  shows "we_have_regions i m (missing_runs m) = missing_runs (m[i := p])"
proof -
  obtain as x bs where m: "m = as @ x # bs" "length as = i"
    using assms(1) id_take_nth_drop [of i m] by (metis length_take min.absorb4)
  have x: "m ! i = x" "m[i := p] = as @ p # bs" using m by auto
  have nb: "as \<noteq> [] \<Longrightarrow> m ! (i - 1) = last as" "bs \<noteq> [] \<Longrightarrow> m ! (i + 1) = hd bs"
    using m by (auto simp: nth_append last_conv_nth hd_conv_nth)
  have ends: "i = 0 \<longleftrightarrow> as = []" "i = length m - 1 \<longleftrightarrow> bs = []" using m by auto
  show ?thesis
    unfolding missing_runs_def x(2)
    using assms(2,3) x(1) nb ends runs_True_False [of bs]
    by (auto simp: m(1) runs_append we_have_regions_def Let_def)
qed

end
