(* ===== verification/Picker_Rebuild.thy ===== *)
theory Picker_Rebuild
  imports Picker_Ops
begin

text \<open>
  \<open>piece_picker::update_pieces\<close>: the queue is rebuilt from the piece map, by counting the pieces
  of every level, placing each in its level and shuffling the levels. \<open>std::random_shuffle\<close> is a
  parameter \<open>shuf\<close>, of which the proofs use that it permutes its range.
\<close>

section \<open>The operation\<close>

text \<open>The first loop: every queued piece gets its rank in its level, and the levels are counted.\<close>

fun count_levels :: "nat \<Rightarrow> piece_pos list \<Rightarrow> nat list \<Rightarrow> piece_pos list \<times> nat list" where
  "count_levels seeds [] bnd = ([], bnd)"
| "count_levels seeds (p # ps) bnd =
    (let prio = priority seeds p
     in if prio = - 1 then
          let (ps, bnd) = count_levels seeds ps bnd in (p # ps, bnd)
        else
          let prio = nat prio;
              bnd = (if length bnd \<le> prio then resize (prio + 1) 0 bnd else bnd);
              p = p\<lparr>index := bnd ! prio\<rparr>;
              (ps, bnd) = count_levels seeds ps (bnd[prio := bnd ! prio + 1])
          in (p # ps, bnd))"

text \<open>The second loop: from counts to boundaries.\<close>

fun accumulate :: "nat \<Rightarrow> nat list \<Rightarrow> nat list" where
  "accumulate ind [] = []"
| "accumulate ind (b # bs) = (b + ind) # accumulate (b + ind) bs"

text \<open>The third loop: the pieces go to their places.\<close>

fun fill_pieces :: "nat \<Rightarrow> nat list \<Rightarrow> nat \<Rightarrow> piece_pos list \<Rightarrow> int list \<Rightarrow> int list" where
  "fill_pieces seeds bnd ind [] pieces = pieces"
| "fill_pieces seeds bnd ind (p # ps) pieces =
    (let prio = priority seeds p
     in if prio = - 1 then fill_pieces seeds bnd (ind + 1) ps pieces
        else
          let new_index = (if nat prio = 0 then 0 else bnd ! (nat prio - 1)) + index p
          in fill_pieces seeds bnd (ind + 1) ps (pieces[new_index := int ind]))"

text \<open>The fourth loop: every level is shuffled.\<close>

fun shuffle_levels :: "(nat \<Rightarrow> int list \<Rightarrow> int list) \<Rightarrow> nat \<Rightarrow> nat list \<Rightarrow> int list \<Rightarrow> int list" where
  "shuffle_levels shuf start [] pieces = pieces"
| "shuffle_levels shuf start (b # bs) pieces =
    (if start = b then shuffle_levels shuf start bs pieces
     else shuffle_levels shuf b bs
       (take start pieces @ shuf start (take (b - start) (drop start pieces)) @ drop b pieces))"

text \<open>The last loop: every piece is told its place.\<close>

fun renumber :: "nat \<Rightarrow> int list \<Rightarrow> piece_pos list \<Rightarrow> piece_pos list" where
  "renumber ind [] pmap = pmap"
| "renumber ind (x # xs) pmap = renumber (ind + 1) xs (set_index pmap (nat x) ind)"

definition update_pieces :: "(nat \<Rightarrow> int list \<Rightarrow> int list) \<Rightarrow> piece_picker \<Rightarrow> piece_picker" where
  "update_pieces shuf s =
    (let bnd = (if m_priority_boundries s = [] then [0] else m_priority_boundries s);
         bnd = replicate (length bnd) 0;
         (pmap, bnd) = count_levels (m_seeds s) (m_piece_map s) bnd;
         bnd = accumulate 0 bnd;
         pieces = resize (last bnd) 0 (m_pieces s);
         pieces = fill_pieces (m_seeds s) bnd 0 pmap pieces;
         pieces = shuffle_levels shuf 0 bnd pieces;
         pmap = renumber 0 pieces pmap
     in s\<lparr>m_pieces := pieces, m_priority_boundries := bnd, m_piece_map := pmap, m_dirty := False\<rparr>)"

section \<open>The levels\<close>

definition bucket :: "(nat \<Rightarrow> int) \<Rightarrow> nat \<Rightarrow> nat \<Rightarrow> int list" where
  "bucket pr n l = map int (filter (\<lambda>i. pr i = int l) [0..<n])"

definition buckets :: "(nat \<Rightarrow> int) \<Rightarrow> nat \<Rightarrow> nat \<Rightarrow> int list list" where
  "buckets pr n L = map (bucket pr n) [0..<L]"

definition rank :: "(nat \<Rightarrow> int) \<Rightarrow> nat \<Rightarrow> nat" where
  "rank pr i = length (filter (\<lambda>j. pr j = pr i) [0..<i])"

lemma bucket_rank:
  assumes "i < n" "pr i = int l"
  shows "rank pr i < length (bucket pr n l)" "bucket pr n l ! rank pr i = int i"
proof -
  have "[0..<n] = [0..<i] @ i # [Suc i..<n]" using assms(1) by (metis le_add1 add_0 less_imp_le_nat upt_add_eq_append
    upt_conv_Cons le_Suc_ex)
  then have b: "bucket pr n l = map int (filter (\<lambda>j. pr j = pr i) [0..<i]) @ int i # bucket' "
    if "bucket' = map int (filter (\<lambda>j. pr j = int l) [Suc i..<n])" for bucket'
    using assms(2) that by (simp add: bucket_def)
  from b [OF refl] show "rank pr i < length (bucket pr n l)" "bucket pr n l ! rank pr i = int i"
    by (simp_all add: rank_def nth_append)
qed

lemma accumulate_ends: "accumulate n (map length bs) = ends n bs"
  by (induction bs arbitrary: n) (auto simp: add.commute)

lemma bucketed_buckets: "bucketed pr l (map (bucket pr n) [l..<L])"
proof (induction "L - l" arbitrary: l)
  case (Suc k)
  then have "l < L" by simp
  then have "[l..<L] = l # [Suc l..<L]" by (rule upt_conv_Cons)
  then show ?case using Suc by (auto simp: bucket_def)
qed simp

lemma concat_buckets_nth:
  assumes "l < length bs" "r < length (bs ! l)"
  shows "length (concat (take l bs)) + r < length (concat bs)"
    "concat bs ! (length (concat (take l bs)) + r) = bs ! l ! r"
proof -
  have "concat bs = concat (take l bs) @ bs ! l @ concat (drop (Suc l) bs)"
    using id_take_nth_drop [OF assms(1)] by (metis concat.simps(2) concat_append)
  then show "length (concat (take l bs)) + r < length (concat bs)"
    "concat bs ! (length (concat (take l bs)) + r) = bs ! l ! r"
    using assms(2) by (auto simp: nth_append)
qed

lemma set_buckets:
  assumes "\<And>i. i < n \<Longrightarrow> pr i = - 1 \<or> 0 \<le> pr i \<and> pr i < int L"
  shows "set (concat (buckets pr n L)) = {int i | i. i < n \<and> pr i \<noteq> - 1}"
proof
  show "set (concat (buckets pr n L)) \<subseteq> {int i | i. i < n \<and> pr i \<noteq> - 1}"
    by (auto simp: buckets_def bucket_def)
  show "{int i | i. i < n \<and> pr i \<noteq> - 1} \<subseteq> set (concat (buckets pr n L))"
  proof
    fix x assume "x \<in> {int i | i. i < n \<and> pr i \<noteq> - 1}"
    then obtain i where i: "x = int i" "i < n" "pr i \<noteq> - 1" by blast
    then have "nat (pr i) < L" "pr i = int (nat (pr i))" using assms [OF i(2)] by auto
    then show "x \<in> set (concat (buckets pr n L))"
      using i by (auto simp: buckets_def bucket_def intro!: bexI [of _ "nat (pr i)"])
  qed
qed

lemma distinct_buckets: "distinct (concat (buckets pr n L))"
proof (induction L)
  case (Suc L)
  have "set (concat (buckets pr n L)) \<inter> set (bucket pr n L) = {}"
    by (auto simp: buckets_def bucket_def)
  moreover have "distinct (bucket pr n L)" by (simp add: bucket_def distinct_map)
  ultimately show ?case using Suc by (simp add: buckets_def)
qed (simp add: buckets_def)

section \<open>The loops\<close>

definition level_count :: "(nat \<Rightarrow> int) \<Rightarrow> nat \<Rightarrow> nat \<Rightarrow> nat" where
  "level_count pr k l = length (filter (\<lambda>j. pr j = int l) [0..<k])"

lemma level_count_simps:
  "level_count pr 0 l = 0"
  "level_count pr (Suc k) l = level_count pr k l + (if pr k = int l then 1 else 0)"
  by (simp_all add: level_count_def)

lemma level_count_zero: "\<forall>j < k. pr j < int L \<Longrightarrow> L \<le> l \<Longrightarrow> level_count pr k l = 0"
  by (auto simp: level_count_def filter_empty_conv)

lemma count_levels_gen:
  assumes "\<And>j. j < length ps \<Longrightarrow> priority seeds (ps ! j) = pr (k + j)" "\<And>j. - 1 \<le> pr j"
    and "\<forall>j < k. pr j < int L"
  shows "\<exists>L' ps'. count_levels seeds ps (map (level_count pr k) [0..<L]) =
      (ps', map (level_count pr (k + length ps)) [0..<L']) \<and> L \<le> L' \<and> length ps' = length ps
    \<and> (\<forall>j < k + length ps. pr j < int L')
    \<and> (\<forall>j < length ps. ps' ! j = (if pr (k + j) = - 1 then ps ! j else (ps ! j)\<lparr>index := rank pr (k + j)\<rparr>))"
  using assms(1,3)
proof (induction ps arbitrary: k L)
  case Nil
  then show ?case by auto
next
  case (Cons p ps)
  have p: "priority seeds p = pr k" using Cons.prems(1) [of 0] by simp
  have ps: "priority seeds (ps ! j) = pr (Suc k + j)" if "j < length ps" for j
    using Cons.prems(1) [of "Suc j"] that by simp
  show ?case
  proof (cases "pr k = - 1")
    case True
    have lc: "map (level_count pr k) [0..<L] = map (level_count pr (Suc k)) [0..<L]" using True by (simp add: level_count_simps)
    have "\<forall>j < Suc k. pr j < int L" using Cons.prems(2) True by (auto simp: less_Suc_eq)
    from Cons.IH [of "Suc k", OF ps this] obtain L' ps' where ih:
      "count_levels seeds ps (map (level_count pr (Suc k)) [0..<L]) = (ps', map (level_count pr (Suc k + length ps)) [0..<L'])"
      "L \<le> L'" "length ps' = length ps" "\<forall>j < Suc k + length ps. pr j < int L'"
      "\<forall>j < length ps. ps' ! j = (if pr (Suc k + j) = - 1 then ps ! j else (ps ! j)\<lparr>index := rank pr (Suc k + j)\<rparr>)"
      by blast
    have "count_levels seeds (p # ps) (map (level_count pr k) [0..<L]) =
        (p # ps', map (level_count pr (Suc k + length ps)) [0..<L'])"
      unfolding lc using True p ih(1) by (simp add: Let_def)
    then show ?thesis
      using True ih(2-) by (intro exI [of _ L'] exI [of _ "p # ps'"])
        (auto simp: All_less_Suc2 simp del: count_levels.simps)
  next
    case False
    define l where "l = nat (pr k)"
    have l: "pr k = int l" using False assms(2) [of k] by (auto simp: l_def)
    define L1 where "L1 = (if L \<le> l then l + 1 else L)"
    have bnd: "(if L \<le> l then resize (l + 1) 0 (map (level_count pr k) [0..<L]) else map (level_count pr k) [0..<L]) =
      map (level_count pr k) [0..<L1]"
    proof (cases "L \<le> l")
      case True
      then have "[0..<Suc l] = [0..<L] @ [L..<Suc l]" by (metis le_SucI le_add1 le_add_same_cancel1 upt_add_eq_append
        le_iff_add)
      moreover have "map (level_count pr k) [L..<Suc l] = replicate (Suc l - L) 0"
        using level_count_zero [OF Cons.prems(2)] by (auto intro!: nth_equalityI simp del: upt_Suc)
      ultimately show ?thesis using True by (simp add: resize_def L1_def del: upt_Suc)
    qed (simp add: L1_def)
    have lL: "l < L1" "L \<le> L1" by (auto simp: L1_def)
    have upd: "(map (level_count pr k) [0..<L1])[l := level_count pr k l + 1] = map (level_count pr (Suc k)) [0..<L1]"
      using lL l by (auto intro!: nth_equalityI simp: nth_list_update level_count_simps)
    have rank: "level_count pr k l = rank pr k" by (simp add: level_count_def rank_def l)
    have "\<forall>j < Suc k. pr j < int L1" using Cons.prems(2) l lL by (auto simp: less_Suc_eq)
    from Cons.IH [of "Suc k", OF ps this] obtain L' ps' where ih:
      "count_levels seeds ps (map (level_count pr (Suc k)) [0..<L1]) = (ps', map (level_count pr (Suc k + length ps)) [0..<L'])"
      "L1 \<le> L'" "length ps' = length ps" "\<forall>j < Suc k + length ps. pr j < int L'"
      "\<forall>j < length ps. ps' ! j = (if pr (Suc k + j) = - 1 then ps ! j else (ps ! j)\<lparr>index := rank pr (Suc k + j)\<rparr>)"
      by blast
    have "count_levels seeds (p # ps) (map (level_count pr k) [0..<L]) =
        (p\<lparr>index := rank pr k\<rparr> # ps', map (level_count pr (Suc k + length ps)) [0..<L'])"
      using False p bnd upd lL(1) rank ih(1) by (simp add: Let_def l_def [symmetric])
    then show ?thesis
      using False ih(2-) lL by (intro exI [of _ L'] exI [of _ "p\<lparr>index := rank pr k\<rparr> # ps'"])
        (auto simp: All_less_Suc2 simp del: count_levels.simps)
  qed
qed

lemma fill_pieces_gen:
  assumes "\<And>j. j < length ps \<Longrightarrow> priority seeds (ps ! j) = pr (ind + j)"
    and "\<And>j. j < length ps \<Longrightarrow> pr (ind + j) \<noteq> - 1 \<Longrightarrow>
      pos (ind + j) = (if nat (pr (ind + j)) = 0 then 0 else bnd ! (nat (pr (ind + j)) - 1)) + index (ps ! j)"
    and "\<And>j. j < length ps \<Longrightarrow> pr (ind + j) \<noteq> - 1 \<Longrightarrow> pos (ind + j) < length C \<and> C ! pos (ind + j) = int (ind + j)"
    and "length pieces = length C"
  shows "length (fill_pieces seeds bnd ind ps pieces) = length C \<and>
    (\<forall>k < length C. fill_pieces seeds bnd ind ps pieces ! k =
      (if \<exists>j < length ps. pr (ind + j) \<noteq> - 1 \<and> pos (ind + j) = k then C ! k else pieces ! k))"
  using assms
proof (induction ps arbitrary: ind pieces)
  case Nil
  then show ?case by simp
next
  case (Cons p ps)
  have p: "priority seeds p = pr ind" using Cons.prems(1) [of 0] by simp
  define pc where "pc = (if pr ind = - 1 then pieces else pieces[pos ind := int ind])"
  have step: "fill_pieces seeds bnd ind (p # ps) pieces = fill_pieces seeds bnd (Suc ind) ps pc"
    using p Cons.prems(2) [of 0] by (simp add: pc_def Let_def)
  have ih: "length (fill_pieces seeds bnd (Suc ind) ps pc) = length C \<and>
    (\<forall>k < length C. fill_pieces seeds bnd (Suc ind) ps pc ! k =
      (if \<exists>j < length ps. pr (Suc ind + j) \<noteq> - 1 \<and> pos (Suc ind + j) = k then C ! k else pc ! k))"
  proof (rule Cons.IH)
    show "length pc = length C" using Cons.prems(4) by (simp add: pc_def)
  qed (use Cons.prems(1-3) [of "Suc _"] in simp_all)
  have pk: "pc ! k = (if pr ind \<noteq> - 1 \<and> pos ind = k then C ! k else pieces ! k)" if "k < length C" for k
    using Cons.prems(3) [of 0] Cons.prems(4) that by (auto simp: pc_def nth_list_update)
  have ex: "(\<exists>j < length (p # ps). pr (ind + j) \<noteq> - 1 \<and> pos (ind + j) = k) \<longleftrightarrow>
    (pr ind \<noteq> - 1 \<and> pos ind = k) \<or> (\<exists>j < length ps. pr (Suc ind + j) \<noteq> - 1 \<and> pos (Suc ind + j) = k)" for k
    by (simp add: Ex_less_Suc2)
  show ?case unfolding step ex using ih pk by auto
qed


lemma shuffle_levels_gen:
  assumes "\<And>k xs. mset (shuf k xs) = mset xs" "length pre = n"
  shows "\<exists>bs'. shuffle_levels shuf n (ends n bs) (pre @ concat bs) = pre @ concat bs'
    \<and> map mset bs' = map mset bs"
  using assms(2)
proof (induction bs arbitrary: n pre)
  case Nil
  then show ?case by simp
next
  case (Cons b bs)
  define c where "c = (if b = [] then b else shuf n b)"
  have c: "mset c = mset b" using assms(1) by (simp add: c_def)
  then have len: "length c = length b" by (metis size_mset)
  have "\<exists>bs'. shuffle_levels shuf (n + length b) (ends (n + length b) bs) ((pre @ c) @ concat bs) =
      (pre @ c) @ concat bs' \<and> map mset bs' = map mset bs"
    using Cons.prems len by (intro Cons.IH) simp
  then obtain bs' where ih: "shuffle_levels shuf (n + length b) (ends (n + length b) bs) ((pre @ c) @ concat bs) =
      (pre @ c) @ concat bs'" "map mset bs' = map mset bs" by blast
  have "shuffle_levels shuf n (ends n (b # bs)) (pre @ concat (b # bs)) = pre @ concat (c # bs')"
    using ih(1) Cons.prems by (cases "b = []") (simp_all add: c_def)
  then show ?case using c ih(2) by (intro exI [of _ "c # bs'"]) simp
qed

lemma ends_cong_length: "map length bs' = map length bs \<Longrightarrow> ends n bs' = ends n bs"
  by (metis accumulate_ends)

lemma renumber_placed:
  assumes "distinct xs" "ids m xs"
  shows "placed (renumber n xs m) n xs \<and> reindexed (nat ` set xs) m (renumber n xs m)"
  using assms
proof (induction xs arbitrary: n m)
  case (Cons x xs)
  let ?m = "set_index m (nat x) n"
  have ids: "ids ?m xs" using Cons.prems(2) by (simp add: ids_cong [of ?m m])
  have x: "0 \<le> x" "nat x < length m" "nat x \<notin> nat ` set xs"
    using Cons.prems nat_notin_image [of m xs x] by auto
  note ih = Cons.IH [OF _ ids, of "Suc n"]
  have re: "reindexed (nat ` set xs) ?m (renumber (Suc n) xs ?m)" and pl: "placed (renumber (Suc n) xs ?m) (Suc n) xs"
    using ih Cons.prems(1) by simp_all
  have "renumber (Suc n) xs ?m ! nat x = ?m ! nat x" using reindexed_other [OF re x(3)] x(2) by simp
  then have "index (renumber (Suc n) xs ?m ! nat x) = n" using x(2) by (simp add: set_index_nth)
  moreover have "reindexed (nat ` set (x # xs)) m (renumber (Suc n) xs ?m)"
    using reindexed_set_index [of "nat x" "{nat x}" m] re by (rule reindexed_trans) auto
  ultimately show ?case using x pl reindexed_length [OF re] by simp
qed simp

section \<open>The queue is rebuilt\<close>

lemma rank_le: "rank pr i \<le> i"
  unfolding rank_def by (metis length_filter_le length_upt minus_nat.diff_0)

lemma level_count_length: "level_count pr n l = length (bucket pr n l)"
  by (simp add: level_count_def bucket_def)

lemma bucketed_mset_cong:
  "map mset bs' = map mset bs \<Longrightarrow> bucketed pr n bs \<Longrightarrow> bucketed pr n bs'"
proof (induction bs' arbitrary: bs n)
  case (Cons b' bs')
  then obtain b cs where "bs = b # cs" "mset b' = mset b" "map mset bs' = map mset cs" by (cases bs) auto
  moreover from this(2) have "set b' = set b" by (rule mset_eq_setD)
  ultimately show ?case using Cons.prems(2) Cons.IH by auto
qed simp

lemma mset_concat_cong: "map mset bs' = map mset bs \<Longrightarrow> mset (concat bs') = mset (concat bs)"
proof (induction bs' arbitrary: bs)
  case (Cons b' bs')
  then obtain b cs where "bs = b # cs" "mset b' = mset b" "map mset bs' = map mset cs" by (cases bs) auto
  then show ?case using Cons.IH [of cs] by simp
qed simp

lemma update_pieces_queue:
  assumes shuf: "\<And>k xs. mset (shuf k xs) = mset xs" and ok: "pieces_ok (m_piece_map s)"
  shows "queue_ok (update_pieces shuf s)"
    and "same_pieces (m_piece_map s) (m_piece_map (update_pieces shuf s))"
proof -
  define m where "m = m_piece_map s"
  define n where "n = length m"
  define pr where "pr = (\<lambda>i. if i < n then prio_of s i else - 1)"
  define seeds where "seeds = m_seeds s"
  obtain L where L: "replicate (length (if m_priority_boundries s = [] then [0] else m_priority_boundries s)) 0 =
      map (level_count pr 0) [0..<L]" "0 < L"
    by (rule that [of "length (if m_priority_boundries s = [] then [0] else m_priority_boundries s)"])
      (auto intro!: nth_equalityI simp: level_count_simps)
  have prm: "priority seeds (m ! j) = pr j" if "j < n" for j
    using that by (simp add: pr_def prio_of_def seeds_def m_def)
  have ge: "- 1 \<le> pr j" for j using prio_of_ge [OF ok] by (simp add: pr_def n_def m_def)
  have "\<exists>L' ps'. count_levels seeds m (map (level_count pr 0) [0..<L]) =
      (ps', map (level_count pr (0 + length m)) [0..<L']) \<and> L \<le> L' \<and> length ps' = length m
    \<and> (\<forall>j < 0 + length m. pr j < int L')
    \<and> (\<forall>j < length m. ps' ! j = (if pr (0 + j) = - 1 then m ! j else (m ! j)\<lparr>index := rank pr (0 + j)\<rparr>))"
    by (rule count_levels_gen) (use prm ge in \<open>simp_all add: n_def\<close>)
  then obtain L' m1 where m1: "count_levels seeds m (map (level_count pr 0) [0..<L]) =
      (m1, map (level_count pr n) [0..<L'])" "L \<le> L'" "length m1 = n" "\<And>j. j < n \<Longrightarrow> pr j < int L'"
    "\<And>j. j < n \<Longrightarrow> m1 ! j = (if pr j = - 1 then m ! j else (m ! j)\<lparr>index := rank pr j\<rparr>)"
    by (auto simp: n_def)
  define bs where "bs = buckets pr n L'"
  define C where "C = concat bs"
  have lc: "map (level_count pr n) [0..<L'] = map length bs"
    by (simp add: bs_def buckets_def level_count_length)
  have ne: "bs \<noteq> []" using L(2) m1(2) by (simp add: bs_def buckets_def)
  have rng: "pr i = - 1 \<or> 0 \<le> pr i \<and> pr i < int L'" if "i < n" for i
    using ge [of i] m1(4) [OF that] by linarith
  have setC: "set C = {int i | i. i < n \<and> pr i \<noteq> - 1}" unfolding C_def bs_def using rng by (rule set_buckets)
  have distC: "distinct C" unfolding C_def bs_def by (rule distinct_buckets)
  have "ends 0 bs \<noteq> []" using ne by (cases bs) auto
  then have lenC: "last (ends 0 bs) = length C" using ne by (simp add: C_def last_conv_nth ends_nth)
  define pos where "pos = (\<lambda>i. length (concat (take (nat (pr i)) bs)) + rank pr i)"
  have posC: "pos i < length C \<and> C ! pos i = int i" if i: "i < n" "pr i \<noteq> - 1" for i
  proof -
    have l: "nat (pr i) < length bs" "pr i = int (nat (pr i))" using rng [OF i(1)] i(2) by (auto simp: bs_def buckets_def)
    have b: "bs ! nat (pr i) = bucket pr n (nat (pr i))" using l(1) by (simp add: bs_def buckets_def)
    show ?thesis
      using concat_buckets_nth [OF l(1)] bucket_rank [OF i(1), of pr "nat (pr i)"] l(2) by (simp add: b C_def pos_def)
  qed
  have wh: "\<not> pos_have (m ! j)" if "j < n" "pr j \<noteq> - 1" for j
    using that prm [OF that(1)] by (auto simp: priority_def)
  have nle: "n \<le> we_have_index" using ok by (simp add: pieces_ok_def n_def m_def)
  have pr1: "priority seeds (m1 ! j) = pr j" if j: "j < n" for j
  proof (cases "pr j = - 1")
    case False
    have "rank pr j \<noteq> we_have_index" using rank_le [of pr j] j nle by simp
    then show ?thesis using m1(5) [OF j] prm [OF j] False wh [OF j] by (simp add: priority_cong_index)
  qed (simp add: m1(5) j prm)
  have start: "(if l = 0 then 0 else ends 0 bs ! (l - 1)) = length (concat (take l bs))" if "l < length bs" for l
    using that by (auto simp: ends_nth)
  let ?pieces0 = "resize (length C) 0 (m_pieces s)"
  have "length (fill_pieces seeds (ends 0 bs) 0 m1 ?pieces0) = length C \<and>
    (\<forall>k < length C. fill_pieces seeds (ends 0 bs) 0 m1 ?pieces0 ! k =
      (if \<exists>j < length m1. pr (0 + j) \<noteq> - 1 \<and> pos (0 + j) = k then C ! k else ?pieces0 ! k))"
  proof (rule fill_pieces_gen)
    fix j assume j: "j < length m1" "pr (0 + j) \<noteq> - 1"
    then have lt: "nat (pr j) < length bs" using rng [of j] m1(3) by (auto simp: bs_def buckets_def)
    show "pos (0 + j) = (if nat (pr (0 + j)) = 0 then 0 else ends 0 bs ! (nat (pr (0 + j)) - 1)) + index (m1 ! j)"
      unfolding add_0 start [OF lt] using j m1(3,5) by (simp add: pos_def)
    show "pos (0 + j) < length C \<and> C ! pos (0 + j) = int (0 + j)" using posC j m1(3) by simp
  qed (use pr1 m1(3) in simp_all)
  moreover have "\<exists>j < length m1. pr (0 + j) \<noteq> - 1 \<and> pos (0 + j) = k" if k: "k < length C" for k
  proof -
    have "C ! k \<in> set C" using k by simp
    then obtain j where j: "C ! k = int j" "j < n" "pr j \<noteq> - 1" unfolding setC by blast
    then have "pos j = k" using posC [OF j(2,3)] k distC by (metis nth_eq_iff_index_eq)
    then show ?thesis using j m1(3) by auto
  qed
  ultimately have fill: "fill_pieces seeds (ends 0 bs) 0 m1 ?pieces0 = C"
    by (intro nth_equalityI) simp_all
  obtain bs' where bs': "shuffle_levels shuf 0 (ends 0 bs) ([] @ concat bs) = [] @ concat bs'" "map mset bs' = map mset bs"
    using shuffle_levels_gen [of shuf "[]" 0 bs, OF shuf] by auto
  define m2 where "m2 = renumber 0 (concat bs') m1"
  have up: "update_pieces shuf s = s\<lparr>m_pieces := concat bs', m_priority_boundries := ends 0 bs, m_piece_map := m2, m_dirty := False\<rparr>"
    using L(1) m1(1) fill bs'(1) unfolding update_pieces_def Let_def L(1) m_def seeds_def [symmetric] lc
    by (simp add: lc accumulate_ends lenC C_def m2_def m_def)
  have ms: "mset (concat bs') = mset C" unfolding C_def by (rule mset_concat_cong) (rule bs'(2))
  have dist: "distinct (concat bs')" using mset_eq_imp_distinct_iff [OF ms] distC by simp
  have set: "set (concat bs') = {int i | i. i < n \<and> pr i \<noteq> - 1}" using mset_eq_setD [OF ms] setC by simp
  have "ids m1 (concat bs')" using set m1(3) by (auto simp: ids_def)
  then have re: "placed m2 0 (concat bs')" "reindexed (nat ` set (concat bs')) m1 m2"
    using renumber_placed [OF dist] by (simp_all add: m2_def)
  have lens: "map length xs = map size (map mset xs)" for xs :: "int list list" by simp
  have "map length bs' = map length bs" unfolding lens bs'(2) ..
  then have ends: "ends 0 bs = ends 0 bs'" by (rule ends_cong_length [symmetric])
  have len2: "length m2 = n" using reindexed_length [OF re(2)] m1(3) by simp
  have rep: "bucket_rep pr m2 (concat bs') (ends 0 bs) bs'"
    unfolding bucket_rep_def
  proof (intro conjI)
    show "bs' \<noteq> []" using ne bs'(2) by auto
    have "bucketed pr 0 bs" unfolding bs_def buckets_def by (rule bucketed_buckets)
    with bs'(2) show "bucketed pr 0 bs'" by (rule bucketed_mset_cong)
    show "\<forall>i < length m2. pr i \<noteq> - 1 \<longrightarrow> int i \<in> set (concat bs')" unfolding set len2 by blast
  qed (use dist re(1) ends in simp_all)
  have q: "priority seeds (m2 ! i) = pr i \<and> pos_have (m2 ! i) = pos_have (m1 ! i)" if "i < n" for i
    by (rule reindexed_priority [OF re(2) rep]) (use that pr1 m1(3) nle in simp_all)
  have have1: "pos_have (m1 ! j) = pos_have (m ! j) \<and> (\<exists>k. m1 ! j = (m ! j)\<lparr>index := k\<rparr>)" if j: "j < n" for j
  proof (cases "pr j = - 1")
    case False
    have "rank pr j \<noteq> we_have_index" using rank_le [of pr j] j nle by simp
    then show ?thesis using m1(5) [OF j] False wh [OF j] by (auto simp: pos_have_def)
  qed (simp add: m1(5) j)
  show sp: "same_pieces (m_piece_map s) (m_piece_map (update_pieces shuf s))"
    unfolding same_pieces_def up m_def [symmetric]
  proof (intro conjI allI impI)
    fix j assume "j < length m"
    then have j: "j < n" by (simp add: n_def)
    obtain a b where "m1 ! j = (m ! j)\<lparr>index := a\<rparr>" "m2 ! j = (m1 ! j)\<lparr>index := b\<rparr>"
      using have1 [OF j] re(2) j m1(3) unfolding reindexed_def by blast
    then show "\<exists>k. m_piece_map (s\<lparr>m_pieces := concat bs', m_priority_boundries := ends 0 bs, m_piece_map := m2, m_dirty := False\<rparr>) ! j
        = (m ! j)\<lparr>index := k\<rparr>" by auto
    show "pos_have (m_piece_map (s\<lparr>m_pieces := concat bs', m_priority_boundries := ends 0 bs, m_piece_map := m2, m_dirty := False\<rparr>) ! j)
        = pos_have (m ! j)" using q [OF j] have1 [OF j] by simp
  qed (simp add: len2 n_def)
  have "pieces_ok m2"
    using ok sp unfolding up pieces_ok_def same_pieces_def by (fastforce simp: in_set_conv_nth)
  moreover have "bucket_rep (prio_of (update_pieces shuf s)) m2 (concat bs') (ends 0 bs) bs'"
    by (rule bucket_rep_cong [OF rep]) (use q len2 in \<open>simp add: up prio_of_def seeds_def\<close>)
  ultimately show "queue_ok (update_pieces shuf s)" by (auto simp: queue_ok_def queue_rep_def up)
qed


lemma update_pieces_ok:
  assumes "\<And>k xs. mset (shuf k xs) = mset xs" "base_ok s"
  shows "picker_ok (update_pieces shuf s)" "\<not> m_dirty (update_pieces shuf s)" "same_base s (update_pieces shuf s)"
proof -
  note u = update_pieces_queue [of shuf s, OF assms(1) base_okD(1) [OF assms(2)]]
  obtain a b c where e: "update_pieces shuf s = s\<lparr>m_pieces := a, m_priority_boundries := b, m_piece_map := c, m_dirty := False\<rparr>"
    by (cases "count_levels (m_seeds s) (m_piece_map s)
      (replicate (length (if m_priority_boundries s = [] then [0] else m_priority_boundries s)) 0)")
      (auto simp: update_pieces_def Let_def simp del: length_0_conv)
  have "map flags (m_piece_map (update_pieces shuf s)) = map flags (m_piece_map s)"
    using u(2) by (rule same_pieces_flags)
  then show sb: "same_base s (update_pieces shuf s)" by (simp add: same_base_def e)
  show "picker_ok (update_pieces shuf s)" using u(1) same_base_ok [OF sb assms(2)] by (simp add: picker_ok_def)
  show "\<not> m_dirty (update_pieces shuf s)" by (simp add: e)
qed

end
