(* ===== verification/Picker_Blocks.thy ===== *)
theory Picker_Blocks
  imports Picker_Rebuild
begin

text \<open>
  The operations of \<open>piece_picker\<close> on single blocks: a block is requested
  (\<open>mark_as_downloading\<close>), received (\<open>mark_as_writing\<close>), stored (\<open>mark_as_finished\<close>), lost
  (\<open>write_failed\<close>, \<open>abort_download\<close>), and the queries on its state. Every operation keeps the
  invariant of the picker. Where the code dereferences the result of \<open>find_dl_piece\<close> after an
  assertion that it is not the end, the model leaves the state unchanged; the invariant excludes
  the case.
\<close>

section \<open>The operations\<close>

definition update_full :: "nat \<Rightarrow> piece_picker \<Rightarrow> piece_picker" where
  "update_full k s =
    (let dp = m_downloads s ! k
     in set_piece (dl_index dp)
          (\<lambda>p. p\<lparr>full := requested dp + finished dp + writing dp = int (blocks_in_piece (dl_index dp) s)\<rparr>) s)"

definition is_requested :: "piece_block \<Rightarrow> piece_picker \<Rightarrow> bool" where
  "is_requested block s =
    (if \<not> downloading (m_piece_map s ! piece_index block) then False
     else case find_dl_piece (piece_index block) s of
            None \<Rightarrow> False
          | Some k \<Rightarrow> block_state (dl_block k (block_index block) s) = state_requested)"

definition is_downloaded :: "piece_block \<Rightarrow> piece_picker \<Rightarrow> bool" where
  "is_downloaded block s =
    (if index (m_piece_map s ! piece_index block) = we_have_index then True
     else if \<not> downloading (m_piece_map s ! piece_index block) then False
     else case find_dl_piece (piece_index block) s of
            None \<Rightarrow> False
          | Some k \<Rightarrow>
              block_state (dl_block k (block_index block) s) = state_finished
              \<or> block_state (dl_block k (block_index block) s) = state_writing)"

definition is_finished :: "piece_block \<Rightarrow> piece_picker \<Rightarrow> bool" where
  "is_finished block s =
    (if index (m_piece_map s ! piece_index block) = we_have_index then True
     else if \<not> downloading (m_piece_map s ! piece_index block) then False
     else case find_dl_piece (piece_index block) s of
            None \<Rightarrow> False
          | Some k \<Rightarrow> block_state (dl_block k (block_index block) s) = state_finished)"

definition is_piece_finished :: "nat \<Rightarrow> piece_picker \<Rightarrow> bool" where
  "is_piece_finished i s =
    (if \<not> downloading (m_piece_map s ! i) then False
     else case find_dl_piece i s of
            None \<Rightarrow> False
          | Some k \<Rightarrow> \<not> finished (m_downloads s ! k) + writing (m_downloads s ! k) < int (blocks_in_piece i s))"

text \<open>The first block of a piece: the piece is marked as downloading, moved in the queue, and gets a slot.\<close>

definition start_download :: "nat \<Rightarrow> nat \<Rightarrow> piece_picker \<Rightarrow> nat \<times> piece_picker" where
  "start_download rnd i s =
    (let prio = prio_of s i;
         s = set_piece i (\<lambda>p. p\<lparr>downloading := True\<rparr>) s;
         s = (if 0 \<le> prio \<and> \<not> m_dirty s
              then update rnd (nat prio) (index (m_piece_map s ! i)) s else s)
     in add_download_piece i s)"

definition mark_as_downloading ::
  "nat \<Rightarrow> piece_block \<Rightarrow> peer_ptr \<Rightarrow> piece_state_t \<Rightarrow> piece_picker \<Rightarrow> bool \<times> piece_picker" where
  "mark_as_downloading rnd block pe state s =
    (let i = piece_index block; j = block_index block
     in if \<not> downloading (m_piece_map s ! i) then
          let (k, s) = start_download rnd i s;
              s = set_dl k (\<lambda>d. d\<lparr>dl_state := state\<rparr>) s;
              s = set_block k j (\<lambda>b. \<lparr>peer = pe, num_peers = 1, block_state = state_requested\<rparr>) s;
              s = set_dl k (\<lambda>d. d\<lparr>requested := requested d + 1\<rparr>) s
          in (True, update_full k s)
        else case find_dl_piece i s of
               None \<Rightarrow> (False, s)
             | Some k \<Rightarrow>
                 let st = block_state (dl_block k j s)
                 in if st = state_writing \<or> st = state_finished then (False, s)
                    else
                      let s = set_block k j (\<lambda>b. b\<lparr>peer := pe\<rparr>) s;
                          s = (if st \<noteq> state_requested then
                                 let s = set_block k j (\<lambda>b. b\<lparr>block_state := state_requested\<rparr>) s;
                                     s = set_dl k (\<lambda>d. d\<lparr>requested := requested d + 1\<rparr>) s
                                 in update_full k s
                               else s);
                          s = set_block k j (\<lambda>b. b\<lparr>num_peers := (num_peers b + 1) mod 2 ^ 14\<rparr>) s;
                          s = set_dl k (\<lambda>d. if dl_state d = ps_none then d\<lparr>dl_state := state\<rparr> else d) s
                      in (True, s))"

definition num_peers_of :: "piece_block \<Rightarrow> piece_picker \<Rightarrow> nat" where
  "num_peers_of block s =
    (if \<not> downloading (m_piece_map s ! piece_index block) then 0
     else case find_dl_piece (piece_index block) s of
            None \<Rightarrow> 0
          | Some k \<Rightarrow> num_peers (dl_block k (block_index block) s))"

definition mark_as_writing :: "nat \<Rightarrow> piece_block \<Rightarrow> peer_ptr \<Rightarrow> piece_picker \<Rightarrow> bool \<times> piece_picker" where
  "mark_as_writing rnd block pe s =
    (let i = piece_index block; j = block_index block
     in if \<not> downloading (m_piece_map s ! i) then
          if pos_have (m_piece_map s ! i) then (False, s)
          else
            let (k, s) = start_download rnd i s;
                s = set_dl k (\<lambda>d. d\<lparr>dl_state := ps_none\<rparr>) s;
                s = set_block k j (\<lambda>b. \<lparr>peer = pe, num_peers = 0, block_state = state_writing\<rparr>) s;
                s = set_dl k (\<lambda>d. d\<lparr>writing := 1\<rparr>) s
            in (True, update_full k s)
        else case find_dl_piece i s of
               None \<Rightarrow> (False, s)
             | Some k \<Rightarrow>
                 let st = block_state (dl_block k j s);
                     s = set_block k j (\<lambda>b. b\<lparr>peer := pe\<rparr>) s;
                     s = (if st = state_requested
                          then set_dl k (\<lambda>d. d\<lparr>requested := requested d - 1\<rparr>) s else s)
                 in if st = state_writing \<or> st = state_finished then (False, s)
                    else
                      let s = set_dl k (\<lambda>d. d\<lparr>writing := writing d + 1\<rparr>) s;
                          s = set_block k j (\<lambda>b. b\<lparr>block_state := state_writing\<rparr>) s;
                          s = set_block k j (\<lambda>b. b\<lparr>num_peers := 0\<rparr>) s;
                          s = set_dl k (\<lambda>d. if requested d = 0 then d\<lparr>dl_state := ps_none\<rparr> else d) s
                      in (True, s))"

definition write_failed :: "nat \<Rightarrow> piece_block \<Rightarrow> piece_picker \<Rightarrow> piece_picker" where
  "write_failed rnd block s =
    (let i = piece_index block; j = block_index block
     in case find_dl_piece i s of
          None \<Rightarrow> s
        | Some k \<Rightarrow>
            let st = block_state (dl_block k j s)
            in if st = state_finished then s
               else
                 let s = (if st = state_writing
                          then set_dl k (\<lambda>d. d\<lparr>writing := writing d - 1\<rparr>) s else s);
                     s = set_block k j (\<lambda>b. b\<lparr>peer := 0\<rparr>) s;
                     s = set_block k j (\<lambda>b. b\<lparr>block_state := state_none\<rparr>) s;
                     s = update_full k s;
                     dp = m_downloads s ! k
                 in if finished dp + writing dp + requested dp = 0 then
                      let prev_priority = prio_of s i;
                          s = erase_download_piece k s;
                          new_priority = prio_of s i
                      in if m_dirty s then s
                         else if new_priority = prev_priority then s
                         else requeue rnd prev_priority i s
                    else s)"

definition mark_as_finished :: "nat \<Rightarrow> piece_block \<Rightarrow> peer_ptr \<Rightarrow> piece_picker \<Rightarrow> piece_picker" where
  "mark_as_finished rnd block pe s =
    (let i = piece_index block; j = block_index block
     in if \<not> downloading (m_piece_map s ! i) then
          if pos_have (m_piece_map s ! i) then s
          else
            let (k, s) = start_download rnd i s;
                s = set_dl k (\<lambda>d. d\<lparr>dl_state := ps_none\<rparr>) s;
                s = set_block k j (\<lambda>b. b\<lparr>peer := pe\<rparr>) s;
                s = (if block_state (dl_block k j s) \<noteq> state_finished
                     then set_dl k (\<lambda>d. d\<lparr>finished := finished d + 1\<rparr>) s else s)
            in set_block k j (\<lambda>b. b\<lparr>block_state := state_finished\<rparr>) s
        else case find_dl_piece i s of
               None \<Rightarrow> s
             | Some k \<Rightarrow>
                 let st = block_state (dl_block k j s)
                 in if st = state_finished then s
                    else
                      let s = set_block k j (\<lambda>b. b\<lparr>peer := pe\<rparr>) s;
                          s = set_dl k (\<lambda>d. d\<lparr>finished := finished d + 1\<rparr>) s;
                          s = (if st = state_writing
                               then set_dl k (\<lambda>d. d\<lparr>writing := writing d - 1\<rparr>) s else s)
                      in set_block k j (\<lambda>b. b\<lparr>block_state := state_finished\<rparr>) s)"

definition get_downloaders :: "nat \<Rightarrow> piece_picker \<Rightarrow> peer_ptr list" where
  "get_downloaders i s =
    (case find_dl_piece i s of
       None \<Rightarrow> []
     | Some k \<Rightarrow> map (\<lambda>j. peer (dl_block k j s)) [0..<blocks_in_piece i s])"

definition get_downloader :: "piece_block \<Rightarrow> piece_picker \<Rightarrow> peer_ptr" where
  "get_downloader block s =
    (case find_dl_piece (piece_index block) s of
       None \<Rightarrow> 0
     | Some k \<Rightarrow>
         if block_state (dl_block k (block_index block) s) = state_none then 0
         else peer (dl_block k (block_index block) s))"

definition abort_download :: "nat \<Rightarrow> piece_block \<Rightarrow> peer_ptr \<Rightarrow> piece_picker \<Rightarrow> piece_picker" where
  "abort_download rnd block pe s =
    (let i = piece_index block; j = block_index block
     in if \<not> downloading (m_piece_map s ! i) then s
        else case find_dl_piece i s of
               None \<Rightarrow> s
             | Some k \<Rightarrow>
                 let st = block_state (dl_block k j s)
                 in if st = state_finished \<or> st = state_none \<or> st = state_writing then s
                    else
                      let s = set_block k j (\<lambda>b. if 0 < num_peers b then b\<lparr>num_peers := num_peers b - 1\<rparr> else b) s;
                          s = set_block k j (\<lambda>b. if peer b = pe then b\<lparr>peer := 0\<rparr> else b) s
                      in if 0 < num_peers (dl_block k j s) then s
                         else
                           let s = set_block k j (\<lambda>b. b\<lparr>peer := 0, block_state := state_none\<rparr>) s;
                               s = set_dl k (\<lambda>d. d\<lparr>requested := requested d - 1\<rparr>) s;
                               s = update_full k s;
                               dp = m_downloads s ! k
                           in if requested dp + finished dp + writing dp = 0 then
                                let prev_prio = prio_of s i;
                                    s = erase_download_piece k s
                                in if \<not> m_dirty s then
                                     if prev_prio = - 1 \<and> 0 \<le> prio_of s i then add rnd i s
                                     else if 0 \<le> prev_prio
                                     then update rnd (nat prev_prio) (index (m_piece_map s ! i)) s
                                     else s
                                   else s
                              else if requested dp = 0 then set_dl k (\<lambda>d. d\<lparr>dl_state := ps_none\<rparr>) s
                              else s)"

definition clear_peer :: "peer_ptr \<Rightarrow> piece_picker \<Rightarrow> piece_picker" where
  "clear_peer pe s =
    s\<lparr>m_block_info := map (\<lambda>b. if peer b = pe then b\<lparr>peer := 0\<rparr> else b) (m_block_info s)\<rparr>"

definition unverified_blocks :: "piece_picker \<Rightarrow> int" where
  "unverified_blocks s = foldl (\<lambda>counter d. counter + finished d) 0 (m_downloads s)"

section \<open>Editing one download\<close>

text \<open>
  \<open>dl_edit p k v v' s s'\<close>: \<open>s'\<close> is \<open>s\<close> with the download of piece \<open>p\<close>, in position \<open>k\<close>,
  changed from \<open>v\<close> to \<open>v'\<close>, and possibly the \<open>full\<close> flag of the piece.
\<close>

definition dl_edit :: "nat \<Rightarrow> nat \<Rightarrow> download \<Rightarrow> download \<Rightarrow> piece_picker \<Rightarrow> piece_picker \<Rightarrow> bool" where
  "dl_edit p k v v' s s' \<longleftrightarrow>
     (\<exists>b ds bl. s' = s\<lparr>m_piece_map := (m_piece_map s)[p := (m_piece_map s ! p)\<lparr>full := b\<rparr>],
        m_downloads := ds, m_block_info := bl\<rparr>)
     \<and> dl_ok s' \<and> find_dl_piece p s' = Some k \<and> dl_view s p = Some v \<and> dl_view s' = (dl_view s)(p \<mapsto> v')"

lemma find_dl_cong: "map dl_index (m_downloads s') = map dl_index (m_downloads s) \<Longrightarrow> find_dl_piece p s' = find_dl_piece p s"
proof -
  assume m: "map dl_index (m_downloads s') = map dl_index (m_downloads s)"
  note len = map_eq_imp_length_eq [OF m]
  have lb: "length (takeWhile (\<lambda>d. dl_index d < p) ds) = length (takeWhile (\<lambda>x. x < p) (map dl_index ds))" for ds
    by (simp add: takeWhile_map comp_def)
  have "lower_bound_dl p (m_downloads s') = lower_bound_dl p (m_downloads s)"
    unfolding lower_bound_dl_def lb m ..
  moreover have "dl_index (m_downloads s' ! i) = dl_index (m_downloads s ! i)" if "i < length (m_downloads s)" for i
    using m len that by (metis nth_map)
  ultimately show ?thesis
    using len lower_bound_le [of p "m_downloads s"] by (auto simp: find_dl_piece_def Let_def)
qed

lemma dl_edit_refl:
  assumes "dl_ok s" "find_dl_piece p s = Some k" "dl_view s p = Some v"
  shows "dl_edit p k v v s s"
proof -
  have "s = s\<lparr>m_piece_map := (m_piece_map s)[p := (m_piece_map s ! p)\<lparr>full := full (m_piece_map s ! p)\<rparr>],
    m_downloads := m_downloads s, m_block_info := m_block_info s\<rparr>" by simp
  then show ?thesis using assms unfolding dl_edit_def by (metis fun_upd_triv)
qed

lemma dl_editD:
  assumes "dl_edit p k v v' s s'"
  shows "dl_ok s'" "find_dl_piece p s' = Some k" "dl_view s' p = Some v'" "k < length (m_downloads s')"
    "dl_index (m_downloads s' ! k) = p" "m_blocks_per_piece s' = m_blocks_per_piece s"
    "num_pieces s' = num_pieces s" "blocks_in_piece q s' = blocks_in_piece q s" "m_dirty s' = m_dirty s"
    "v' = view_of (m_block_info s') (m_blocks_per_piece s') (m_downloads s' ! k)"
proof -
  obtain b ds bl where s': "s' = s\<lparr>m_piece_map := (m_piece_map s)[p := (m_piece_map s ! p)\<lparr>full := b\<rparr>],
      m_downloads := ds, m_block_info := bl\<rparr>" using assms unfolding dl_edit_def by blast
  show "dl_ok s'" "find_dl_piece p s' = Some k" "dl_view s' p = Some v'"
    using assms unfolding dl_edit_def by simp_all
  then show "k < length (m_downloads s')" "dl_index (m_downloads s' ! k) = p"
    "v' = view_of (m_block_info s') (m_blocks_per_piece s') (m_downloads s' ! k)"
    using find_dl_piece_Some view_find by auto
  show "m_blocks_per_piece s' = m_blocks_per_piece s" "num_pieces s' = num_pieces s"
    "blocks_in_piece q s' = blocks_in_piece q s" "m_dirty s' = m_dirty s"
    by (simp_all add: s' blocks_in_piece_def)
qed

lemma dl_edit_step:
  assumes e: "dl_edit p k v v1 s s1" and s2: "dl_ok s2" "find_dl_piece p s2 = Some k"
    "dl_view s2 = (dl_view s1)(p \<mapsto> v2)"
    and c: "s2 = s1\<lparr>m_piece_map := (m_piece_map s1)[p := (m_piece_map s1 ! p)\<lparr>full := b\<rparr>],
      m_downloads := ds, m_block_info := bl\<rparr>"
  shows "dl_edit p k v v2 s s2"
proof -
  obtain b1 ds1 bl1 where s1: "s1 = s\<lparr>m_piece_map := (m_piece_map s)[p := (m_piece_map s ! p)\<lparr>full := b1\<rparr>],
      m_downloads := ds1, m_block_info := bl1\<rparr>" using e unfolding dl_edit_def by blast
  have "p < num_pieces s1" using dl_lt [OF dl_editD(1,2) [OF e]] by simp
  then have "m_piece_map s1 ! p = (m_piece_map s ! p)\<lparr>full := b1\<rparr>" by (simp add: s1)
  then have "s2 = s\<lparr>m_piece_map := (m_piece_map s)[p := (m_piece_map s ! p)\<lparr>full := b\<rparr>],
      m_downloads := ds, m_block_info := bl\<rparr>"
    unfolding c by (simp add: s1)
  moreover have "dl_view s2 = (dl_view s)(p \<mapsto> v2)" using s2(3) e unfolding dl_edit_def by simp
  ultimately show ?thesis using s2 e unfolding dl_edit_def by blast
qed

lemma same_full: "m = m[p := (m ! p)\<lparr>full := full (m ! p)\<rparr>]"
  by simp

lemma dl_edit_block:
  assumes e: "dl_edit p k v v1 s s1" and j: "j < m_blocks_per_piece s"
  shows "dl_edit p k v (v1\<lparr>v_blocks := (v_blocks v1)[j := f (v_blocks v1 ! j)]\<rparr>) s (set_block k j f s1)"
    and "dl_block k j s1 = v_blocks v1 ! j"
proof -
  note d = dl_editD [OF e]
  have j1: "j < m_blocks_per_piece s1" using j d(6) by simp
  show b: "dl_block k j s1 = v_blocks v1 ! j" using dl_block_view [OF d(1,2,3) j1] .
  show "dl_edit p k v (v1\<lparr>v_blocks := (v_blocks v1)[j := f (v_blocks v1 ! j)]\<rparr>) s (set_block k j f s1)"
  proof (rule dl_edit_step [OF e])
    show "dl_view (set_block k j f s1) = (dl_view s1)(p \<mapsto> v1\<lparr>v_blocks := (v_blocks v1)[j := f (v_blocks v1 ! j)]\<rparr>)"
      using set_block_view [OF d(1,2) j1 d(3)] b by simp
    show "set_block k j f s1 = s1\<lparr>m_piece_map := (m_piece_map s1)[p := (m_piece_map s1 ! p)\<lparr>full := full (m_piece_map s1 ! p)\<rparr>],
        m_downloads := m_downloads s1, m_block_info := m_block_info (set_block k j f s1)\<rparr>"
      by (simp add: set_block_def)
    show "find_dl_piece p (set_block k j f s1) = Some k"
      using d(2) find_dl_cong [of "set_block k j f s1" s1 p] by (simp add: set_block_def)
  qed (use d(1) in simp)
qed

lemma dl_edit_dl:
  assumes e: "dl_edit p k v v1 s s1"
    and f: "\<And>d. dl_index (f d) = dl_index d" "\<And>d. info (f d) = info d"
    and g: "\<And>bl bpp d. view_of bl bpp (f d) = g (view_of bl bpp d)"
  shows "dl_edit p k v (g v1) s (set_dl k f s1)"
proof (rule dl_edit_step [OF e])
  note d = dl_editD [OF e]
  show "dl_ok (set_dl k f s1)" using d(1,4) f by (intro set_dl_ok) auto
  show "dl_view (set_dl k f s1) = (dl_view s1)(p \<mapsto> g v1)"
    using set_dl_view [OF d(1,2), of f] f g d(10) by simp
  have "map dl_index (m_downloads (set_dl k f s1)) = map dl_index (m_downloads s1)"
    using d(4) f by (auto simp: set_dl_def intro!: map_dl_update)
  from find_dl_cong [OF this] show "find_dl_piece p (set_dl k f s1) = Some k" using d(2) by simp
  show "set_dl k f s1 = s1\<lparr>m_piece_map := (m_piece_map s1)[p := (m_piece_map s1 ! p)\<lparr>full := full (m_piece_map s1 ! p)\<rparr>],
      m_downloads := m_downloads (set_dl k f s1), m_block_info := m_block_info s1\<rparr>"
    by (simp add: set_dl_def)
qed

lemma dl_edit_full:
  assumes e: "dl_edit p k v v1 s s1"
  shows "dl_edit p k v v1 s (update_full k s1)"
    and "full (m_piece_map (update_full k s1) ! p) \<longleftrightarrow> taken v1 = int (blocks_in_piece p s)"
    and "m_downloads (update_full k s1) = m_downloads s1"
proof -
  note d = dl_editD [OF e]
  have lt: "p < num_pieces s1" using dl_lt [OF d(1,2)] by simp
  define b where "b = (requested (m_downloads s1 ! k) + finished (m_downloads s1 ! k) + writing (m_downloads s1 ! k)
    = int (blocks_in_piece p s1))"
  have u: "update_full k s1 = s1\<lparr>m_piece_map := (m_piece_map s1)[p := (m_piece_map s1 ! p)\<lparr>full := b\<rparr>],
      m_downloads := m_downloads s1, m_block_info := m_block_info s1\<rparr>"
    using d(5) by (simp add: update_full_def Let_def set_piece_def b_def)
  have tk: "taken v1 = requested (m_downloads s1 ! k) + finished (m_downloads s1 ! k) + writing (m_downloads s1 ! k)"
    by (subst d(10)) (simp add: taken_def view_of_def)
  show "full (m_piece_map (update_full k s1) ! p) \<longleftrightarrow> taken v1 = int (blocks_in_piece p s)"
    using lt d(8) tk by (simp add: u b_def)
  show "m_downloads (update_full k s1) = m_downloads s1" by (simp add: u)
  show "dl_edit p k v v1 s (update_full k s1)"
  proof (rule dl_edit_step [OF e _ _ _ u])
    show "dl_view (update_full k s1) = (dl_view s1)(p \<mapsto> v1)"
      using d(3) by (auto simp: u dl_view_def fun_eq_iff)
    show "find_dl_piece p (update_full k s1) = Some k"
      using d(2) find_dl_cong [of "update_full k s1" s1 p] by (simp add: u)
    show "dl_ok (update_full k s1)" using d(1) lt by (auto simp: u dl_ok_def nth_list_update)
  qed
qed

lemma view_of_simps:
  "view_of bl bpp (d\<lparr>dl_state := x\<rparr>) = (view_of bl bpp d)\<lparr>v_state := x\<rparr>"
  "view_of bl bpp (d\<lparr>requested := y\<rparr>) = (view_of bl bpp d)\<lparr>v_requested := y\<rparr>"
  "view_of bl bpp (d\<lparr>finished := y\<rparr>) = (view_of bl bpp d)\<lparr>v_finished := y\<rparr>"
  "view_of bl bpp (d\<lparr>writing := y\<rparr>) = (view_of bl bpp d)\<lparr>v_writing := y\<rparr>"
  "requested d = v_requested (view_of bl bpp d)" "finished d = v_finished (view_of bl bpp d)"
  "writing d = v_writing (view_of bl bpp d)" "dl_state d = v_state (view_of bl bpp d)"
  by (simp_all add: view_of_def)

section \<open>The invariant\<close>

lemma view_length: "dl_ok s \<Longrightarrow> dl_view s p = Some v \<Longrightarrow> length (v_blocks v) = m_blocks_per_piece s"
proof -
  assume ok: "dl_ok s" and v: "dl_view s p = Some v"
  then obtain d where d: "d \<in> set (m_downloads s)" "v = view_of (m_block_info s) (m_blocks_per_piece s) d"
    by (auto simp: dl_view_def dest!: map_of_SomeD)
  have "info d + m_blocks_per_piece s \<le> length (m_block_info s)"
    using ok by (intro slot_in_range [OF _ d(1)]) (simp add: dl_ok_def)
  then show ?thesis by (simp add: d(2) view_of_def)
qed

lemma blocks_in_piece_le: "base_ok s \<Longrightarrow> blocks_in_piece p s \<le> m_blocks_per_piece s"
  by (simp add: blocks_in_piece_def base_ok_def)

lemma blocks_in_piece_pos: "base_ok s \<Longrightarrow> 0 < blocks_in_piece p s"
  by (simp add: blocks_in_piece_def base_ok_def dl_ok_def slots_ok_def)

lemma count_update:
  assumes "j < n" "n \<le> length bs"
  shows "count_state st (take n (bs[j := b])) = count_state st (take n bs)
    - (if block_state (bs ! j) = st then 1 else 0) + (if block_state b = st then 1 else 0)"
proof -
  have "take n (bs[j := b]) = (take n bs)[j := b]" by (simp add: take_update_swap)
  moreover have "j < length (take n bs)" using assms by simp
  ultimately show ?thesis
    using length_filter_update [of j "take n bs" "\<lambda>b. block_state b = st" b] assms(1) by (simp add: count_state_def)
qed

lemma peers_blank [simp]: "peers_ok blank_block" "num_peers blank_block = 0"
  by (simp_all add: peers_ok_def blank_block_def)

lemma count_pos:
  "j < n \<Longrightarrow> n \<le> length bs \<Longrightarrow> block_state (bs ! j) = st \<Longrightarrow> 0 < count_state st (take n bs)"
  by (auto simp: count_state_def filter_empty_conv intro!: bexI [of _ "bs ! j"]) (metis in_set_conv_nth length_take
    min.absorb4 nth_take order_less_le_trans min_less_iff_conj)

lemma count_nonneg: "0 \<le> count_state st bs"
  by (simp add: count_state_def)

lemma count_blank [simp]: "count_state st (replicate m blank_block) = (if st = state_none then int m else 0)"
  by (auto simp: count_state_def blank_block_def)

lemma fresh_ok: "n \<le> bpp \<Longrightarrow> view_ok n (fresh_download bpp)"
  by (simp add: view_ok_def fresh_download_def)

lemma dl_edit_ok:
  assumes e: "dl_edit p k v v' s s'" and ok: "picker_ok s" and v': "view_ok (blocks_in_piece p s) v'"
  shows "picker_ok s'"
proof -
  note d = dl_editD [OF e]
  obtain b ds bl where s': "s' = s\<lparr>m_piece_map := (m_piece_map s)[p := (m_piece_map s ! p)\<lparr>full := b\<rparr>],
      m_downloads := ds, m_block_info := bl\<rparr>" using e unfolding dl_edit_def by blast
  have view: "dl_view s' = (dl_view s)(p \<mapsto> v')" using e unfolding dl_edit_def by simp
  have lt: "p < num_pieces s" using dl_lt [OF d(1,2)] d(7) by simp
  have base: "base_ok s" using ok by (simp add: picker_ok_def)
  note bo = base_okD [OF base]
  have m': "m_piece_map s' = (m_piece_map s)[p := (m_piece_map s ! p)\<lparr>full := b\<rparr>]" by (simp add: s')
  have fl: "map flags (m_piece_map s') = map flags (m_piece_map s)" "map wants (m_piece_map s') = map wants (m_piece_map s)"
    unfolding m' using lt by (auto intro!: map_dl_update simp: flags_def wants_def pos_have_def)
  have "counts_ok s'" "cursors_ok s'"
    using counts_cursors_cong [OF fl(2)] bo(2,3) by (simp_all add: s')
  moreover have "views_ok s'" using bo(5) v' d(8) by (auto simp: views_ok_def view)
  moreover have "pieces_ok (m_piece_map s')" "\<forall>q \<in> set (m_piece_map s'). pos_have q \<longrightarrow> \<not> downloading q"
    using bo(1,6,9) lt by (auto simp: m' pieces_ok_def in_set_conv_nth nth_list_update pos_have_def split: if_splits)
  ultimately have base': "base_ok s'" using d(1) bo(7,8) by (simp add: base_ok_def s')
  have ch: "piece_changed p s s'" using lt by (simp add: s' piece_changed_def agree_except_def)
  have "index (m_piece_map s' ! p) = index (m_piece_map s ! p)" "prio_of s' p = prio_of s p"
    using lt by (simp_all add: s' prio_of_def priority_def pos_have_def pos_filtered_def Let_def)
  then have "queue_ok s \<Longrightarrow> queue_ok s'" using same_index_ok [OF _ base_okD(1) [OF base'] ch] by simp
  then show ?thesis using ok base' d(9) by (auto simp: picker_ok_def)
qed

lemma start_download_ok:
  assumes ok: "picker_ok s" and i: "i < num_pieces s" and p: "\<not> downloading (m_piece_map s ! i)" "\<not> pos_have (m_piece_map s ! i)"
    and st: "start_download rnd i s = (k, s')"
  shows "picker_ok s'" "find_dl_piece i s' = Some k" "dl_view s' = (dl_view s)(i \<mapsto> fresh_download (m_blocks_per_piece s))"
    "m_blocks_per_piece s' = m_blocks_per_piece s" "\<And>q. blocks_in_piece q s' = blocks_in_piece q s"
    "num_pieces s' = num_pieces s" "m_dirty s' = m_dirty s"
proof -
  let ?q = "(m_piece_map s ! i)\<lparr>downloading := True\<rparr>"
  define s1 where "s1 = set_piece i (\<lambda>p. p\<lparr>downloading := True\<rparr>) s"
  define s2 where "s2 = (if 0 \<le> prio_of s i \<and> \<not> m_dirty s1
    then update rnd (nat (prio_of s i)) (index (m_piece_map s1 ! i)) s1 else s1)"
  have add: "add_download_piece i s2 = (k, s')"
    using st by (simp add: start_download_def Let_def s1_def [symmetric] s2_def)
  have base: "base_ok s" using ok by (simp add: picker_ok_def)
  note b = base_okD [OF base]
  have m1: "m_piece_map s1 = (m_piece_map s)[i := ?q]" by (simp add: s1_def set_piece_def)
  have ch: "piece_changed i s s1" unfolding s1_def using i by (rule piece_changed_set_piece)
  have po: "pieces_ok (m_piece_map s1)"
    using b(1,9) i by (auto simp: m1 pieces_ok_def in_set_conv_nth nth_list_update)
  have idx: "index (m_piece_map s1 ! i) = index (m_piece_map s ! i)" using i by (simp add: m1)
  have ge: "- 1 \<le> prio_of s i" using i by (rule prio_of_ge [OF b(1)])
  have neg: "prio_of s i = - 1 \<Longrightarrow> prio_of s1 i = - 1"
    using i b(9) [OF i] by (auto simp: prio_of_def priority_minus_one m1 pos_filtered_def pos_have_def s1_def)
  have q2: "requeued s1 s2 \<and> (m_dirty s \<or> queue_ok s2)"
  proof (cases "0 \<le> prio_of s i \<and> \<not> m_dirty s1")
    case True
    then have "queue_ok s" using ok by (simp add: picker_ok_def s1_def)
    from update_ok [OF this po ch, of "nat (prio_of s i)" rnd] True idx show ?thesis by (simp add: s2_def)
  next
    case False
    then have "m_dirty s \<or> queue_ok s1"
      using ok ge neg same_index_ok [OF _ po ch idx] by (auto simp: picker_ok_def s1_def)
    moreover have "s2 = s1" using False by (auto simp: s2_def)
    ultimately show ?thesis by simp
  qed
  obtain xs bnd m where e2: "s2 = s1\<lparr>m_pieces := xs, m_priority_boundries := bnd, m_piece_map := m\<rparr>"
    using q2 unfolding requeued_def only_queue_def by blast
  have s2s: "s2 = s\<lparr>m_piece_map := m, m_pieces := xs, m_priority_boundries := bnd\<rparr>"
    by (simp add: e2 s1_def set_piece_def)
  have sp: "same_pieces (m_piece_map s1) m" using q2 by (simp add: requeued_def e2)
  note fl = same_pieces_flags [OF sp]
  note nth = map_flags_nth [OF fl]
  have len: "length m = num_pieces s" using nth(1) by (simp add: m1)
  have mq: "downloading (m ! q) = (q = i \<or> downloading (m_piece_map s ! q))"
    "pos_have (m ! q) = pos_have (m_piece_map s ! q)" "piece_priority (m ! q) = piece_priority (m_piece_map s ! q)"
    if "q < num_pieces s" for q
    using nth(2) [of q] that i by (auto simp: m1 flags_def nth_list_update pos_have_def split: if_splits)
  have dl: "\<forall>q < num_pieces s. downloading (m ! q) \<longleftrightarrow> q = i \<or> downloading (m_piece_map s ! q)" using mq(1) by simp
  note a = add_download_ok [OF b(4) s2s len dl i p(1) add]
  obtain ds bl where s': "s' = s2\<lparr>m_downloads := ds, m_block_info := bl\<rparr>" using a(4) by blast
  show "find_dl_piece i s' = Some k" "dl_view s' = (dl_view s)(i \<mapsto> fresh_download (m_blocks_per_piece s))"
    by (rule a(2), rule a(3))
  show "m_blocks_per_piece s' = m_blocks_per_piece s" "num_pieces s' = num_pieces s" "m_dirty s' = m_dirty s"
    and bip: "\<And>q. blocks_in_piece q s' = blocks_in_piece q s"
    by (simp_all add: s' s2s len blocks_in_piece_def)
  have w: "map wants (m_piece_map s') = map wants (m_piece_map s)"
    using len mq(2,3) by (simp add: s' s2s list_eq_iff_nth_eq wants_def)
  have "counts_ok s'" "cursors_ok s'"
    using counts_cursors_cong [OF w] b(2,3) by (simp_all add: s' s2s)
  moreover have "views_ok s'"
    using b(5) fresh_ok [OF blocks_in_piece_le [OF base]] by (simp add: views_ok_def a(3) bip)
  moreover have "pieces_ok (m_piece_map s')"
    using b(1,9) len mq(3) by (auto simp: s' s2s pieces_ok_def in_set_conv_nth)
  moreover have "\<forall>q \<in> set (m_piece_map s'). pos_have q \<longrightarrow> \<not> downloading q"
    using b(6) len mq(1,2) p(2) by (auto simp: s' s2s in_set_conv_nth)
  ultimately have "base_ok s'" using a(1) b(7,8) by (simp add: base_ok_def s' s2s)
  moreover have "prio_of s' = prio_of s2" by (simp add: s' prio_of_def fun_eq_iff)
  then have "m_dirty s' \<or> queue_ok s'"
    using q2 by (simp add: s' queue_ok_def queue_rep_def) (simp add: s2s)
  ultimately show "picker_ok s'" by (simp add: picker_ok_def)
qed

lemma blank_state [simp]: "block_state blank_block = state_none"
  by (simp add: blank_block_def)

lemma count_update_fresh:
  "j < n \<Longrightarrow> n \<le> m \<Longrightarrow> count_state st (take n ((replicate m blank_block)[j := b])) =
    (if st = state_none then int n - 1 else 0) + (if block_state b = st then 1 else 0)"
  by (subst count_update) auto

text \<open>The edits of the counters and of the speed state.\<close>

lemma dl_edit_state:
  "dl_edit p k v v1 s s1 \<Longrightarrow> dl_edit p k v (v1\<lparr>v_state := x\<rparr>) s (set_dl k (\<lambda>d. d\<lparr>dl_state := x\<rparr>) s1)"
  by (rule dl_edit_dl [where g = "\<lambda>v. v\<lparr>v_state := x\<rparr>"]) (simp_all add: view_of_def)

lemma dl_edit_state_if:
  "dl_edit p k v v1 s s1 \<Longrightarrow> dl_edit p k v (if v_state v1 = ps_none then v1\<lparr>v_state := x\<rparr> else v1) s
    (set_dl k (\<lambda>d. if dl_state d = ps_none then d\<lparr>dl_state := x\<rparr> else d) s1)"
  by (rule dl_edit_dl [where g = "\<lambda>v. if v_state v = ps_none then v\<lparr>v_state := x\<rparr> else v"]) (simp_all add: view_of_def)

lemma dl_edit_idle:
  "dl_edit p k v v1 s s1 \<Longrightarrow> dl_edit p k v (if v_requested v1 = 0 then v1\<lparr>v_state := ps_none\<rparr> else v1) s
    (set_dl k (\<lambda>d. if requested d = 0 then d\<lparr>dl_state := ps_none\<rparr> else d) s1)"
  by (rule dl_edit_dl [where g = "\<lambda>v. if v_requested v = 0 then v\<lparr>v_state := ps_none\<rparr> else v"]) (simp_all add: view_of_def)

lemma dl_edit_requested:
  "dl_edit p k v v1 s s1 \<Longrightarrow> dl_edit p k v (v1\<lparr>v_requested := f (v_requested v1)\<rparr>) s
    (set_dl k (\<lambda>d. d\<lparr>requested := f (requested d)\<rparr>) s1)"
  by (rule dl_edit_dl [where g = "\<lambda>v. v\<lparr>v_requested := f (v_requested v)\<rparr>"]) (simp_all add: view_of_def)

lemma dl_edit_writing:
  "dl_edit p k v v1 s s1 \<Longrightarrow> dl_edit p k v (v1\<lparr>v_writing := f (v_writing v1)\<rparr>) s
    (set_dl k (\<lambda>d. d\<lparr>writing := f (writing d)\<rparr>) s1)"
  by (rule dl_edit_dl [where g = "\<lambda>v. v\<lparr>v_writing := f (v_writing v)\<rparr>"]) (simp_all add: view_of_def)

lemma dl_edit_finished:
  "dl_edit p k v v1 s s1 \<Longrightarrow> dl_edit p k v (v1\<lparr>v_finished := f (v_finished v1)\<rparr>) s
    (set_dl k (\<lambda>d. d\<lparr>finished := f (finished d)\<rparr>) s1)"
  by (rule dl_edit_dl [where g = "\<lambda>v. v\<lparr>v_finished := f (v_finished v)\<rparr>"]) (simp_all add: view_of_def)

lemmas dl_edit_intros = dl_edit_full(1) dl_edit_block(1) dl_edit_state dl_edit_state_if dl_edit_idle
  dl_edit_requested [where f = "\<lambda>n. n + 1"] dl_edit_requested [where f = "\<lambda>n. n - 1"]
  dl_edit_writing [where f = "\<lambda>n. n + 1"] dl_edit_writing [where f = "\<lambda>n. n - 1"] dl_edit_writing [where f = "\<lambda>n. 1"]
  dl_edit_finished [where f = "\<lambda>n. n + 1"]

text \<open>A download that was just started, and one that was found.\<close>

lemma started:
  assumes ok: "picker_ok s" and i: "i < num_pieces s" and p: "\<not> downloading (m_piece_map s ! i)" "\<not> pos_have (m_piece_map s ! i)"
    and j: "j < blocks_in_piece i s" and st: "start_download rnd i s = (k, s0)"
  shows "picker_ok s0" "dl_edit i k (fresh_download (m_blocks_per_piece s)) (fresh_download (m_blocks_per_piece s)) s0 s0"
    "j < m_blocks_per_piece s0" "blocks_in_piece i s0 = blocks_in_piece i s" "blocks_in_piece i s \<le> m_blocks_per_piece s"
proof -
  note d = start_download_ok [OF ok i p st]
  have "blocks_in_piece i s \<le> m_blocks_per_piece s" using ok by (simp add: picker_ok_def blocks_in_piece_le)
  then show "picker_ok s0" "j < m_blocks_per_piece s0" "blocks_in_piece i s0 = blocks_in_piece i s"
    "blocks_in_piece i s \<le> m_blocks_per_piece s" using d j by simp_all
  show "dl_edit i k (fresh_download (m_blocks_per_piece s)) (fresh_download (m_blocks_per_piece s)) s0 s0"
    using d by (intro dl_edit_refl) (simp_all add: picker_ok_def base_ok_def)
qed

lemma found:
  assumes ok: "picker_ok s" and k: "find_dl_piece i s = Some k" and j: "j < blocks_in_piece i s"
  obtains v where "dl_view s i = Some v" "dl_edit i k v v s s" "view_ok (blocks_in_piece i s) v"
    "j < m_blocks_per_piece s" "blocks_in_piece i s \<le> length (v_blocks v)" "dl_block k j s = v_blocks v ! j"
proof -
  have base: "base_ok s" using ok by (simp add: picker_ok_def)
  note b = base_okD [OF base]
  obtain v where v: "dl_view s i = Some v" using view_find [OF b(4) k] by blast
  have j': "j < m_blocks_per_piece s" using j blocks_in_piece_le [OF base, of i] by simp
  show thesis
  proof (rule that [OF v dl_edit_refl [OF b(4) k v] _ j'])
    show "view_ok (blocks_in_piece i s) v" using b(5) v by (simp add: views_ok_def)
    show "blocks_in_piece i s \<le> length (v_blocks v)" using view_length [OF b(4) v] blocks_in_piece_le [OF base] by simp
    show "dl_block k j s = v_blocks v ! j" by (rule dl_block_view [OF b(4) k v j'])
  qed
qed

lemma mark_as_downloading_ok:
  assumes ok: "picker_ok s" and i: "piece_index block < num_pieces s" and h: "\<not> pos_have (m_piece_map s ! piece_index block)"
    and j: "block_index block < blocks_in_piece (piece_index block) s" and state: "state \<noteq> ps_none"
    and room: "num_peers_of block s + 1 < 2 ^ 14"
  shows "picker_ok (snd (mark_as_downloading rnd block pe state s))"
proof (cases "downloading (m_piece_map s ! piece_index block)")
  case False
  obtain k s0 where st: "start_download rnd (piece_index block) s = (k, s0)" by (cases "start_download rnd (piece_index block) s")
  note f = started [OF ok i False h j st]
  note e = dl_edit_full(1) [OF dl_edit_requested [OF dl_edit_block(1) [OF dl_edit_state [OF f(2)] f(3)]]]
  show ?thesis
    unfolding mark_as_downloading_def Let_def using False
    by (simp add: st) (rule dl_edit_ok [OF e f(1)],
      use f(4,5) j state in \<open>simp add: view_ok_def fresh_download_def count_update_fresh nth_list_update peers_ok_def\<close>)
next
  case True
  obtain k where k: "find_dl_piece (piece_index block) s = Some k"
    using True find_downloading [OF _ i] ok by (auto simp: picker_ok_def base_ok_def)
  obtain v where v: "dl_edit (piece_index block) k v v s s" "view_ok (blocks_in_piece (piece_index block) s) v"
    "block_index block < m_blocks_per_piece s" "blocks_in_piece (piece_index block) s \<le> length (v_blocks v)"
    "dl_block k (block_index block) s = v_blocks v ! block_index block"
    using found [OF ok k j] by metis
  let ?b = "v_blocks v ! block_index block"
  have room': "num_peers ?b + 1 < 2 ^ 14" using room True k v(5) by (simp add: num_peers_of_def)
  consider (busy) "block_state ?b = state_writing \<or> block_state ?b = state_finished"
    | (again) "block_state ?b = state_requested" | (free) "block_state ?b = state_none"
    by (cases "block_state ?b") auto
  then show ?thesis
  proof cases
    case busy
    then show ?thesis using True k v(5) ok by (simp add: mark_as_downloading_def Let_def)
  next
    case again
    note e = dl_edit_state_if [OF dl_edit_block(1) [OF dl_edit_block(1) [OF v(1,3)] v(3)]]
    show ?thesis
      unfolding mark_as_downloading_def Let_def using True k v(5) again
      by simp (rule dl_edit_ok [OF e ok],
        use v(2,4) j state again room' count_pos [OF j v(4) again] in \<open>auto simp: view_ok_def count_update nth_list_update peers_ok_def\<close>)
  next
    case free
    note e = dl_edit_state_if [OF dl_edit_block(1) [OF dl_edit_full(1) [OF dl_edit_requested
      [OF dl_edit_block(1) [OF dl_edit_block(1) [OF v(1,3)] v(3)]]] v(3)]]
    show ?thesis
      unfolding mark_as_downloading_def Let_def using True k v(5) free
      by simp (rule dl_edit_ok [OF e ok],
        use v(2,4) j state free count_nonneg [of state_requested "take (blocks_in_piece (piece_index block) s) (v_blocks v)"]
        in \<open>auto simp: view_ok_def count_update nth_list_update peers_ok_def\<close>)
  qed
qed


lemma mark_as_writing_ok:
  assumes ok: "picker_ok s" and i: "piece_index block < num_pieces s"
    and j: "block_index block < blocks_in_piece (piece_index block) s"
  shows "picker_ok (snd (mark_as_writing rnd block pe s))"
proof (cases "downloading (m_piece_map s ! piece_index block)")
  case False
  show ?thesis
  proof (cases "pos_have (m_piece_map s ! piece_index block)")
    case True
    then show ?thesis using False ok by (simp add: mark_as_writing_def Let_def)
  next
    case h: False
    obtain k s0 where st: "start_download rnd (piece_index block) s = (k, s0)" by (cases "start_download rnd (piece_index block) s")
    note f = started [OF ok i False h j st]
    note e = dl_edit_full(1) [OF dl_edit_writing [where f = "\<lambda>_. 1", OF dl_edit_block(1) [OF dl_edit_state [OF f(2)] f(3)]]]
    show ?thesis
      unfolding mark_as_writing_def Let_def using False h
      by (simp add: st) (rule dl_edit_ok [OF e f(1)],
        use f(4,5) j in \<open>simp add: view_ok_def fresh_download_def count_update_fresh nth_list_update peers_ok_def\<close>)
  qed
next
  case True
  obtain k where k: "find_dl_piece (piece_index block) s = Some k"
    using True find_downloading [OF _ i] ok by (auto simp: picker_ok_def base_ok_def)
  obtain v where v: "dl_edit (piece_index block) k v v s s" "view_ok (blocks_in_piece (piece_index block) s) v"
    "block_index block < m_blocks_per_piece s" "blocks_in_piece (piece_index block) s \<le> length (v_blocks v)"
    "dl_block k (block_index block) s = v_blocks v ! block_index block"
    using found [OF ok k j] by metis
  let ?b = "v_blocks v ! block_index block"
  note def = mark_as_writing_def [of rnd block pe s, unfolded Let_def]
  consider (busy) "block_state ?b = state_writing \<or> block_state ?b = state_finished"
    | (again) "block_state ?b = state_requested" | (free) "block_state ?b = state_none"
    by (cases "block_state ?b") auto
  then show ?thesis
  proof cases
    case busy
    then have "block_state ?b \<noteq> state_requested" by auto
    moreover note e = dl_edit_block(1) [OF v(1,3)]
    ultimately show ?thesis
      unfolding def using True k v(5) busy
      by simp (rule dl_edit_ok [OF e ok], use v(2,4) j busy in \<open>auto simp: view_ok_def count_update nth_list_update peers_ok_def\<close>)
  next
    case again
    note e = dl_edit_idle [OF dl_edit_block(1) [OF dl_edit_block(1) [OF dl_edit_writing
      [OF dl_edit_requested [OF dl_edit_block(1) [OF v(1,3)]]] v(3)] v(3)]]
    show ?thesis
      unfolding def using True k v(5) again
      by simp (rule dl_edit_ok [OF e ok], use v(2,4) j again count_pos [OF j v(4) again]
        in \<open>auto simp: view_ok_def count_update nth_list_update peers_ok_def\<close>)
  next
    case free
    note e = dl_edit_idle [OF dl_edit_block(1) [OF dl_edit_block(1) [OF dl_edit_writing
      [OF dl_edit_block(1) [OF v(1,3)]] v(3)] v(3)]]
    show ?thesis
      unfolding def using True k v(5) free
      by simp (rule dl_edit_ok [OF e ok], use v(2,4) j free in \<open>auto simp: view_ok_def count_update nth_list_update peers_ok_def\<close>)
  qed
qed

lemma mark_as_finished_ok:
  assumes ok: "picker_ok s" and i: "piece_index block < num_pieces s"
    and j: "block_index block < blocks_in_piece (piece_index block) s"
    and nr: "\<not> is_requested block s"
  shows "picker_ok (mark_as_finished rnd block pe s)"
proof (cases "downloading (m_piece_map s ! piece_index block)")
  case False
  show ?thesis
  proof (cases "pos_have (m_piece_map s ! piece_index block)")
    case True
    then show ?thesis using False ok by (simp add: mark_as_finished_def Let_def)
  next
    case h: False
    obtain k s0 where st: "start_download rnd (piece_index block) s = (k, s0)" by (cases "start_download rnd (piece_index block) s")
    note f = started [OF ok i False h j st]
    note e2 = dl_edit_block [OF dl_edit_state [OF f(2)] f(3)]
    note e = dl_edit_block(1) [OF dl_edit_finished [OF e2(1)] f(3)]
    have "block_state (dl_block k (block_index block) (set_block k (block_index block) (\<lambda>b. b\<lparr>peer := pe\<rparr>)
        (set_dl k (\<lambda>d. d\<lparr>dl_state := ps_none\<rparr>) s0))) = state_none"
      using dl_edit_block(2) [OF e2(1) f(3), where f2 = "\<lambda>b. b\<lparr>peer := pe\<rparr>"] f(3,5) j
      by (simp add: fresh_download_def)
    then show ?thesis
      unfolding mark_as_finished_def Let_def using False h
      by (simp add: st) (rule dl_edit_ok [OF e f(1)],
        use f(4,5) j in \<open>simp add: view_ok_def fresh_download_def count_update_fresh nth_list_update peers_ok_def\<close>)
  qed
next
  case True
  obtain k where k: "find_dl_piece (piece_index block) s = Some k"
    using True find_downloading [OF _ i] ok by (auto simp: picker_ok_def base_ok_def)
  obtain v where v: "dl_edit (piece_index block) k v v s s" "view_ok (blocks_in_piece (piece_index block) s) v"
    "block_index block < m_blocks_per_piece s" "blocks_in_piece (piece_index block) s \<le> length (v_blocks v)"
    "dl_block k (block_index block) s = v_blocks v ! block_index block"
    using found [OF ok k j] by metis
  let ?b = "v_blocks v ! block_index block"
  note def = mark_as_finished_def [of rnd block pe s, unfolded Let_def]
  have "block_state ?b \<noteq> state_requested" using nr True k v(5) by (simp add: is_requested_def)
  then consider (fin) "block_state ?b = state_finished"
    | (written) "block_state ?b = state_writing" | (free) "block_state ?b = state_none"
    by (cases "block_state ?b") auto
  then show ?thesis
  proof cases
    case fin
    then show ?thesis using True k v(5) ok by (simp add: def)
  next
    case written
    note e = dl_edit_block(1) [OF dl_edit_writing [OF dl_edit_finished [OF dl_edit_block(1) [OF v(1,3)]]] v(3)]
    show ?thesis
      unfolding def using True k v(5) written
      by simp (rule dl_edit_ok [OF e ok], use v(2,4) j written in \<open>auto simp: view_ok_def count_update nth_list_update peers_ok_def\<close>)
  next
    case free
    note e = dl_edit_block(1) [OF dl_edit_finished [OF dl_edit_block(1) [OF v(1,3)]] v(3)]
    show ?thesis
      unfolding def using True k v(5) free
      by simp (rule dl_edit_ok [OF e ok], use v(2,4) j free in \<open>auto simp: view_ok_def count_update nth_list_update peers_ok_def\<close>)
  qed
qed

text \<open>A download without blocks left is erased, and its piece is queued under its new priority.\<close>

lemma erase_requeue_ok:
  assumes ok: "picker_ok s" and k: "find_dl_piece i s = Some k"
  shows "picker_ok (if m_dirty (erase_download_piece k s) then erase_download_piece k s
     else if prio_of (erase_download_piece k s) i = prio_of s i then erase_download_piece k s
     else requeue rnd (prio_of s i) i (erase_download_piece k s))"
    and "picker_ok (if \<not> m_dirty (erase_download_piece k s) then
        if prio_of s i = - 1 \<and> 0 \<le> prio_of (erase_download_piece k s) i then add rnd i (erase_download_piece k s)
        else if 0 \<le> prio_of s i
        then update rnd (nat (prio_of s i)) (index (m_piece_map (erase_download_piece k s) ! i)) (erase_download_piece k s)
        else erase_download_piece k s
      else erase_download_piece k s)"
proof -
  let ?s = "erase_download_piece k s"
  have base: "base_ok s" using ok by (simp add: picker_ok_def)
  note e = erase_base_ok [OF base k]
  have i: "i < num_pieces s" using dl_lt [OF base_okD(4) [OF base] k] by simp
  then have idx: "index (m_piece_map ?s ! i) = index (m_piece_map s ! i)" by (simp add: e(3) set_downloading_def)
  note rq = requeue_step [OF ok e(1,2) idx e(4), of rnd]
  from rq show "picker_ok (if m_dirty ?s then ?s else if prio_of ?s i = prio_of s i then ?s
     else requeue rnd (prio_of s i) i ?s)" by (auto split: if_splits)
  have ge: "- 1 \<le> prio_of s i" "- 1 \<le> prio_of ?s i"
    using prio_of_ge [OF base_okD(1) [OF base] i] prio_of_ge [OF base_okD(1) [OF e(1)]] i
    by (simp_all add: e(3) set_downloading_def)
  show "picker_ok (if \<not> m_dirty ?s then
        if prio_of s i = - 1 \<and> 0 \<le> prio_of ?s i then add rnd i ?s
        else if 0 \<le> prio_of s i then update rnd (nat (prio_of s i)) (index (m_piece_map ?s ! i)) ?s else ?s
      else ?s)"
  proof (cases "prio_of s i = - 1")
    case True
    then show ?thesis using rq ge(2) by (auto simp: requeue_def split: if_splits)
  next
    case False
    then show ?thesis
      using ge(1) by (intro update_step(1) [OF ok e(1,2) idx e(4), of _ rnd]) auto
  qed
qed

lemma write_failed_ok:
  assumes ok: "picker_ok s" and j: "block_index block < blocks_in_piece (piece_index block) s"
    and nr: "\<not> is_requested block s"
  shows "picker_ok (write_failed rnd block s)"
proof (cases "find_dl_piece (piece_index block) s")
  case None
  then show ?thesis using ok by (simp add: write_failed_def Let_def)
next
  case k: (Some k)
  obtain v where v: "dl_edit (piece_index block) k v v s s" "view_ok (blocks_in_piece (piece_index block) s) v"
    "block_index block < m_blocks_per_piece s" "blocks_in_piece (piece_index block) s \<le> length (v_blocks v)"
    "dl_block k (block_index block) s = v_blocks v ! block_index block"
    using found [OF ok k j] by metis
  let ?b = "v_blocks v ! block_index block"
  have "downloading (m_piece_map s ! piece_index block)"
    using dl_lt [OF _ k] ok by (simp add: picker_ok_def base_ok_def)
  then have nr': "block_state ?b \<noteq> state_requested" using nr k v(5) by (simp add: is_requested_def)
  define s1 where "s1 = (if block_state ?b = state_writing then set_dl k (\<lambda>d. d\<lparr>writing := writing d - 1\<rparr>) s else s)"
  define s2 where "s2 = update_full k (set_block k (block_index block) (\<lambda>b. b\<lparr>block_state := state_none\<rparr>)
    (set_block k (block_index block) (\<lambda>b. b\<lparr>peer := 0\<rparr>) s1))"
  have e1: "dl_edit (piece_index block) k v
      (if block_state ?b = state_writing then v\<lparr>v_writing := v_writing v - 1\<rparr> else v) s s1"
    using v(1) dl_edit_writing [OF v(1), where f = "\<lambda>n. n - 1"] by (simp add: s1_def)
  note e2 = dl_edit_full(1) [OF dl_edit_block(1) [OF dl_edit_block(1) [OF e1 v(3)] v(3)]]
  have wf: "write_failed rnd block s = (if block_state ?b = state_finished then s
     else if finished (m_downloads s2 ! k) + writing (m_downloads s2 ! k) + requested (m_downloads s2 ! k) = 0 then
        if m_dirty (erase_download_piece k s2) then erase_download_piece k s2
        else if prio_of (erase_download_piece k s2) (piece_index block) = prio_of s2 (piece_index block)
        then erase_download_piece k s2
        else requeue rnd (prio_of s2 (piece_index block)) (piece_index block) (erase_download_piece k s2)
     else s2)"
    using k v(5) by (simp add: write_failed_def Let_def s1_def [symmetric] s2_def [symmetric])
  show ?thesis
  proof (cases "block_state ?b = state_finished")
    case False
    have "picker_ok s2" unfolding s2_def
      by (rule dl_edit_ok [OF e2 ok]) (use v(2,4) j nr' False in \<open>auto simp: view_ok_def count_update nth_list_update peers_ok_def\<close>)
    moreover have "find_dl_piece (piece_index block) s2 = Some k" unfolding s2_def by (rule dl_editD(2) [OF e2])
    ultimately show ?thesis using erase_requeue_ok(1) [of s2 "piece_index block" k rnd] False by (simp add: wf)
  qed (use ok in \<open>simp add: wf\<close>)
qed

lemma find_if_update:
  assumes "i < length xs" "P y = P (xs ! i)"
  shows "find_if P (xs[i := y]) = find_if P xs"
proof -
  have f: "find_if P ys = length (takeWhile (\<lambda>b. \<not> b) (map P ys))" for ys
    by (simp add: find_if_def takeWhile_map comp_def)
  show ?thesis unfolding f using map_dl_update [of i xs P y] assms by simp
qed

lemma erase_set_dl:
  assumes i: "i < length (m_downloads s)" and f: "dl_index (f (m_downloads s ! i)) = dl_index (m_downloads s ! i)"
    "info (f (m_downloads s ! i)) = info (m_downloads s ! i)"
  shows "erase_download_piece i (set_dl i f s) = erase_download_piece i s"
proof -
  let ?ds = "m_downloads s"
  define P where "P = (\<lambda>d::downloading_piece. info d = (length ?ds - 1) * m_blocks_per_piece s)"
  have fi: "find_if P (?ds[i := f (?ds ! i)]) = find_if P ?ds"
    using i f(2) by (intro find_if_update) (simp_all add: P_def)
  define ot where "ot = find_if P ?ds"
  have e: "erase_download_piece i t = (let ds = m_downloads t;
      (ds', blocks) = (if i \<noteq> ot then (ds[ot := (ds ! ot)\<lparr>info := info (ds ! i)\<rparr>],
          foldl (\<lambda>bs j. bs[info (ds ! i) + j := bs ! (info (ds ! ot) + j)]) (m_block_info t) [0..<m_blocks_per_piece t])
        else (ds, m_block_info t))
     in t\<lparr>m_piece_map := set_downloading False (dl_index (ds ! i)) (m_piece_map t),
          m_downloads := take i ds' @ drop (Suc i) ds', m_block_info := blocks\<rparr>)"
    if "t = s \<or> t = set_dl i f s" for t
    using that fi by (auto simp: erase_download_piece_def Let_def ot_def P_def set_dl_def)
  have sw: "i \<noteq> ot \<Longrightarrow> ?ds[i := y, ot := z] = ?ds[ot := z, i := y]" for y z by (rule list_update_swap)
  show ?thesis
    unfolding e [of s, OF disjI1, OF refl] e [of "set_dl i f s", OF disjI2, OF refl]
    using i f by (cases "i = ot") (simp_all add: Let_def set_dl_def sw)
qed

lemma ex_block: "block_state x = st \<Longrightarrow> num_peers x = n \<Longrightarrow>
  \<exists>b. block_state b = st \<and> num_peers b = n \<and> xs[j := x] = xs[j := b]"
  by blast

lemma abort_download_ok:
  assumes ok: "picker_ok s" and i: "piece_index block < num_pieces s"
    and j: "block_index block < blocks_in_piece (piece_index block) s"
  shows "picker_ok (abort_download rnd block pe s)"
proof (cases "downloading (m_piece_map s ! piece_index block)")
  case False
  then show ?thesis using ok by (simp add: abort_download_def Let_def)
next
  case True
  let ?i = "piece_index block" and ?j = "block_index block"
  obtain k where k: "find_dl_piece ?i s = Some k"
    using True find_downloading [OF _ i] ok by (auto simp: picker_ok_def base_ok_def)
  obtain v where v: "dl_edit ?i k v v s s" "view_ok (blocks_in_piece ?i s) v"
    "?j < m_blocks_per_piece s" "blocks_in_piece ?i s \<le> length (v_blocks v)" "dl_block k ?j s = v_blocks v ! ?j"
    using found [OF ok k j] by metis
  let ?b = "v_blocks v ! ?j"
  define s1 where "s1 = set_block k ?j (\<lambda>b. if peer b = pe then b\<lparr>peer := 0\<rparr> else b)
    (set_block k ?j (\<lambda>b. if 0 < num_peers b then b\<lparr>num_peers := num_peers b - 1\<rparr> else b) s)"
  define s2 where "s2 = update_full k (set_dl k (\<lambda>d. d\<lparr>requested := requested d - 1\<rparr>)
    (set_block k ?j (\<lambda>b. b\<lparr>peer := 0, block_state := state_none\<rparr>) s1))"
  define s3 where "s3 = set_dl k (\<lambda>d. d\<lparr>dl_state := ps_none\<rparr>) s2"
  note e1 = dl_edit_block(1) [where f = "\<lambda>b. if peer b = pe then b\<lparr>peer := 0\<rparr> else b",
      OF dl_edit_block(1) [where f = "\<lambda>b. if 0 < num_peers b then b\<lparr>num_peers := num_peers b - 1\<rparr> else b", OF v(1,3)] v(3),
      folded s1_def]
  note e2 = dl_edit_full(1) [OF dl_edit_requested [where f = "\<lambda>n. n - 1",
      OF dl_edit_block(1) [where f = "\<lambda>b. b\<lparr>peer := 0, block_state := state_none\<rparr>", OF e1 v(3)]], folded s2_def]
  have e2': "\<exists>v2. dl_edit ?i k v v2 s s2 \<and> v_requested v2 = v_requested v - 1 \<and> v_finished v2 = v_finished v
    \<and> v_writing v2 = v_writing v \<and> v_state v2 = v_state v
    \<and> (\<exists>b. block_state b = state_none \<and> num_peers b = num_peers ?b - 1 \<and> v_blocks v2 = (v_blocks v)[?j := b])"
    by (rule exI, rule conjI, rule e2) (use v(4) j in \<open>auto intro!: ex_block\<close>)
  then obtain v2 b where v2: "dl_edit ?i k v v2 s s2" "v_requested v2 = v_requested v - 1" "v_finished v2 = v_finished v"
    "v_writing v2 = v_writing v" "v_state v2 = v_state v" "block_state b = state_none" "v_blocks v2 = (v_blocks v)[?j := b]"
    and peers: "num_peers b = num_peers ?b - 1"
    by blast
  have peers1: "num_peers (dl_block k ?j s1) = num_peers ?b - 1"
    using dl_block_view [OF dl_editD(1-3) [OF e1], of ?j] dl_editD(6) [OF e1] v(3,4) j by simp
  note d2 = dl_editD [OF v2(1)]
  note e3 = dl_edit_state [OF v2(1), where x = ps_none, folded s3_def]
  have cnt: "requested (m_downloads s2 ! k) = v_requested v2" "finished (m_downloads s2 ! k) = v_finished v2"
    "writing (m_downloads s2 ! k) = v_writing v2" using d2(10) by (simp_all add: view_of_def)
  have ab: "abort_download rnd block pe s = (if block_state ?b \<noteq> state_requested then s
    else if 0 < num_peers (dl_block k ?j s1) then s1
    else if v_requested v2 + v_finished v2 + v_writing v2 = 0 then
      (if \<not> m_dirty (erase_download_piece k s2) then
         if prio_of s2 ?i = - 1 \<and> 0 \<le> prio_of (erase_download_piece k s2) ?i then add rnd ?i (erase_download_piece k s2)
         else if 0 \<le> prio_of s2 ?i
         then update rnd (nat (prio_of s2 ?i)) (index (m_piece_map (erase_download_piece k s2) ! ?i)) (erase_download_piece k s2)
         else erase_download_piece k s2
       else erase_download_piece k s2)
    else if v_requested v2 = 0 then s3 else s2)"
    using True k v(5) cnt
    by (cases "block_state ?b") (simp_all add: abort_download_def Let_def s1_def [symmetric] s2_def [symmetric] s3_def)
  show ?thesis
  proof (cases "block_state ?b = state_requested \<and> \<not> 0 < num_peers (dl_block k ?j s1)")
    case False
    have "picker_ok s1" if "1 < num_peers ?b"
      by (rule dl_edit_ok [OF e1 ok]) (use v(2,4) j that in \<open>auto simp: view_ok_def count_update nth_list_update peers_ok_def\<close>)
    then show ?thesis using ok False by (auto simp: ab peers1)
  next
    case req: True
    have cv: "view_ok (blocks_in_piece ?i s) (v2\<lparr>v_state := x\<rparr>) \<longleftrightarrow> (v_requested v2 \<noteq> 0 \<longleftrightarrow> x \<noteq> ps_none)" for x
      using v(2,4) v2(2-4,6,7) j req peers unfolding peers1
      by (auto simp: view_ok_def count_update nth_list_update peers_ok_def)
    have s3: "picker_ok s3" if "v_requested v2 = 0"
      by (rule dl_edit_ok [OF e3 ok]) (use that cv in simp)
    have s2: "picker_ok s2" if "v_requested v2 \<noteq> 0"
    proof (rule dl_edit_ok [OF v2(1) ok])
      have "v_state v \<noteq> ps_none"
        using v(2) count_pos [OF j v(4)] req by (auto simp: view_ok_def)
      then have "view_ok (blocks_in_piece ?i s) (v2\<lparr>v_state := v_state v2\<rparr>)" unfolding cv using that v2(5) by simp
      then show "view_ok (blocks_in_piece ?i s) v2" by simp
    qed
    have nn: "0 \<le> v_requested v2" "0 \<le> v_finished v2" "0 \<le> v_writing v2"
      using v(2) count_nonneg count_pos [OF j v(4)] req by (auto simp: view_ok_def v2(2-4))
    have er: "erase_download_piece k s3 = erase_download_piece k s2"
      unfolding s3_def using d2(4) by (rule erase_set_dl) simp_all
    have pr: "prio_of s3 = prio_of s2" by (simp add: s3_def set_dl_def prio_of_def fun_eq_iff)
    show ?thesis
    proof (cases "v_requested v2 + v_finished v2 + v_writing v2 = 0")
      case zero: True
      then have "v_requested v2 = 0" using nn by linarith
      from erase_requeue_ok(2) [OF s3 [OF this] dl_editD(2) [OF e3], of rnd] show ?thesis
        using zero req unfolding ab er pr by (auto simp del: if_split)
    next
      case False
      then show ?thesis using req s2 s3 by (simp add: ab)
    qed
  qed
qed

lemma clear_peer_ok:
  assumes "picker_ok s"
  shows "picker_ok (clear_peer pe s)"
proof -
  let ?f = "\<lambda>b. if peer b = pe then b\<lparr>peer := 0\<rparr> else b"
  let ?g = "\<lambda>v. v\<lparr>v_blocks := map ?f (v_blocks v)\<rparr>"
  have view: "dl_view (clear_peer pe s) p = map_option ?g (dl_view s p)" for p
    by (cases "map_of (map (\<lambda>d. (dl_index d, d)) (m_downloads s)) p")
      (simp_all add: dl_view_def clear_peer_def view_of_def take_map drop_map)
  have "count_state st (map ?f bs) = count_state st bs" for st bs
    by (induction bs) (auto simp: count_state_def)
  moreover have "peers_ok (?f b) = peers_ok b" for b by (simp add: peers_ok_def)
  ultimately have same: "n \<le> length (v_blocks v) \<Longrightarrow> view_ok n (?g v) = view_ok n v" for n v
    by (simp add: view_ok_def take_map)
  have base: "base_ok s" using assms by (simp add: picker_ok_def)
  have len: "blocks_in_piece p s \<le> length (v_blocks v)" if "dl_view s p = Some v" for p v
    using view_length [OF _ that] blocks_in_piece_le [OF base] base by (simp add: base_ok_def)
  have "blocks_in_piece p (clear_peer pe s) = blocks_in_piece p s" for p
    by (simp add: clear_peer_def blocks_in_piece_def)
  then have "views_ok (clear_peer pe s)" using base same len by (auto simp: views_ok_def view base_ok_def)
  moreover have "dl_ok (clear_peer pe s)" using base by (simp add: base_ok_def dl_ok_def slots_ok_def clear_peer_def)
  ultimately have "base_ok (clear_peer pe s)"
    using base by (simp add: base_ok_def clear_peer_def counts_ok_def cursors_ok_def)
  moreover have "queue_ok (clear_peer pe s) = queue_ok s"
  proof -
    have "prio_of (clear_peer pe s) = prio_of s" by (simp add: clear_peer_def prio_of_def fun_eq_iff)
    then show ?thesis by (simp add: queue_ok_def queue_rep_def) (simp add: clear_peer_def)
  qed
  ultimately show ?thesis using assms by (auto simp: picker_ok_def) (simp add: clear_peer_def)
qed

section \<open>The blocks as a map from blocks to states\<close>

definition status :: "piece_picker \<Rightarrow> nat \<Rightarrow> nat \<Rightarrow> block_state" where
  "status s i j = (case dl_view s i of None \<Rightarrow> state_none | Some v \<Rightarrow> block_state (v_blocks v ! j))"

lemma status_edit:
  assumes "dl_edit p k v v' s s'"
  shows "status s' q j = (if q = p then block_state (v_blocks v' ! j) else status s q j)"
  using assms unfolding dl_edit_def status_def by simp

lemma status_refl: "dl_edit p k v v s s \<Longrightarrow> status s p j = block_state (v_blocks v ! j)"
  by (simp add: status_def dl_edit_def)

lemma status_not_downloading:
  assumes "picker_ok s" "i < num_pieces s" "\<not> downloading (m_piece_map s ! i)"
  shows "status s i j = state_none"
proof -
  have "dl_view s i = None"
    using assms view_None_iff [of s i] by (auto simp: picker_ok_def base_ok_def dl_ok_def)
  then show ?thesis by (simp add: status_def)
qed

lemma start_status:
  assumes ok: "picker_ok s" and i: "i < num_pieces s" and p: "\<not> downloading (m_piece_map s ! i)" "\<not> pos_have (m_piece_map s ! i)"
    and st: "start_download rnd i s = (k, s0)" and j: "j < m_blocks_per_piece s"
  shows "status s0 q j = status s q j"
  using start_download_ok(3) [OF ok i p st] status_not_downloading [OF ok i p(1)] j
  by (simp add: status_def fresh_download_def)

end
