(* ===== verification/Picker_Pick.thy ===== *)
theory Picker_Pick
  imports Picker_Blocks
begin

text \<open>
  \<open>piece_picker::pick_pieces\<close>: which blocks to request from a peer. \<open>bits\<close> is the peer's
  bitfield, one flag per piece; \<open>rnd\<close> and \<open>shuf\<close> stand for the random numbers. The blocks picked
  are free, of pieces the peer has and we lack; only the last one may already be requested, and
  then from another peer.
\<close>

section \<open>The operations\<close>

definition rarest_first :: uint32 where "rarest_first = 1"
definition reverse_pick :: uint32 where "reverse_pick = 2"
definition on_parole :: uint32 where "on_parole = 4"
definition prioritize_partials :: uint32 where "prioritize_partials = 8"
definition sequential :: uint32 where "sequential = 16"
definition speed_affinity :: uint32 where "speed_affinity = 32"
definition ignore_whole_pieces :: uint32 where "ignore_whole_pieces = 64"

definition option_set :: "uint32 \<Rightarrow> uint32 \<Rightarrow> bool" where
  "option_set options flag \<longleftrightarrow> options AND flag \<noteq> 0"

fun speed_number :: "piece_state_t \<Rightarrow> int" where
  "speed_number ps_none = 0"
| "speed_number slow = 1"
| "speed_number medium = 2"
| "speed_number fast = 3"

definition is_piece_free :: "nat \<Rightarrow> bool list \<Rightarrow> piece_picker \<Rightarrow> bool" where
  "is_piece_free piece bits s \<longleftrightarrow>
     bits ! piece \<and> \<not> pos_have (m_piece_map s ! piece) \<and> \<not> pos_filtered (m_piece_map s ! piece)"

definition can_pick :: "nat \<Rightarrow> bool list \<Rightarrow> piece_picker \<Rightarrow> bool" where
  "can_pick piece bits s \<longleftrightarrow>
     bits ! piece \<and> \<not> pos_have (m_piece_map s ! piece) \<and> \<not> downloading (m_piece_map s ! piece)
     \<and> \<not> pos_filtered (m_piece_map s ! piece)"

definition verify_pick :: "piece_block list \<Rightarrow> bool list \<Rightarrow> piece_picker \<Rightarrow> bool" where
  "verify_pick picked bits s \<longleftrightarrow> length bits = num_pieces s \<and>
     list_all (\<lambda>b. piece_index b < length bits \<and> bits ! piece_index b
       \<and> \<not> pos_have (m_piece_map s ! piece_index b)) picked"

text \<open>
  The loops of \<open>expand_piece\<close>. \<open>expand_down\<close> keeps \<open>start + 1\<close> of the code, which ends as the
  first piece of the range; \<open>low\<close> is \<open>lower_limit + 1\<close>.
\<close>

fun expand_down :: "bool list \<Rightarrow> piece_picker \<Rightarrow> nat \<Rightarrow> nat \<Rightarrow> nat" where
  "expand_down bits s low 0 = 0"
| "expand_down bits s low (Suc start) =
    (if low < Suc start \<and> can_pick start bits s then expand_down bits s low start else Suc start)"

function expand_up :: "bool list \<Rightarrow> piece_picker \<Rightarrow> nat \<Rightarrow> nat \<Rightarrow> nat" where
  "expand_up bits s upper_limit e =
    (if e < upper_limit \<and> can_pick e bits s then expand_up bits s upper_limit (e + 1) else e)"
  by pat_completeness auto
termination
  by (relation "measure (\<lambda>(_, _, upper_limit, e). upper_limit - e)") auto

declare expand_up.simps [simp del]

definition expand_piece :: "nat \<Rightarrow> nat \<Rightarrow> bool list \<Rightarrow> piece_picker \<Rightarrow> nat \<times> nat" where
  "expand_piece piece whole_pieces bits s =
    (if whole_pieces = 0 then (piece, piece + 1)
     else
       let start = expand_down bits s (piece + 1 - whole_pieces) piece;
           upper_limit = min (start + whole_pieces) (num_pieces s)
       in (start, expand_up bits s upper_limit (piece + 1)))"

fun requested_from :: "block_info list \<Rightarrow> peer_ptr \<Rightarrow> bool \<Rightarrow> bool \<times> bool" where
  "requested_from [] pe exclusive = (exclusive, True)"
| "requested_from (b # bs) pe exclusive =
    (if block_state b \<noteq> state_none \<and> peer b \<noteq> pe then
       if block_state b = state_requested \<and> peer b \<noteq> 0 then (False, False)
       else requested_from bs pe False
     else requested_from bs pe exclusive)"

text \<open>The vectors the loops fill, and how many blocks are still wanted.\<close>

record pick =
  interesting_blocks :: "piece_block list"
  backup_blocks :: "piece_block list"
  backup_blocks2 :: "piece_block list"
  num_blocks :: int

definition append_blocks :: "piece_block list \<Rightarrow> piece_block list \<Rightarrow> int \<Rightarrow> piece_block list \<times> int" where
  "append_blocks dst src n =
    (if src = [] then (dst, n)
     else let to_copy = min (int (length src)) n in (dst @ take (nat to_copy) src, n - to_copy))"

definition blocks_of :: "nat \<Rightarrow> nat list \<Rightarrow> piece_block list" where
  "blocks_of piece js = map (\<lambda>j. \<lparr>piece_index = piece, block_index = j\<rparr>) js"

definition dl_infos :: "downloading_piece \<Rightarrow> nat \<Rightarrow> piece_picker \<Rightarrow> block_info list" where
  "dl_infos dp n s = map (\<lambda>j. m_block_info s ! (info dp + j)) [0..<n]"

text \<open>
  The loop over the blocks of a download; \<open>affine\<close> says that the speeds do not match, and \<open>near\<close>
  that they differ by one. The flag says that the loop returned from the function.
\<close>

fun pick_free_blocks :: "nat \<Rightarrow> nat \<Rightarrow> bool \<Rightarrow> bool \<Rightarrow> (nat \<times> block_info) list \<Rightarrow> pick \<Rightarrow> bool \<times> pick" where
  "pick_free_blocks piece whole affine near [] p = (False, p)"
| "pick_free_blocks piece whole affine near ((j, b) # bs) p =
    (let block = \<lparr>piece_index = piece, block_index = j\<rparr>
     in if block_state b \<noteq> state_none then pick_free_blocks piece whole affine near bs p
        else if affine then
          if near then
            if num_blocks p \<le> int (length (backup_blocks p)) then (True, p)
            else pick_free_blocks piece whole affine near bs (p\<lparr>backup_blocks := backup_blocks p @ [block]\<rparr>)
          else
            if num_blocks p \<le> int (length (backup_blocks2 p)) then (True, p)
            else pick_free_blocks piece whole affine near bs (p\<lparr>backup_blocks2 := backup_blocks2 p @ [block]\<rparr>)
        else
          let p = p\<lparr>interesting_blocks := interesting_blocks p @ [block], num_blocks := num_blocks p - 1\<rparr>
          in if 0 < whole then pick_free_blocks piece whole affine near bs p
             else if num_blocks p \<le> 0 then (True, p)
             else pick_free_blocks piece whole affine near bs p)"

definition add_blocks_downloading ::
  "downloading_piece \<Rightarrow> bool list \<Rightarrow> nat \<Rightarrow> peer_ptr \<Rightarrow> piece_state_t \<Rightarrow> uint32 \<Rightarrow> piece_picker \<Rightarrow> pick \<Rightarrow> pick" where
  "add_blocks_downloading dp bits whole pe speed options s p =
    (if \<not> bits ! dl_index dp then p
     else
       let infos = dl_infos dp (blocks_in_piece (dl_index dp) s) s;
           (exclusive, exclusive_active) = requested_from infos pe True
       in if option_set options on_parole \<and> \<not> exclusive then p
          else if 0 < whole \<and> \<not> exclusive_active then
            if num_blocks p \<le> int (length (backup_blocks2 p)) then p
            else p\<lparr>backup_blocks2 := backup_blocks2 p @
                blocks_of (dl_index dp) (filter (\<lambda>j. block_state (infos ! j) = state_none) [0..<length infos])\<rparr>
          else
            let affine = dl_state dp \<noteq> ps_none \<and> dl_state dp \<noteq> speed \<and> \<not> exclusive_active
                  \<and> option_set options speed_affinity;
                near = (\<bar>speed_number (dl_state dp) - speed_number speed\<bar> = 1);
                (returned, p) = pick_free_blocks (dl_index dp) whole affine near (enumerate 0 infos) p
            in if returned then p
               else if num_blocks p \<le> 0 then p\<lparr>num_blocks := 0\<rparr>
               else p)"

definition add_blocks ::
  "nat \<Rightarrow> bool list \<Rightarrow> nat \<Rightarrow> peer_ptr \<Rightarrow> nat list \<Rightarrow> piece_state_t \<Rightarrow> uint32 \<Rightarrow> piece_picker \<Rightarrow> pick \<Rightarrow> pick" where
  "add_blocks piece bits whole pe ignore speed options s p =
    (if piece \<in> set ignore then p
     else if downloading (m_piece_map s ! piece) then
       if full (m_piece_map s ! piece) then p
       else if option_set options prioritize_partials then p
       else case find_dl_piece piece s of
              None \<Rightarrow> p
            | Some i \<Rightarrow> add_blocks_downloading (m_downloads s ! i) bits whole pe speed options s p
     else
       let p =
         (if whole = 0 then
            let n = min (int (blocks_in_piece piece s)) (num_blocks p)
            in p\<lparr>interesting_blocks := interesting_blocks p @ blocks_of piece [0..<nat n], num_blocks := num_blocks p - n\<rparr>
          else
            let (start, e) = expand_piece piece whole bits s;
                bs = concat (map (\<lambda>k. blocks_of k [0..<blocks_in_piece k s]) [start..<e])
            in p\<lparr>interesting_blocks := interesting_blocks p @ bs, num_blocks := num_blocks p - int (length bs)\<rparr>)
       in if num_blocks p \<le> 0 then p\<lparr>num_blocks := 0\<rparr> else p)"

text \<open>
  The loops of \<open>pick_pieces\<close> end the function as soon as no more blocks are wanted; a phase is
  skipped in that case.
\<close>

definition unless_done :: "(pick \<Rightarrow> pick) \<Rightarrow> pick \<Rightarrow> pick" where
  "unless_done f p = (if num_blocks p \<le> 0 then p else f p)"

fun pick_partials ::
  "bool list \<Rightarrow> nat \<Rightarrow> peer_ptr \<Rightarrow> piece_state_t \<Rightarrow> uint32 \<Rightarrow> piece_picker \<Rightarrow> downloading_piece list \<Rightarrow> pick \<Rightarrow> pick" where
  "pick_partials bits whole pe speed options s [] p = p"
| "pick_partials bits whole pe speed options s (d # ds) p =
    (if \<not> bits ! dl_index d
        \<or> full (m_piece_map s ! dl_index d) \<and> num_blocks p \<le> int (length (backup_blocks p))
          \<and> num_blocks p \<le> int (length (backup_blocks2 p))
     then pick_partials bits whole pe speed options s ds p
     else unless_done (pick_partials bits whole pe speed options s ds)
            (add_blocks_downloading d bits whole pe speed options s p))"

definition append_backup :: "pick \<Rightarrow> pick" where
  "append_backup p =
    (let (dst, n) = append_blocks (interesting_blocks p) (backup_blocks p) (num_blocks p)
     in p\<lparr>interesting_blocks := dst, backup_blocks := [], num_blocks := n\<rparr>)"

definition append_backup2 :: "pick \<Rightarrow> pick" where
  "append_backup2 p =
    (let (dst, n) = append_blocks (interesting_blocks p) (backup_blocks2 p) (num_blocks p)
     in p\<lparr>interesting_blocks := dst, backup_blocks2 := [], num_blocks := n\<rparr>)"

fun pick_list ::
  "bool list \<Rightarrow> nat \<Rightarrow> peer_ptr \<Rightarrow> nat list \<Rightarrow> piece_state_t \<Rightarrow> uint32 \<Rightarrow> piece_picker \<Rightarrow> nat list \<Rightarrow> pick \<Rightarrow> pick" where
  "pick_list bits whole pe ignore speed options s [] p = p"
| "pick_list bits whole pe ignore speed options s (i # is) p =
    (if \<not> is_piece_free i bits s then pick_list bits whole pe ignore speed options s is p
     else unless_done (pick_list bits whole pe ignore speed options s is)
            (add_blocks i bits whole pe ignore speed options s p))"

text \<open>
  The levels of the queue in the order of the reverse mode: in chunks of \<open>prio_factor\<close> from the
  last, each chunk forwards. The boundaries are first filled up to whole chunks.
\<close>

definition round_boundaries :: "nat list \<Rightarrow> nat list" where
  "round_boundaries bnd =
     resize ((length bnd + prio_factor - 1) div prio_factor * prio_factor) (last bnd) bnd"

definition level_range :: "nat list \<Rightarrow> nat \<Rightarrow> nat list" where
  "level_range bnd i =
    (let prio = i div prio_factor * prio_factor + prio_factor - 1 - i mod prio_factor
     in [(if prio = 0 then 0 else bnd ! (prio - 1))..<bnd ! prio])"

definition reverse_order :: "nat list \<Rightarrow> int list \<Rightarrow> nat list" where
  "reverse_order bnd pieces = map (\<lambda>k. nat (pieces ! k)) (concat (map (level_range bnd) (rev [0..<length bnd])))"

text \<open>
  The random mode. \<open>skip_pieces\<close> is the inner loop; the guard only excludes positions that do
  not occur.
\<close>

function skip_pieces :: "(nat \<Rightarrow> bool) \<Rightarrow> nat \<Rightarrow> nat \<Rightarrow> nat \<Rightarrow> nat option" where
  "skip_pieces pickable n start_piece piece =
    (if n \<le> piece \<or> n \<le> start_piece then None
     else if pickable piece then Some piece
     else
       let piece = (if piece + 1 = n then 0 else piece + 1)
       in if piece = start_piece then None else skip_pieces pickable n start_piece piece)"
  by pat_completeness auto
termination
  by (relation "measure (\<lambda>(_, n, start_piece, piece). if piece < start_piece then start_piece - piece
       else n - piece + start_piece)") (auto split: if_splits)

declare skip_pieces.simps [simp del]

fun pick_range :: "nat \<Rightarrow> piece_picker \<Rightarrow> nat list \<Rightarrow> pick \<Rightarrow> pick" where
  "pick_range whole s [] p = p"
| "pick_range whole s (k # ks) p =
    (let n = int (blocks_in_piece k s);
         n = (if whole = 0 \<and> num_blocks p < n then num_blocks p else n)
     in pick_range whole s ks
          (p\<lparr>interesting_blocks := interesting_blocks p @ blocks_of k [0..<nat n], num_blocks := num_blocks p - n\<rparr>))"

fun pick_random ::
  "nat \<Rightarrow> bool list \<Rightarrow> nat \<Rightarrow> nat list \<Rightarrow> piece_picker \<Rightarrow> nat \<Rightarrow> nat \<Rightarrow> pick \<Rightarrow> pick" where
  "pick_random 0 bits whole suggested s start_piece piece p = p"
| "pick_random (Suc fuel) bits whole suggested s start_piece piece p =
    (if num_blocks p \<le> 0 then p
     else case skip_pieces (\<lambda>i. can_pick i bits s \<and> i \<notin> set suggested) (num_pieces s) start_piece piece of
            None \<Rightarrow> p
          | Some piece \<Rightarrow>
              let (start, e) = expand_piece piece whole bits s;
                  p = pick_range whole s [start..<e] p;
                  piece = (if e = num_pieces s then 0 else e)
              in if piece = start_piece then p
                 else pick_random fuel bits whole suggested s start_piece piece p)"

text \<open>The backup blocks of the full pieces, and the blocks of the first busy piece.\<close>

fun repick_full ::
  "bool list \<Rightarrow> nat \<Rightarrow> peer_ptr \<Rightarrow> piece_state_t \<Rightarrow> uint32 \<Rightarrow> piece_picker \<Rightarrow> downloading_piece list \<Rightarrow> pick \<Rightarrow> pick" where
  "repick_full bits whole pe speed options s [] p = p"
| "repick_full bits whole pe speed options s (d # ds) p =
    (if \<not> bits ! dl_index d \<or> \<not> full (m_piece_map s ! dl_index d)
     then repick_full bits whole pe speed options s ds p
     else
       let q = add_blocks_downloading d bits whole pe speed options s (p\<lparr>interesting_blocks := []\<rparr>)
       in repick_full bits whole pe speed options s ds
            (q\<lparr>interesting_blocks := interesting_blocks p, num_blocks := num_blocks p\<rparr>))"

fun busy_blocks :: "bool list \<Rightarrow> peer_ptr \<Rightarrow> piece_picker \<Rightarrow> downloading_piece list \<Rightarrow> piece_block list" where
  "busy_blocks bits pe s [] = []"
| "busy_blocks bits pe s (d # ds) =
    (if \<not> bits ! dl_index d \<or> piece_priority (m_piece_map s ! dl_index d) = 0 then busy_blocks bits pe s ds
     else
       let infos = dl_infos d (blocks_in_piece (dl_index d) s) s;
           temp = blocks_of (dl_index d)
             (filter (\<lambda>j. block_state (infos ! j) = state_requested \<and> peer (infos ! j) \<noteq> pe) [0..<length infos])
       in if temp \<noteq> [] then temp else busy_blocks bits pe s ds)"

definition pick_backups ::
  "bool list \<Rightarrow> nat \<Rightarrow> peer_ptr \<Rightarrow> piece_state_t \<Rightarrow> uint32 \<Rightarrow> nat \<Rightarrow> piece_picker \<Rightarrow> pick \<Rightarrow> pick" where
  "pick_backups bits whole pe speed options rnd s p =
    (let p = repick_full bits whole pe speed options s (m_downloads s) p;
         temp = busy_blocks bits pe s (m_downloads s)
     in unless_done (\<lambda>p. if option_set options on_parole then p
            else if temp = [] then p
            else p\<lparr>interesting_blocks := interesting_blocks p @ [temp ! (rnd mod length temp)]\<rparr>)
          (unless_done append_backup2 (append_backup p)))"

text \<open>
  The phases: the partial pieces and the suggested ones; the queue, which is rebuilt when it is
  dirty; the pieces in the order of the mode; the backups.
\<close>

definition pick_start ::
  "bool list \<Rightarrow> nat \<Rightarrow> peer_ptr \<Rightarrow> piece_state_t \<Rightarrow> uint32 \<Rightarrow> nat list \<Rightarrow> piece_picker \<Rightarrow> pick \<Rightarrow> pick" where
  "pick_start bits whole pe speed options suggested s p =
    (let p = (if option_set options prioritize_partials
              then unless_done (\<lambda>p. unless_done append_backup2 (append_backup p))
                     (pick_partials bits whole pe speed options s (m_downloads s) p)
              else p)
     in unless_done (pick_list bits whole pe [] speed options s suggested) p)"

definition queue_ready :: "(nat \<Rightarrow> int list \<Rightarrow> int list) \<Rightarrow> uint32 \<Rightarrow> pick \<Rightarrow> piece_picker \<Rightarrow> piece_picker" where
  "queue_ready shuf options p s =
    (if 0 < num_blocks p \<and> \<not> option_set options sequential \<and> option_set options rarest_first
     then
       let s = (if m_dirty s then update_pieces shuf s else s)
       in if option_set options reverse_pick
          then s\<lparr>m_priority_boundries := round_boundaries (m_priority_boundries s)\<rparr> else s
     else s)"

definition pick_order ::
  "bool list \<Rightarrow> nat \<Rightarrow> peer_ptr \<Rightarrow> piece_state_t \<Rightarrow> uint32 \<Rightarrow> nat list \<Rightarrow> nat \<Rightarrow> piece_picker \<Rightarrow> pick \<Rightarrow> pick" where
  "pick_order bits whole pe speed options suggested rnd s p =
    (if option_set options sequential then
       if option_set options reverse_pick
       then pick_list bits whole pe suggested speed options s (rev [m_cursor s..<m_reverse_cursor s]) p
       else pick_list bits whole pe suggested speed options s [m_cursor s..<m_reverse_cursor s] p
     else if option_set options rarest_first then
       if option_set options reverse_pick
       then pick_list bits whole pe suggested speed options s (reverse_order (m_priority_boundries s) (m_pieces s)) p
       else pick_list bits whole pe suggested speed options s (map nat (m_pieces s)) p
     else
       let start_piece = rnd mod num_pieces s
       in pick_random (nat (num_blocks p)) bits whole suggested s start_piece start_piece p)"

definition pick_options :: "uint32 \<Rightarrow> nat \<Rightarrow> piece_picker \<Rightarrow> uint32" where
  "pick_options opts npeers s = (if npeers * 3 div 2 < length (m_downloads s) then opts OR prioritize_partials else opts)"

definition whole_pieces :: "uint32 \<Rightarrow> nat \<Rightarrow> nat" where
  "whole_pieces options prefer_whole = (if option_set options ignore_whole_pieces then 0 else prefer_whole)"

definition pick_pieces ::
  "(nat \<Rightarrow> int list \<Rightarrow> int list) \<Rightarrow> nat \<Rightarrow> nat \<Rightarrow> bool list \<Rightarrow> piece_block list \<Rightarrow> int \<Rightarrow> nat \<Rightarrow> peer_ptr
   \<Rightarrow> piece_state_t \<Rightarrow> uint32 \<Rightarrow> nat list \<Rightarrow> nat \<Rightarrow> piece_picker \<Rightarrow> piece_block list \<times> piece_picker" where
  "pick_pieces shuf rnd1 rnd2 bits interesting n prefer_whole pe speed opts suggested npeers s =
    (let options = pick_options opts npeers s;
         whole = whole_pieces options prefer_whole;
         p = \<lparr>interesting_blocks = interesting, backup_blocks = [], backup_blocks2 = [], num_blocks = n\<rparr>;
         p = pick_start bits whole pe speed options suggested s p;
         s = queue_ready shuf options p s;
         p = unless_done (pick_order bits whole pe speed options suggested rnd1 s) p;
         p = unless_done (pick_backups bits whole pe speed options rnd2 s) p
     in (interesting_blocks p, s))"

section \<open>What is picked\<close>

definition pickable :: "bool list \<Rightarrow> piece_picker \<Rightarrow> piece_block \<Rightarrow> bool" where
  "pickable bits s b \<longleftrightarrow> piece_index b < num_pieces s \<and> bits ! piece_index b
     \<and> \<not> pos_have (m_piece_map s ! piece_index b) \<and> block_index b < blocks_in_piece (piece_index b) s
     \<and> status s (piece_index b) (block_index b) = state_none"

definition pick_all :: "(piece_block \<Rightarrow> bool) \<Rightarrow> pick \<Rightarrow> bool" where
  "pick_all P p \<longleftrightarrow> (\<forall>b \<in> set (interesting_blocks p) \<union> set (backup_blocks p) \<union> set (backup_blocks2 p). P b)"

lemma pick_all_simps [simp]:
  "pick_all P (p\<lparr>num_blocks := n\<rparr>) = pick_all P p"
  "pick_all P (p\<lparr>interesting_blocks := xs\<rparr>) \<longleftrightarrow>
    (\<forall>b \<in> set xs. P b) \<and> (\<forall>b \<in> set (backup_blocks p). P b) \<and> (\<forall>b \<in> set (backup_blocks2 p). P b)"
  "pick_all P (p\<lparr>backup_blocks := xs\<rparr>) \<longleftrightarrow>
    (\<forall>b \<in> set xs. P b) \<and> (\<forall>b \<in> set (interesting_blocks p). P b) \<and> (\<forall>b \<in> set (backup_blocks2 p). P b)"
  "pick_all P (p\<lparr>backup_blocks2 := xs\<rparr>) \<longleftrightarrow>
    (\<forall>b \<in> set xs. P b) \<and> (\<forall>b \<in> set (interesting_blocks p). P b) \<and> (\<forall>b \<in> set (backup_blocks p). P b)"
  by (auto simp: pick_all_def)

lemma pick_allD:
  assumes "pick_all P p"
  shows "\<forall>b \<in> set (interesting_blocks p). P b" "\<forall>b \<in> set (backup_blocks p). P b" "\<forall>b \<in> set (backup_blocks2 p). P b"
  using assms by (auto simp: pick_all_def)

lemma unless_done_all: "pick_all P p \<Longrightarrow> (pick_all P p \<Longrightarrow> pick_all P (f p)) \<Longrightarrow> pick_all P (unless_done f p)"
  by (simp add: unless_done_def)

lemma append_backup_all: "pick_all P p \<Longrightarrow> pick_all P (append_backup p)" "pick_all P p \<Longrightarrow> pick_all P (append_backup2 p)"
  by (auto simp: append_backup_def append_backup2_def append_blocks_def Let_def pick_all_def dest: in_set_takeD)

lemma pick_free_blocks_all:
  "(\<And>j b. (j, b) \<in> set bs \<Longrightarrow> block_state b = state_none \<Longrightarrow> P \<lparr>piece_index = piece, block_index = j\<rparr>) \<Longrightarrow>
   pick_all P p \<Longrightarrow> pick_all P (snd (pick_free_blocks piece whole affine near bs p))"
proof (induction bs arbitrary: p whole affine near)
  case (Cons x bs)
  obtain j b where x: "x = (j, b)" by (cases x)
  have P: "block_state b = state_none \<Longrightarrow> P \<lparr>piece_index = piece, block_index = j\<rparr>" by (rule Cons.prems(1) [of j b]) (simp_all add: x)
  have IH: "pick_all P q \<Longrightarrow> pick_all P (snd (pick_free_blocks piece w a n bs q))" for q w a n
    by (rule Cons.IH [OF Cons.prems(1)]) simp_all
  show ?case using P pick_allD [OF Cons.prems(2)] Cons.prems(2) by (simp add: x Let_def IH)
qed simp

lemma blocks_of_nth [simp]: "set (blocks_of piece js) = (\<lambda>j. \<lparr>piece_index = piece, block_index = j\<rparr>) ` set js"
  by (simp add: blocks_of_def)

lemma length_dl_infos [simp]: "length (dl_infos d n s) = n"
  by (simp add: dl_infos_def)

text \<open>The records a download points to are the blocks of its piece.\<close>

lemma infos_status:
  assumes base: "base_ok s" and d: "d \<in> set (m_downloads s)" and j: "j < blocks_in_piece (dl_index d) s"
  shows "dl_infos d (blocks_in_piece (dl_index d) s) s ! j = v_blocks (the (dl_view s (dl_index d))) ! j"
    "block_state (dl_infos d (blocks_in_piece (dl_index d) s) s ! j) = status s (dl_index d) j"
proof -
  let ?v = "view_of (m_block_info s) (m_blocks_per_piece s) d"
  note b = base_okD [OF base]
  have sl: "slots_ok (m_blocks_per_piece s) (m_block_info s) (m_downloads s)" using b(4) by (simp add: dl_ok_def)
  have v: "dl_view s (dl_index d) = Some ?v"
    using map_of_downloads [OF slots_okD(2) [OF sl]] d by (fastforce simp: dl_view_def in_set_conv_nth)
  have "info d \<le> length (m_block_info s)" using slot_in_range [OF sl d] by simp
  moreover have "j < length (v_blocks ?v)"
    using view_length [OF b(4) v] blocks_in_piece_le [OF base, of "dl_index d"] j by simp
  ultimately show *: "dl_infos d (blocks_in_piece (dl_index d) s) s ! j = v_blocks (the (dl_view s (dl_index d))) ! j"
    using j unfolding v by (simp add: dl_infos_def view_of_def)
  show "block_state (dl_infos d (blocks_in_piece (dl_index d) s) s ! j) = status s (dl_index d) j"
    unfolding * by (simp add: status_def v)
qed

lemma download_piece:
  assumes "base_ok s" "d \<in> set (m_downloads s)"
  shows "dl_index d < num_pieces s" "downloading (m_piece_map s ! dl_index d)" "\<not> pos_have (m_piece_map s ! dl_index d)"
proof -
  note b = base_okD [OF assms(1)]
  show p: "dl_index d < num_pieces s" "downloading (m_piece_map s ! dl_index d)"
    using b(4) assms(2) by (auto simp: dl_ok_def)
  then show "\<not> pos_have (m_piece_map s ! dl_index d)" using b(6) by blast
qed

lemma enumerate_infos:
  "(j, b) \<in> set (enumerate 0 (dl_infos d n s)) \<Longrightarrow> j < n \<and> b = dl_infos d n s ! j"
  by (auto simp: in_set_enumerate_eq)

lemma free_pickable:
  assumes "base_ok s" "d \<in> set (m_downloads s)" "bits ! dl_index d" "j < blocks_in_piece (dl_index d) s"
    "block_state (dl_infos d (blocks_in_piece (dl_index d) s) s ! j) = state_none"
  shows "pickable bits s \<lparr>piece_index = dl_index d, block_index = j\<rparr>"
  using assms download_piece [OF assms(1,2)] infos_status [OF assms(1,2,4)] by (simp add: pickable_def)

lemma add_blocks_downloading_all:
  assumes base: "base_ok s" and d: "d \<in> set (m_downloads s)" and P: "\<And>b. pickable bits s b \<Longrightarrow> P b" and p: "pick_all P p"
  shows "pick_all P (add_blocks_downloading d bits whole pe speed options s p)"
proof (cases "bits ! dl_index d")
  case True
  let ?n = "blocks_in_piece (dl_index d) s"
  let ?i = "dl_infos d ?n s"
  have free: "P \<lparr>piece_index = dl_index d, block_index = j\<rparr>" if "j < ?n" "block_state (?i ! j) = state_none" for j
    using P [OF free_pickable [OF base d True that]] .
  have "pick_all P (snd (pick_free_blocks (dl_index d) whole a b (enumerate 0 ?i) p))" for a b
    by (rule pick_free_blocks_all [OF _ p]) (use free enumerate_infos in blast)
  moreover have "pick_all P (p\<lparr>backup_blocks2 := backup_blocks2 p @
      blocks_of (dl_index d) (filter (\<lambda>j. block_state (?i ! j) = state_none) [0..<length ?i])\<rparr>)"
    using free pick_allD [OF p] by auto
  ultimately show ?thesis
    using p unfolding add_blocks_downloading_def Let_def by (auto split: prod.splits simp del: pick_all_simps(4)) (metis snd_conv)+
qed (simp add: add_blocks_downloading_def p)

lemma expand_down_ok:
  "expand_down bits s low k \<le> k \<and> (\<forall>i. expand_down bits s low k \<le> i \<longrightarrow> i < k \<longrightarrow> can_pick i bits s)"
  by (induction k) (auto simp: less_Suc_eq)

lemma expand_up_ok:
  "e \<le> expand_up bits s u e \<and> expand_up bits s u e \<le> max e u \<and> (\<forall>i. e \<le> i \<longrightarrow> i < expand_up bits s u e \<longrightarrow> can_pick i bits s)"
proof (induction bits s u e rule: expand_up.induct)
  case (1 bits s u e)
  show ?case
  proof (cases "e < u \<and> can_pick e bits s")
    case True
    then have "expand_up bits s u e = expand_up bits s u (e + 1)" by (subst expand_up.simps) simp
    then show ?thesis using 1 [OF True] True by (auto simp: Suc_le_eq) (metis le_neq_implies_less)
  qed (subst (1 2 3) expand_up.simps, auto)
qed

lemma expand_piece_ok:
  assumes "expand_piece piece whole bits s = (start, e)" "piece < num_pieces s"
  shows "start \<le> piece" "piece < e" "e \<le> num_pieces s" "\<And>k. start \<le> k \<Longrightarrow> k < e \<Longrightarrow> k = piece \<or> can_pick k bits s"
proof -
  have "expand_up bits s (min u (num_pieces s)) (piece + 1) \<le> num_pieces s" for u
    using expand_up_ok [of "piece + 1" bits s "min u (num_pieces s)"] assms(2) by (auto simp: max_def split: if_splits)
  then show "start \<le> piece" "piece < e" "e \<le> num_pieces s"
    using assms expand_down_ok [of bits s "piece + 1 - whole" piece] expand_up_ok [of "piece + 1" bits s]
    by (auto simp: expand_piece_def Let_def Suc_le_eq split: if_splits)
  show "k = piece \<or> can_pick k bits s" if "start \<le> k" "k < e" for k
    using assms that expand_down_ok [of bits s "piece + 1 - whole" piece] expand_up_ok [of "piece + 1" bits s]
    by (cases k piece rule: linorder_cases) (auto simp: expand_piece_def Let_def Suc_le_eq split: if_splits)
qed

lemma status_idle:
  assumes "base_ok s" "i < num_pieces s" "\<not> downloading (m_piece_map s ! i)"
  shows "status s i j = state_none"
proof -
  have "dl_view s i = None" using assms view_None_iff [of s i] by (auto simp: base_ok_def dl_ok_def)
  then show ?thesis by (simp add: status_def)
qed

lemma new_pickable:
  assumes "base_ok s" "k < num_pieces s" "bits ! k" "\<not> pos_have (m_piece_map s ! k)" "\<not> downloading (m_piece_map s ! k)"
    "j < blocks_in_piece k s"
  shows "pickable bits s \<lparr>piece_index = k, block_index = j\<rparr>"
  using assms status_idle [of s k j] by (simp add: pickable_def)

lemma add_blocks_all:
  assumes base: "base_ok s" and i: "i < num_pieces s" and free: "is_piece_free i bits s"
    and P: "\<And>b. pickable bits s b \<Longrightarrow> P b" and p: "pick_all P p"
  shows "pick_all P (add_blocks i bits whole pe ignore speed options s p)"
proof (cases "downloading (m_piece_map s ! i)")
  case True
  obtain k where k: "find_dl_piece i s = Some k" using True find_downloading [OF base_okD(4) [OF base] i] by blast
  have "m_downloads s ! k \<in> set (m_downloads s)" using find_dl_piece_Some [OF k] by simp
  from add_blocks_downloading_all [OF base this P p] show ?thesis
    using True k p by (simp add: add_blocks_def)
next
  case False
  have fi: "bits ! i" "\<not> pos_have (m_piece_map s ! i)" using free by (simp_all add: is_piece_free_def)
  have Pi: "P \<lparr>piece_index = i, block_index = j\<rparr>" if "j < blocks_in_piece i s" for j
    using P [OF new_pickable [OF base i fi False that]] .
  obtain start e where e: "expand_piece i whole bits s = (start, e)" by (cases "expand_piece i whole bits s")
  note x = expand_piece_ok [OF e i]
  have Pk: "P \<lparr>piece_index = k, block_index = j\<rparr>" if "start \<le> k" "k < e" "j < blocks_in_piece k s" for k j
  proof (cases "k = i")
    case False
    then have c: "can_pick k bits s" using x(4) that by blast
    show ?thesis by (rule P, rule new_pickable [OF base]) (use c that x(3) in \<open>auto simp: can_pick_def\<close>)
  qed (use Pi that in simp)
  show ?thesis using False p pick_allD [OF p] Pi Pk by (auto simp: add_blocks_def Let_def e)
qed

lemma pick_partials_all:
  assumes "base_ok s" "set ds \<subseteq> set (m_downloads s)" "\<And>b. pickable bits s b \<Longrightarrow> P b" "pick_all P p"
  shows "pick_all P (pick_partials bits whole pe speed options s ds p)"
  using assms(2,4)
proof (induction ds arbitrary: p)
  case (Cons d ds)
  have "pick_all P (add_blocks_downloading d bits whole pe speed options s p)"
    by (rule add_blocks_downloading_all [OF assms(1) _ assms(3) Cons.prems(2)]) (use Cons.prems(1) in auto)
  then show ?case using Cons by (auto intro!: unless_done_all)
qed simp

lemma pick_list_all:
  assumes "base_ok s" "\<forall>i \<in> set is. i < num_pieces s" "\<And>b. pickable bits s b \<Longrightarrow> P b" "pick_all P p"
  shows "pick_all P (pick_list bits whole pe ignore speed options s is p)"
  using assms(2,4)
proof (induction "is" arbitrary: p)
  case (Cons i "is")
  have "pick_all P (add_blocks i bits whole pe ignore speed options s p)" if "is_piece_free i bits s"
    by (rule add_blocks_all [OF assms(1) _ that assms(3) Cons.prems(2)]) (use Cons.prems(1) in auto)
  then show ?case using Cons by (auto intro!: unless_done_all)
qed simp

lemma pick_range_all:
  assumes "\<And>k j. k \<in> set ks \<Longrightarrow> j < blocks_in_piece k s \<Longrightarrow> P \<lparr>piece_index = k, block_index = j\<rparr>" "pick_all P p"
  shows "pick_all P (pick_range whole s ks p)"
  using assms
proof (induction ks arbitrary: p whole)
  case (Cons k ks)
  have IH: "pick_all P q \<Longrightarrow> pick_all P (pick_range w s ks q)" for q w
    by (rule Cons.IH [OF Cons.prems(1)]) simp_all
  have "P \<lparr>piece_index = k, block_index = j\<rparr>" if "j < blocks_in_piece k s" for j using Cons.prems(1) that by simp
  then show ?case using pick_allD [OF Cons.prems(2)] by (auto simp: Let_def intro!: IH)
qed simp

lemma skip_pieces_Some:
  "skip_pieces ok n start_piece piece = Some k \<Longrightarrow> k < n \<and> ok k"
proof (induction ok n start_piece piece rule: skip_pieces.induct)
  case (1 ok n start_piece piece)
  show ?case
    using 1(2) 1(1) [OF _ _ refl] by (subst (asm) skip_pieces.simps) (auto simp: Let_def split: if_splits)
qed

lemma can_pick_pickable:
  "base_ok s \<Longrightarrow> can_pick k bits s \<Longrightarrow> k < num_pieces s \<Longrightarrow> j < blocks_in_piece k s \<Longrightarrow>
   pickable bits s \<lparr>piece_index = k, block_index = j\<rparr>"
  by (rule new_pickable) (simp_all add: can_pick_def)

lemma pick_random_all:
  assumes base: "base_ok s" and P: "\<And>b. pickable bits s b \<Longrightarrow> P b" and p: "pick_all P p"
  shows "pick_all P (pick_random fuel bits whole suggested s start_piece piece p)"
  using p
proof (induction fuel arbitrary: piece p)
  case (Suc fuel)
  show ?case
  proof (cases "skip_pieces (\<lambda>i. can_pick i bits s \<and> i \<notin> set suggested) (num_pieces s) start_piece piece")
    case (Some k)
    then have k: "k < num_pieces s" "can_pick k bits s" using skip_pieces_Some by blast+
    obtain start e where e: "expand_piece k whole bits s = (start, e)" by (cases "expand_piece k whole bits s")
    note x = expand_piece_ok [OF e k(1)]
    have "pick_all P (pick_range whole s [start..<e] p)"
    proof (rule pick_range_all [OF _ Suc.prems])
      fix l j assume l: "l \<in> set [start..<e]" "j < blocks_in_piece l s"
      then have "can_pick l bits s" "l < num_pieces s" using x(3) x(4) [of l] k by auto
      then show "P \<lparr>piece_index = l, block_index = j\<rparr>" using P can_pick_pickable [OF base] l(2) by blast
    qed
    then show ?thesis using Suc.prems Some Suc.IH by (auto simp: e Let_def)
  qed (use Suc.prems in simp)
qed simp

lemma repick_full_all:
  assumes "base_ok s" "set ds \<subseteq> set (m_downloads s)" "\<And>b. pickable bits s b \<Longrightarrow> P b" "pick_all P p"
  shows "pick_all P (repick_full bits whole pe speed options s ds p)"
  using assms(2,4)
proof (induction ds arbitrary: p)
  case (Cons d ds)
  let ?q = "add_blocks_downloading d bits whole pe speed options s (p\<lparr>interesting_blocks := []\<rparr>)"
  have "pick_all P (p\<lparr>interesting_blocks := []\<rparr>)" using pick_allD [OF Cons.prems(2)] by simp
  then have "pick_all P ?q" using Cons.prems(1) assms(3)
    by (intro add_blocks_downloading_all [OF assms(1)]) auto
  then have "pick_all P (?q\<lparr>interesting_blocks := interesting_blocks p, num_blocks := num_blocks p\<rparr>)"
    using pick_allD [of P ?q] pick_allD [OF Cons.prems(2)] by simp
  then show ?case using Cons by (auto simp: Let_def)
qed simp

definition busy :: "bool list \<Rightarrow> peer_ptr \<Rightarrow> piece_picker \<Rightarrow> piece_block \<Rightarrow> bool" where
  "busy bits pe s b \<longleftrightarrow> piece_index b < num_pieces s \<and> bits ! piece_index b
     \<and> \<not> pos_have (m_piece_map s ! piece_index b) \<and> \<not> pos_filtered (m_piece_map s ! piece_index b)
     \<and> block_index b < blocks_in_piece (piece_index b) s
     \<and> status s (piece_index b) (block_index b) = state_requested
     \<and> peer (v_blocks (the (dl_view s (piece_index b))) ! block_index b) \<noteq> pe"

lemma busy_blocks_ok:
  assumes base: "base_ok s" and ds: "set ds \<subseteq> set (m_downloads s)" and b: "b \<in> set (busy_blocks bits pe s ds)"
  shows "busy bits pe s b"
  using ds b
proof (induction ds)
  case (Cons d ds)
  have d: "d \<in> set (m_downloads s)" using Cons.prems(1) by simp
  note dp = download_piece [OF base d]
  have "busy bits pe s \<lparr>piece_index = dl_index d, block_index = j\<rparr>"
    if "bits ! dl_index d" "piece_priority (m_piece_map s ! dl_index d) \<noteq> 0" "j < blocks_in_piece (dl_index d) s"
      "block_state (dl_infos d (blocks_in_piece (dl_index d) s) s ! j) = state_requested"
      "peer (dl_infos d (blocks_in_piece (dl_index d) s) s ! j) \<noteq> pe" for j
    using that dp infos_status [OF base d that(3)] by (simp add: busy_def pos_filtered_def)
  then show ?case using Cons by (auto simp: Let_def split: if_splits)
qed simp

section \<open>The queue in the reverse mode\<close>

lemma last_ends: "bs \<noteq> [] \<Longrightarrow> last (ends n bs) = n + length (concat bs)"
proof (induction bs arbitrary: n)
  case (Cons b bs)
  then show ?case by (cases bs) auto
qed simp

lemma round_ok:
  assumes "queue_ok s"
  shows "queue_ok (s\<lparr>m_priority_boundries := round_boundaries (m_priority_boundries s)\<rparr>)"
proof -
  obtain bs where bs: "bucket_rep (prio_of s) (m_piece_map s) (m_pieces s) (m_priority_boundries s) bs"
    using assms by (auto simp: queue_ok_def queue_rep_def)
  note r = bucket_repD [OF bs]
  let ?n = "(length bs + prio_factor - 1) div prio_factor * prio_factor"
  have "length bs \<le> ?n" by (simp add: prio_factor_def priority_levels_def)
  then have "round_boundaries (ends 0 bs) = ends 0 (bs @ replicate (?n - length bs) [])"
    using last_ends [OF r(1), of 0]
    by (auto simp: round_boundaries_def resize_def ends_append ends_replicate)
  then have "bucket_rep (prio_of s) (m_piece_map s) (m_pieces s) (round_boundaries (m_priority_boundries s))
      (bs @ replicate (?n - length bs) [])"
    using r unfolding bucket_rep_def by simp
  moreover have "prio_of (s\<lparr>m_priority_boundries := b\<rparr>) = prio_of s" for b by (simp add: prio_of_def fun_eq_iff)
  ultimately show ?thesis using assms by (auto simp: queue_ok_def queue_rep_def)
qed

lemma queue_range:
  assumes "queue_ok s"
  shows "\<forall>i \<in> set (map nat (m_pieces s)). i < num_pieces s"
    "\<And>l. l < length (m_priority_boundries s) \<Longrightarrow> m_priority_boundries s ! l \<le> length (m_pieces s)"
proof -
  obtain bs where bs: "bucket_rep (prio_of s) (m_piece_map s) (m_pieces s) (m_priority_boundries s) bs"
    using assms by (auto simp: queue_ok_def queue_rep_def)
  note r = bucket_repD [OF bs]
  show "\<forall>i \<in> set (map nat (m_pieces s)). i < num_pieces s" using placed_ids [OF r(5)] by (auto simp: ids_def)
  fix l assume l: "l < length (m_priority_boundries s)"
  then have "m_priority_boundries s ! l = length (concat (take (Suc l) bs))" using r(3) by (simp add: ends_nth)
  moreover have "length (concat bs) = length (concat (take (Suc l) bs)) + length (concat (drop (Suc l) bs))"
    using arg_cong [OF append_take_drop_id [of "Suc l" bs], of "\<lambda>x. length (concat x)"] by (simp only: concat_append length_append)
  ultimately show "m_priority_boundries s ! l \<le> length (m_pieces s)" using r(2) by simp
qed

lemma reverse_order_range:
  assumes q: "queue_ok s" and bnd: "m_priority_boundries s = round_boundaries b"
  shows "\<forall>i \<in> set (reverse_order (m_priority_boundries s) (m_pieces s)). i < num_pieces s"
proof -
  define m where "m = (length b + prio_factor - 1) div prio_factor"
  have m: "length (m_priority_boundries s) = m * prio_factor" by (simp add: bnd round_boundaries_def m_def)
  have "k < length (m_pieces s)" if "i < length (m_priority_boundries s)" "k \<in> set (level_range (m_priority_boundries s) i)" for i k
  proof -
    have "i div prio_factor < m" using that(1) m by (simp add: less_mult_imp_div_less)
    then have "i div prio_factor * prio_factor + prio_factor - 1 - i mod prio_factor < length (m_priority_boundries s)"
      unfolding m by (simp add: prio_factor_def priority_levels_def)
    then show ?thesis using that(2) queue_range(2) [OF q] by (force simp: level_range_def Let_def)
  qed
  then show ?thesis using queue_range(1) [OF q] by (auto simp: reverse_order_def)
qed

section \<open>The whole function\<close>

text \<open>What is picked depends on the queue only through the order; the queue is the only thing that changes.\<close>

lemma pickable_cong:
  assumes "same_base s s'"
  shows "pickable bits s' = pickable bits s" "dl_view s' = dl_view s" "num_pieces s' = num_pieces s"
    "\<And>i. i < num_pieces s \<Longrightarrow> pos_have (m_piece_map s' ! i) = pos_have (m_piece_map s ! i)"
    "\<And>i. i < num_pieces s \<Longrightarrow> pos_filtered (m_piece_map s' ! i) = pos_filtered (m_piece_map s ! i)"
    "blocks_in_piece i s' = blocks_in_piece i s"
proof -
  note f = map_flags_nth [OF assms [unfolded same_base_def, THEN conjunct1]]
  show n: "num_pieces s' = num_pieces s" by (rule f(1))
  show h: "pos_have (m_piece_map s' ! i) = pos_have (m_piece_map s ! i)"
    "pos_filtered (m_piece_map s' ! i) = pos_filtered (m_piece_map s ! i)" if "i < num_pieces s" for i
    using f(2) [OF that] by (simp_all add: flags_def pos_filtered_def)
  show v: "dl_view s' = dl_view s" using assms by (simp add: same_base_def dl_view_def fun_eq_iff)
  show b: "blocks_in_piece i s' = blocks_in_piece i s" for i using assms n by (simp add: same_base_def blocks_in_piece_def)
  show "pickable bits s' = pickable bits s" using n h v b by (auto simp: pickable_def status_def fun_eq_iff)
qed

lemma busy_cong: "same_base s s' \<Longrightarrow> busy bits pe s' = busy bits pe s"
  using pickable_cong [of s s'] by (auto simp: busy_def status_def fun_eq_iff)

lemma queue_ready_ok:
  assumes shuf: "\<And>k xs. mset (shuf k xs) = mset xs" and ok: "picker_ok s"
  shows "picker_ok (queue_ready shuf options p s)" "same_base s (queue_ready shuf options p s)"
    "0 < num_blocks p \<Longrightarrow> \<not> option_set options sequential \<Longrightarrow> option_set options rarest_first \<Longrightarrow>
      queue_ok (queue_ready shuf options p s)"
    "0 < num_blocks p \<Longrightarrow> \<not> option_set options sequential \<Longrightarrow> option_set options rarest_first \<Longrightarrow>
      option_set options reverse_pick \<Longrightarrow> \<exists>b. m_priority_boundries (queue_ready shuf options p s) = round_boundaries b"
proof -
  define s1 where "s1 = (if m_dirty s then update_pieces shuf s else s)"
  have base: "base_ok s" using ok by (simp add: picker_ok_def)
  note u = update_pieces_ok [of shuf, OF shuf base]
  have s1: "picker_ok s1" "same_base s s1" "\<not> m_dirty s1" using u ok by (simp_all add: s1_def same_base_def)
  then have q1: "queue_ok s1" by (simp add: picker_ok_def)
  let ?s2 = "s1\<lparr>m_priority_boundries := round_boundaries (m_priority_boundries s1)\<rparr>"
  have q2: "queue_ok ?s2" by (rule round_ok [OF q1])
  have b2: "same_base s ?s2" using s1(2) by (simp add: same_base_def)
  have s2: "picker_ok ?s2" using q2 same_base_ok [OF b2 base] by (simp add: picker_ok_def)
  show "picker_ok (queue_ready shuf options p s)" "same_base s (queue_ready shuf options p s)"
    using ok s1 s2 b2 by (auto simp: queue_ready_def Let_def s1_def [symmetric] same_base_def)
  show "queue_ok (queue_ready shuf options p s)"
    if "0 < num_blocks p" "\<not> option_set options sequential" "option_set options rarest_first"
    using that q1 q2 by (auto simp: queue_ready_def Let_def s1_def [symmetric])
  show "\<exists>b. m_priority_boundries (queue_ready shuf options p s) = round_boundaries b"
    if "0 < num_blocks p" "\<not> option_set options sequential" "option_set options rarest_first" "option_set options reverse_pick"
    using that by (auto simp: queue_ready_def Let_def s1_def [symmetric])
qed

lemma pick_start_all:
  assumes base: "base_ok s" and sg: "\<forall>i \<in> set suggested. i < num_pieces s"
    and P: "\<And>b. pickable bits s b \<Longrightarrow> P b" and p: "pick_all P p"
  shows "pick_all P (pick_start bits whole pe speed options suggested s p)"
proof -
  have "pick_all P (pick_partials bits whole pe speed options s (m_downloads s) p)"
    by (rule pick_partials_all [OF base _ P p]) simp
  then show ?thesis
    unfolding pick_start_def Let_def
    using p by (auto intro!: unless_done_all append_backup_all pick_list_all [OF base sg P])
qed

lemma pick_order_all:
  assumes ok: "picker_ok s" and P: "\<And>b. pickable bits s b \<Longrightarrow> P b" and p: "pick_all P p"
    and q: "\<not> option_set options sequential \<Longrightarrow> option_set options rarest_first \<Longrightarrow> queue_ok s"
    and r: "\<not> option_set options sequential \<Longrightarrow> option_set options rarest_first \<Longrightarrow> option_set options reverse_pick \<Longrightarrow>
      \<exists>b. m_priority_boundries s = round_boundaries b"
  shows "pick_all P (pick_order bits whole pe speed options suggested rnd s p)"
proof -
  have base: "base_ok s" using ok by (simp add: picker_ok_def)
  have "m_reverse_cursor s \<le> num_pieces s" using base_okD(3) [OF base] by (simp add: cursors_ok_def rcursor_at_def)
  then have "\<forall>i \<in> set [m_cursor s..<m_reverse_cursor s]. i < num_pieces s"
    "\<forall>i \<in> set (rev [m_cursor s..<m_reverse_cursor s]). i < num_pieces s" by auto
  note seq = this [THEN pick_list_all [OF base _ P p]]
  show ?thesis
  proof (cases "option_set options sequential \<or> \<not> option_set options rarest_first")
    case True
    then show ?thesis using seq pick_random_all [OF base P p] by (auto simp: pick_order_def Let_def)
  next
    case False
    then have qo: "queue_ok s" using q by blast
    have "\<forall>i \<in> set (reverse_order (m_priority_boundries s) (m_pieces s)). i < num_pieces s" if "option_set options reverse_pick"
      using r False that reverse_order_range [OF qo] by blast
    then show ?thesis
      using False pick_list_all [OF base queue_range(1) [OF qo] P p] pick_list_all [OF base _ P p]
      by (auto simp: pick_order_def)
  qed
qed

lemma pick_backups_all:
  assumes base: "base_ok s" and P: "\<And>b. pickable bits s b \<Longrightarrow> P b" and p: "pick_all P p"
  shows "\<exists>xs. (\<forall>b \<in> set xs. P b) \<and> (interesting_blocks (pick_backups bits whole pe speed options rnd s p) = xs \<or>
    (\<exists>b. busy bits pe s b \<and> interesting_blocks (pick_backups bits whole pe speed options rnd s p) = xs @ [b]))"
proof -
  define q where "q = unless_done append_backup2 (append_backup (repick_full bits whole pe speed options s (m_downloads s) p))"
  let ?t = "busy_blocks bits pe s (m_downloads s)"
  have "pick_all P (repick_full bits whole pe speed options s (m_downloads s) p)"
    by (rule repick_full_all [OF base _ P p]) simp
  then have "pick_all P q" unfolding q_def by (intro unless_done_all append_backup_all)
  then have q: "\<forall>b \<in> set (interesting_blocks q). P b" by (rule pick_allD)
  have t: "busy bits pe s (?t ! (rnd mod length ?t))" if "?t \<noteq> []"
    by (rule busy_blocks_ok [OF base order_refl]) (use that in simp)
  have "interesting_blocks (pick_backups bits whole pe speed options rnd s p) = interesting_blocks q \<or>
    ?t \<noteq> [] \<and> interesting_blocks (pick_backups bits whole pe speed options rnd s p) = interesting_blocks q @ [?t ! (rnd mod length ?t)]"
    unfolding pick_backups_def Let_def q_def [symmetric] by (auto simp: unless_done_def)
  then show ?thesis using q t by blast
qed

lemma pick_pieces_all:
  assumes shuf: "\<And>k xs. mset (shuf k xs) = mset xs" and ok: "picker_ok s"
    and sg: "\<forall>i \<in> set suggested. i < num_pieces s"
    and pick: "pick_pieces shuf rnd1 rnd2 bits interesting n whole pe speed opts suggested npeers s = (picked, s')"
  shows "\<exists>xs. (\<forall>b \<in> set xs. b \<in> set interesting \<or> pickable bits s b) \<and>
    (picked = xs \<or> (\<exists>b. busy bits pe s b \<and> picked = xs @ [b]))"
    and "picker_ok s'" and "same_base s s'"
proof -
  let ?P = "\<lambda>b. b \<in> set interesting \<or> pickable bits s b"
  define options where "options = pick_options opts npeers s"
  define w where "w = whole_pieces options whole"
  define p0 where "p0 = \<lparr>interesting_blocks = interesting, backup_blocks = [], backup_blocks2 = [], num_blocks = n\<rparr>"
  define p1 where "p1 = pick_start bits w pe speed options suggested s p0"
  define s1 where "s1 = queue_ready shuf options p1 s"
  define p2 where "p2 = unless_done (pick_order bits w pe speed options suggested rnd1 s1) p1"
  have base: "base_ok s" using ok by (simp add: picker_ok_def)
  note r = queue_ready_ok [where shuf = shuf and options = options and p = p1, OF shuf ok, folded s1_def]
  have base1: "base_ok s1" using r(1) by (simp add: picker_ok_def)
  note c = pickable_cong(1) [OF r(2)] busy_cong [OF r(2)]
  have P1: "\<And>b. pickable bits s1 b \<Longrightarrow> ?P b" unfolding c by simp
  have "pick_all ?P p0" by (simp add: pick_all_def p0_def)
  then have p1: "pick_all ?P p1" unfolding p1_def by (rule pick_start_all [OF base sg, rotated]) simp
  have "pick_all ?P p2" unfolding p2_def
  proof (cases "0 < num_blocks p1")
    case True
    show "pick_all ?P (unless_done (pick_order bits w pe speed options suggested rnd1 s1) p1)"
      using True pick_order_all [OF r(1) P1 p1 r(3) r(4)] p1 by (simp add: unless_done_def)
  qed (use p1 in \<open>simp add: unless_done_def\<close>)
  then have "\<exists>xs. (\<forall>b \<in> set xs. ?P b) \<and> (interesting_blocks (unless_done (pick_backups bits w pe speed options rnd2 s1) p2) = xs \<or>
    (\<exists>b. busy bits pe s1 b \<and> interesting_blocks (unless_done (pick_backups bits w pe speed options rnd2 s1) p2) = xs @ [b]))"
    using pick_backups_all [OF base1 P1] pick_allD(1) unfolding unless_done_def by (cases "num_blocks p2 \<le> 0") (simp_all, blast)
  moreover have "picked = interesting_blocks (unless_done (pick_backups bits w pe speed options rnd2 s1) p2)" "s' = s1"
    using pick unfolding pick_pieces_def Let_def options_def [symmetric] w_def [symmetric] p0_def [symmetric]
      p1_def [symmetric] s1_def [symmetric] p2_def [symmetric] by auto
  ultimately show "\<exists>xs. (\<forall>b \<in> set xs. ?P b) \<and> (picked = xs \<or> (\<exists>b. busy bits pe s b \<and> picked = xs @ [b]))"
    "picker_ok s'" "same_base s s'"
    using r(1,2) unfolding c by simp_all
qed

section \<open>How many blocks are picked\<close>

text \<open>Unless whole pieces are preferred, every block picked is one less wanted, and none too many are picked.\<close>

definition kept :: "pick \<Rightarrow> pick \<Rightarrow> bool" where
  "kept p q \<longleftrightarrow> int (length (interesting_blocks q)) + num_blocks q = int (length (interesting_blocks p)) + num_blocks p
     \<and> 0 \<le> num_blocks q"

lemma kept_refl [simp]: "kept p p \<longleftrightarrow> 0 \<le> num_blocks p"
  by (simp add: kept_def)

lemma kept_simps [simp]:
  "kept p (q\<lparr>backup_blocks := x\<rparr>) = kept p q" "kept p (q\<lparr>backup_blocks2 := x\<rparr>) = kept p q"
  "kept p (p\<lparr>interesting_blocks := interesting_blocks p @ [b], num_blocks := num_blocks p - 1\<rparr>) \<longleftrightarrow> 1 \<le> num_blocks p"
  by (auto simp: kept_def)

lemma kept_trans: "kept p q \<Longrightarrow> kept q r \<Longrightarrow> kept p r"
  by (simp add: kept_def)

lemma unless_done_kept: "kept p q \<Longrightarrow> (0 < num_blocks q \<Longrightarrow> kept q (f q)) \<Longrightarrow> kept p (unless_done f q)"
  by (auto simp: unless_done_def not_le intro: kept_trans)

lemma append_backup_kept: "0 < num_blocks p \<Longrightarrow> kept p (append_backup p)" "0 < num_blocks p \<Longrightarrow> kept p (append_backup2 p)"
  by (auto simp: append_backup_def append_backup2_def append_blocks_def kept_def Let_def min_def)

lemma pick_free_blocks_kept:
  "0 < num_blocks p \<Longrightarrow> kept p (snd (pick_free_blocks piece 0 affine near bs p))"
proof (induction bs arbitrary: p affine near)
  case (Cons x bs)
  obtain j b where x: "x = (j, b)" by (cases x)
  have IH: "0 < num_blocks q \<Longrightarrow> kept p q \<Longrightarrow> kept p (snd (pick_free_blocks piece 0 a n bs q))" for q a n
    using Cons.IH kept_trans by blast
  show ?case using Cons.prems by (simp add: x Let_def IH)
qed simp

lemma add_blocks_downloading_kept:
  assumes "0 < num_blocks p"
  shows "kept p (add_blocks_downloading d bits 0 pe speed options s p)"
proof -
  have zero: "kept p q \<Longrightarrow> num_blocks q \<le> 0 \<Longrightarrow> kept p (q\<lparr>num_blocks := 0\<rparr>)" for q by (simp add: kept_def)
  have "kept p q" if "pick_free_blocks (dl_index d) 0 a b bs p = (r, q)" for a b bs r q
    using pick_free_blocks_kept [OF assms, of "dl_index d" a b bs] that by simp
  then show ?thesis
    unfolding add_blocks_downloading_def Let_def using assms by (auto split: prod.splits intro: zero)
qed

lemma add_blocks_kept:
  "0 < num_blocks p \<Longrightarrow> kept p (add_blocks i bits 0 pe ignore speed options s p)"
  using add_blocks_downloading_kept
  by (auto simp: add_blocks_def Let_def kept_def blocks_of_def min_def split: option.splits)

lemma pick_partials_kept:
  "0 < num_blocks p \<Longrightarrow> kept p (pick_partials bits 0 pe speed options s ds p)"
  by (induction ds arbitrary: p) (auto intro!: unless_done_kept add_blocks_downloading_kept)

lemma pick_list_kept:
  "0 < num_blocks p \<Longrightarrow> kept p (pick_list bits 0 pe ignore speed options s is p)"
  by (induction "is" arbitrary: p) (auto intro!: unless_done_kept add_blocks_kept)

lemma pick_range_kept: "0 < num_blocks p \<Longrightarrow> kept p (pick_range 0 s [k..<k + 1] p)"
  by (auto simp: kept_def blocks_of_def Let_def)

lemma pick_random_kept:
  "0 \<le> num_blocks p \<Longrightarrow> kept p (pick_random fuel bits 0 suggested s start_piece piece p)"
proof (induction fuel arbitrary: piece p)
  case (Suc fuel)
  have step: "kept p (pick_random fuel bits 0 suggested s start_piece i (pick_range 0 s [k..<k + 1] p))"
    "kept p (pick_range 0 s [k..<k + 1] p)" if "0 < num_blocks p" for k i
  proof -
    show k: "kept p (pick_range 0 s [k..<k + 1] p)" by (rule pick_range_kept [OF that])
    show "kept p (pick_random fuel bits 0 suggested s start_piece i (pick_range 0 s [k..<k + 1] p))"
      by (rule kept_trans [OF k Suc.IH]) (use k in \<open>simp only: kept_def\<close>)
  qed
  then show ?case
    using Suc.prems unfolding pick_random.simps Let_def expand_piece_def
    by (simp add: not_le del: pick_range.simps upt_Suc split: option.split)
qed simp

lemma repick_full_num [simp]:
  "num_blocks (repick_full bits whole pe speed options s ds p) = num_blocks p"
  "interesting_blocks (repick_full bits whole pe speed options s ds p) = interesting_blocks p"
  by (induction ds arbitrary: p) (auto simp: Let_def)

lemma pick_backups_bound:
  assumes "0 < num_blocks p"
  shows "int (length (interesting_blocks (pick_backups bits whole pe speed options rnd s p)))
    \<le> int (length (interesting_blocks p)) + num_blocks p"
proof -
  define r where "r = repick_full bits whole pe speed options s (m_downloads s) p"
  define q where "q = unless_done append_backup2 (append_backup r)"
  have r: "num_blocks r = num_blocks p" "interesting_blocks r = interesting_blocks p" by (simp_all add: r_def)
  have "kept r q" unfolding q_def using assms r(1) by (intro unless_done_kept append_backup_kept) simp_all
  then show ?thesis
    unfolding pick_backups_def Let_def r_def [symmetric] q_def [symmetric] by (auto simp: unless_done_def kept_def r)
qed

lemma pick_pieces_bound:
  assumes "0 < n" "whole_pieces (pick_options opts npeers s) whole = 0"
    "pick_pieces shuf rnd1 rnd2 bits interesting n whole pe speed opts suggested npeers s = (picked, s')"
  shows "int (length picked) \<le> int (length interesting) + n"
proof -
  define options where "options = pick_options opts npeers s"
  define p0 where "p0 = \<lparr>interesting_blocks = interesting, backup_blocks = [], backup_blocks2 = [], num_blocks = n\<rparr>"
  define p1 where "p1 = pick_start bits 0 pe speed options suggested s p0"
  define s1 where "s1 = queue_ready shuf options p1 s"
  define p2 where "p2 = unless_done (pick_order bits 0 pe speed options suggested rnd1 s1) p1"
  have p0: "0 < num_blocks p0" using assms(1) by (simp add: p0_def)
  have k1: "kept p0 p1"
    unfolding p1_def pick_start_def Let_def using p0
    by (auto intro!: unless_done_kept append_backup_kept pick_partials_kept pick_list_kept)
  have "kept p0 p2"
    unfolding p2_def
    by (rule unless_done_kept [OF k1]) (auto simp: pick_order_def Let_def intro!: pick_list_kept pick_random_kept)
  moreover have "picked = interesting_blocks (unless_done (pick_backups bits 0 pe speed options rnd2 s1) p2)"
    using assms(3) unfolding pick_pieces_def Let_def assms(2) unfolding options_def [symmetric] p0_def [symmetric]
      p1_def [symmetric] s1_def [symmetric] p2_def [symmetric] by auto
  ultimately show ?thesis
    using pick_backups_bound [of p2] by (auto simp: unless_done_def kept_def p0_def split: if_splits)
qed

section \<open>The random mode ends\<close>

lemma pick_range_less:
  assumes "0 < num_blocks p" "ks \<noteq> []" "\<And>k. 0 < blocks_in_piece k s"
  shows "num_blocks (pick_range whole s ks p) < num_blocks p"
proof -
  have mono: "0 \<le> num_blocks q \<or> 0 < w \<Longrightarrow> num_blocks (pick_range w s ks q) \<le> num_blocks q" for w q ks
  proof (induction ks arbitrary: q)
    case (Cons k ks)
    define n where "n = (if w = 0 \<and> num_blocks q < int (blocks_in_piece k s) then num_blocks q else int (blocks_in_piece k s))"
    let ?q = "q\<lparr>interesting_blocks := interesting_blocks q @ blocks_of k [0..<nat n], num_blocks := num_blocks q - n\<rparr>"
    have "num_blocks (pick_range w s ks ?q) \<le> num_blocks ?q" by (rule Cons.IH) (use Cons.prems in \<open>auto simp: n_def\<close>)
    then show ?case using Cons.prems by (auto simp: n_def Let_def split: if_splits)
  qed simp
  obtain k ks' where ks: "ks = k # ks'" using assms(2) by (cases ks) auto
  define n where "n = (if whole = 0 \<and> num_blocks p < int (blocks_in_piece k s) then num_blocks p else int (blocks_in_piece k s))"
  let ?q = "p\<lparr>interesting_blocks := interesting_blocks p @ blocks_of k [0..<nat n], num_blocks := num_blocks p - n\<rparr>"
  have "num_blocks (pick_range whole s ks' ?q) \<le> num_blocks ?q" by (rule mono) (use assms(1) in \<open>auto simp: n_def\<close>)
  moreover have "0 < n" using assms(1,3) by (simp add: n_def)
  moreover have "pick_range whole s ks p = pick_range whole s ks' ?q" by (simp add: ks n_def Let_def)
  ultimately show ?thesis by simp
qed

lemma pick_random_fuel:
  assumes "base_ok s" "nat (num_blocks p) \<le> fuel"
  shows "pick_random (fuel + k) bits whole suggested s start_piece piece p =
    pick_random fuel bits whole suggested s start_piece piece p"
  using assms(2)
proof (induction fuel arbitrary: piece p)
  case 0
  then show ?case by (cases k) simp_all
next
  case (Suc fuel)
  show ?case
  proof (cases "0 < num_blocks p")
    case True
    have IH: "pick_random (fuel + k) bits whole suggested s start_piece i (pick_range whole s [a..<e] p) =
        pick_random fuel bits whole suggested s start_piece i (pick_range whole s [a..<e] p)" if "a < e" for a e i
      using Suc.prems True pick_range_less [OF True, of "[a..<e]" s whole] blocks_in_piece_pos [OF assms(1)] that
      by (intro Suc.IH) simp
    show ?thesis
    proof (cases "skip_pieces (\<lambda>i. can_pick i bits s \<and> i \<notin> set suggested) (num_pieces s) start_piece piece")
      case (Some i)
      then have i: "i < num_pieces s" using skip_pieces_Some by blast
      obtain a e where e: "expand_piece i whole bits s = (a, e)" by (cases "expand_piece i whole bits s")
      have "a < e" using expand_piece_ok(1,2) [OF e i] by simp
      then show ?thesis using True Some IH by (simp add: e Let_def)
    qed (use True in simp)
  qed simp
qed

end
