(* ===== verification/Picker_System.thy ===== *)
theory Picker_System
  imports Picker_Pick
begin

text \<open>
  The piece picker as a state machine: the steps are its operations with the preconditions its
  assertions state, on any random numbers. The theory holds the properties of the reachable
  states and of single operations.
\<close>

section \<open>Steps and reachable states\<close>

inductive picker_step :: "piece_picker \<Rightarrow> piece_picker \<Rightarrow> bool" where
  step_inc_all: "picker_step s (inc_refcount_all s)"
| step_dec_all: "picker_step s (dec_refcount_all s)"
| step_inc: "i < num_pieces s \<Longrightarrow> picker_step s (inc_refcount rnd i s)"
| step_dec: "i < num_pieces s \<Longrightarrow> 0 < peer_count (m_piece_map s ! i) \<Longrightarrow> picker_step s (dec_refcount rnd i s)"
| step_inc_bits: "length bits = num_pieces s \<Longrightarrow> picker_step s (inc_refcount_bits bits s)"
| step_dec_bits: "length bits = num_pieces s \<Longrightarrow> picker_step s (dec_refcount_bits bits s)"
| step_update: "(\<And>k xs. mset (shuf k xs) = mset xs) \<Longrightarrow> m_dirty s \<Longrightarrow> picker_step s (update_pieces shuf s)"
| step_we_have: "i < num_pieces s \<Longrightarrow> picker_step s (we_have i s)"
| step_we_dont_have: "i < num_pieces s \<Longrightarrow> picker_step s (we_dont_have rnd i s)"
| step_priority: "i < num_pieces s \<Longrightarrow> n \<le> 7 \<Longrightarrow> picker_step s (snd (set_piece_priority rnd i n s))"
| step_restore: "i < num_pieces s \<Longrightarrow> picker_step s (restore_piece rnd i s)"
| step_downloading: "piece_index b < num_pieces s \<Longrightarrow> block_index b < blocks_in_piece (piece_index b) s \<Longrightarrow>
    \<not> pos_have (m_piece_map s ! piece_index b) \<Longrightarrow> st \<noteq> ps_none \<Longrightarrow>
    num_peers_of b s + 1 < 2 ^ 14 \<Longrightarrow> picker_step s (snd (mark_as_downloading rnd b pe st s))"
| step_writing: "piece_index b < num_pieces s \<Longrightarrow> block_index b < blocks_in_piece (piece_index b) s \<Longrightarrow>
    picker_step s (snd (mark_as_writing rnd b pe s))"
| step_write_failed: "block_index b < blocks_in_piece (piece_index b) s \<Longrightarrow> \<not> is_requested b s \<Longrightarrow>
    picker_step s (write_failed rnd b s)"
| step_finished: "piece_index b < num_pieces s \<Longrightarrow> block_index b < blocks_in_piece (piece_index b) s \<Longrightarrow>
    \<not> is_requested b s \<Longrightarrow> picker_step s (mark_as_finished rnd b pe s)"
| step_abort: "piece_index b < num_pieces s \<Longrightarrow> block_index b < blocks_in_piece (piece_index b) s \<Longrightarrow>
    picker_step s (abort_download rnd b pe s)"
| step_clear_peer: "picker_step s (clear_peer pe s)"
| step_pick: "(\<And>k xs. mset (shuf k xs) = mset xs) \<Longrightarrow> length bits = num_pieces s \<Longrightarrow>
    (\<forall>i \<in> set suggested. i < num_pieces s) \<Longrightarrow> picker_step s
    (snd (pick_pieces shuf rnd1 rnd2 bits interesting n whole pe speed opts suggested npeers s))"

inductive picker_reachable :: "piece_picker \<Rightarrow> bool" where
  reach_init: "0 < bpp \<Longrightarrow> last_blocks \<le> bpp \<Longrightarrow> n \<le> we_have_index \<Longrightarrow>
    picker_reachable (init bpp last_blocks n piece_picker_new)"
| reach_step: "picker_reachable s \<Longrightarrow> picker_step s s' \<Longrightarrow> picker_reachable s'"

inductive_cases picker_stepE: "picker_step s s'"

lemma picker_step_ok:
  assumes "picker_step s s'" "picker_ok s"
  shows "picker_ok s'"
  using assms
proof cases
  case (step_update shuf)
  then show ?thesis using assms(2) update_pieces_ok(1) [of shuf s] by (simp add: picker_ok_def)
next
  case (step_pick shuf bits suggested rnd1 rnd2 interesting n whole pe speed opts npeers)
  then show ?thesis using pick_pieces_all(2) [of shuf s suggested, OF _ assms(2)] by (simp add: prod_eq_iff)
qed (use assms(2) in \<open>simp_all add: inc_refcount_all_ok dec_refcount_all_ok inc_refcount_ok dec_refcount_ok
  inc_refcount_bits_ok dec_refcount_bits_ok we_have_ok we_dont_have_ok set_piece_priority_ok restore_piece_ok
  mark_as_downloading_ok mark_as_writing_ok write_failed_ok mark_as_finished_ok abort_download_ok clear_peer_ok\<close>)

lemma new_ok: "counts_ok piece_picker_new" "pieces_ok (m_piece_map piece_picker_new)"
  by (simp_all add: piece_picker_new_def counts_ok_def pieces_ok_def)

lemma reachable_ok: "picker_reachable s \<Longrightarrow> picker_ok s"
proof (induction rule: picker_reachable.induct)
  case (reach_init bpp last_blocks n)
  then show ?case using new_ok by (intro init_ok) (simp_all add: piece_picker_new_def)
qed (rule picker_step_ok)

section \<open>The blocks as a map from blocks to states\<close>

text \<open>The queries of the code read the map.\<close>

lemma is_requested_status:
  assumes ok: "picker_ok s" and i: "piece_index b < num_pieces s" and j: "block_index b < blocks_in_piece (piece_index b) s"
  shows "is_requested b s \<longleftrightarrow> status s (piece_index b) (block_index b) = state_requested"
proof (cases "downloading (m_piece_map s ! piece_index b)")
  case False
  then show ?thesis using status_not_downloading [OF ok i] by (simp add: is_requested_def)
next
  case True
  then obtain k where k: "find_dl_piece (piece_index b) s = Some k"
    using find_downloading [OF _ i] ok by (auto simp: picker_ok_def base_ok_def)
  then show ?thesis using True by (auto intro: found [OF ok k j] simp: is_requested_def status_def elim!: found [OF ok k j])
qed

lemma mark_as_downloading_status:
  assumes ok: "picker_ok s" and i: "piece_index b < num_pieces s" and h: "\<not> pos_have (m_piece_map s ! piece_index b)"
    and j: "block_index b < blocks_in_piece (piece_index b) s" and j': "j' < m_blocks_per_piece s"
    and m: "mark_as_downloading rnd b pe st s = (r, s')"
  shows "r \<longleftrightarrow> status s (piece_index b) (block_index b) \<notin> {state_writing, state_finished}"
    and "status s' q j' = (if r \<and> q = piece_index b \<and> j' = block_index b then state_requested else status s q j')"
proof -
  let ?i = "piece_index b" and ?j = "block_index b"
  have "(r \<longleftrightarrow> status s ?i ?j \<notin> {state_writing, state_finished}) \<and>
    status s' q j' = (if r \<and> q = ?i \<and> j' = ?j then state_requested else status s q j')"
  proof (cases "downloading (m_piece_map s ! ?i)")
    case False
    obtain k s0 where sd: "start_download rnd ?i s = (k, s0)" by (cases "start_download rnd ?i s")
    note f = started [OF ok i False h j sd]
    note e = dl_edit_full(1) [OF dl_edit_requested [where f = "\<lambda>n. n + 1", OF dl_edit_block(1) [OF dl_edit_state [OF f(2)] f(3),
      where f = "\<lambda>b. \<lparr>peer = pe, num_peers = 1, block_state = state_requested\<rparr>"]]]
    have "r" and s': "s' = update_full k (set_dl k (\<lambda>d. d\<lparr>requested := requested d + 1\<rparr>)
        (set_block k ?j (\<lambda>b. \<lparr>peer = pe, num_peers = 1, block_state = state_requested\<rparr>)
        (set_dl k (\<lambda>d. d\<lparr>dl_state := st\<rparr>) s0)))"
      using m False by (auto simp: mark_as_downloading_def Let_def sd)
    moreover have "status s ?i j' = state_none" "status s ?i ?j = state_none"
      using status_not_downloading [OF ok i False] by simp_all
    ultimately show ?thesis
      unfolding s' status_edit [OF e] using start_status [OF ok i False h sd j'] f(3,5) j j'
      by (auto simp: fresh_download_def nth_list_update)
  next
    case True
    obtain k where k: "find_dl_piece ?i s = Some k"
      using True find_downloading [OF _ i] ok by (auto simp: picker_ok_def base_ok_def)
    obtain v where v: "dl_edit ?i k v v s s" "?j < m_blocks_per_piece s" "blocks_in_piece ?i s \<le> length (v_blocks v)"
      "dl_block k ?j s = v_blocks v ! ?j" using found [OF ok k j] by metis
    note st = status_refl [OF v(1)]
    let ?b = "v_blocks v ! ?j"
    consider (busy) "block_state ?b = state_writing \<or> block_state ?b = state_finished"
      | (again) "block_state ?b = state_requested" | (free) "block_state ?b = state_none"
      by (cases "block_state ?b") auto
    then show ?thesis
    proof cases
      case busy
      then show ?thesis using m True k v(4) st by (auto simp: mark_as_downloading_def Let_def)
    next
      case again
      note e = dl_edit_state_if [where x = st, OF dl_edit_block(1) [where f = "\<lambda>b. b\<lparr>num_peers := (num_peers b + 1) mod 2 ^ 14\<rparr>",
        OF dl_edit_block(1) [where f = "\<lambda>b. b\<lparr>peer := pe\<rparr>", OF v(1,2)] v(2)]]
      have "r" and s': "s' = set_dl k (\<lambda>d. if dl_state d = ps_none then d\<lparr>dl_state := st\<rparr> else d)
          (set_block k ?j (\<lambda>b. b\<lparr>num_peers := (num_peers b + 1) mod 2 ^ 14\<rparr>) (set_block k ?j (\<lambda>b. b\<lparr>peer := pe\<rparr>) s))"
        using m True k v(4) again by (auto simp: mark_as_downloading_def Let_def)
      then show ?thesis
        unfolding s' status_edit [OF e] using again st v(3) j by (auto simp: nth_list_update)
    next
      case free
      note e = dl_edit_state_if [where x = st, OF dl_edit_block(1) [where f = "\<lambda>b. b\<lparr>num_peers := (num_peers b + 1) mod 2 ^ 14\<rparr>",
        OF dl_edit_full(1) [OF dl_edit_requested [where f = "\<lambda>n. n + 1",
        OF dl_edit_block(1) [where f = "\<lambda>b. b\<lparr>block_state := state_requested\<rparr>",
        OF dl_edit_block(1) [where f = "\<lambda>b. b\<lparr>peer := pe\<rparr>", OF v(1,2)] v(2)]]] v(2)]]
      have "r" and s': "s' = set_dl k (\<lambda>d. if dl_state d = ps_none then d\<lparr>dl_state := st\<rparr> else d)
          (set_block k ?j (\<lambda>b. b\<lparr>num_peers := (num_peers b + 1) mod 2 ^ 14\<rparr>) (update_full k
          (set_dl k (\<lambda>d. d\<lparr>requested := requested d + 1\<rparr>) (set_block k ?j (\<lambda>b. b\<lparr>block_state := state_requested\<rparr>)
          (set_block k ?j (\<lambda>b. b\<lparr>peer := pe\<rparr>) s)))))"
        using m True k v(4) free by (auto simp: mark_as_downloading_def Let_def)
      then show ?thesis
        unfolding s' status_edit [OF e] using free st v(3) j by (auto simp: nth_list_update)
    qed
  qed
  then show "r \<longleftrightarrow> status s ?i ?j \<notin> {state_writing, state_finished}"
    "status s' q j' = (if r \<and> q = ?i \<and> j' = ?j then state_requested else status s q j')" by simp_all
qed

lemma mark_as_writing_status:
  assumes ok: "picker_ok s" and i: "piece_index b < num_pieces s" and h: "\<not> pos_have (m_piece_map s ! piece_index b)"
    and j: "block_index b < blocks_in_piece (piece_index b) s" and j': "j' < m_blocks_per_piece s"
    and m: "mark_as_writing rnd b pe s = (r, s')"
  shows "r \<longleftrightarrow> status s (piece_index b) (block_index b) \<notin> {state_writing, state_finished}"
    and "status s' q j' = (if r \<and> q = piece_index b \<and> j' = block_index b then state_writing else status s q j')"
proof -
  let ?i = "piece_index b" and ?j = "block_index b"
  have "(r \<longleftrightarrow> status s ?i ?j \<notin> {state_writing, state_finished}) \<and>
    status s' q j' = (if r \<and> q = ?i \<and> j' = ?j then state_writing else status s q j')"
  proof (cases "downloading (m_piece_map s ! ?i)")
    case False
    obtain k s0 where sd: "start_download rnd ?i s = (k, s0)" by (cases "start_download rnd ?i s")
    note f = started [OF ok i False h j sd]
    note e = dl_edit_full(1) [OF dl_edit_writing [where f = "\<lambda>_. 1", OF dl_edit_block(1) [OF dl_edit_state [OF f(2)] f(3),
      where f = "\<lambda>b. \<lparr>peer = pe, num_peers = 0, block_state = state_writing\<rparr>"]]]
    have "r" and s': "s' = update_full k (set_dl k (\<lambda>d. d\<lparr>writing := 1\<rparr>)
        (set_block k ?j (\<lambda>b. \<lparr>peer = pe, num_peers = 0, block_state = state_writing\<rparr>)
        (set_dl k (\<lambda>d. d\<lparr>dl_state := ps_none\<rparr>) s0)))"
      using m False h by (auto simp: mark_as_writing_def Let_def sd)
    moreover have "status s ?i j' = state_none" "status s ?i ?j = state_none"
      using status_not_downloading [OF ok i False] by simp_all
    ultimately show ?thesis
      unfolding s' status_edit [OF e] using start_status [OF ok i False h sd j'] f(3,5) j j'
      by (auto simp: fresh_download_def nth_list_update)
  next
    case True
    obtain k where k: "find_dl_piece ?i s = Some k"
      using True find_downloading [OF _ i] ok by (auto simp: picker_ok_def base_ok_def)
    obtain v where v: "dl_edit ?i k v v s s" "?j < m_blocks_per_piece s" "blocks_in_piece ?i s \<le> length (v_blocks v)"
      "dl_block k ?j s = v_blocks v ! ?j" using found [OF ok k j] by metis
    note st = status_refl [OF v(1)]
    let ?b = "v_blocks v ! ?j"
    define s1 where "s1 = (if block_state ?b = state_requested
      then set_dl k (\<lambda>d. d\<lparr>requested := requested d - 1\<rparr>) (set_block k ?j (\<lambda>b. b\<lparr>peer := pe\<rparr>) s)
      else set_block k ?j (\<lambda>b. b\<lparr>peer := pe\<rparr>) s)"
    have "\<exists>v1. dl_edit ?i k v v1 s s1 \<and> v_blocks v1 = (v_blocks v)[?j := ?b\<lparr>peer := pe\<rparr>]"
      using dl_edit_block(1) [where f = "\<lambda>b. b\<lparr>peer := pe\<rparr>", OF v(1,2)]
        dl_edit_requested [where f = "\<lambda>n. n - 1", OF dl_edit_block(1) [where f = "\<lambda>b. b\<lparr>peer := pe\<rparr>", OF v(1,2)]]
      unfolding s1_def by (cases "block_state ?b = state_requested") (auto intro!: exI)
    then obtain v1 where v1: "dl_edit ?i k v v1 s s1" "v_blocks v1 = (v_blocks v)[?j := ?b\<lparr>peer := pe\<rparr>]" by blast
    show ?thesis
    proof (cases "block_state ?b = state_writing \<or> block_state ?b = state_finished")
      case busy: True
      have "\<not> r" "s' = s1" using m True k v(4) busy by (auto simp: mark_as_writing_def Let_def s1_def)
      then show ?thesis
        using busy st v(3) j v1(2) status_edit [OF v1(1), of q j'] by (auto simp: nth_list_update)
    next
      case False
      note e = dl_edit_idle [OF dl_edit_block(1) [where f = "\<lambda>b. b\<lparr>num_peers := 0\<rparr>",
        OF dl_edit_block(1) [where f = "\<lambda>b. b\<lparr>block_state := state_writing\<rparr>",
        OF dl_edit_writing [where f = "\<lambda>n. n + 1", OF v1(1)] v(2)] v(2)]]
      have "r" and s': "s' = set_dl k (\<lambda>d. if requested d = 0 then d\<lparr>dl_state := ps_none\<rparr> else d)
          (set_block k ?j (\<lambda>b. b\<lparr>num_peers := 0\<rparr>) (set_block k ?j (\<lambda>b. b\<lparr>block_state := state_writing\<rparr>)
          (set_dl k (\<lambda>d. d\<lparr>writing := writing d + 1\<rparr>) s1)))"
        using m True k v(4) False by (auto simp: mark_as_writing_def Let_def s1_def)
      then show ?thesis
        unfolding s' status_edit [OF e] using False st v(3) j v1(2) by (auto simp: nth_list_update)
    qed
  qed
  then show "r \<longleftrightarrow> status s ?i ?j \<notin> {state_writing, state_finished}"
    "status s' q j' = (if r \<and> q = ?i \<and> j' = ?j then state_writing else status s q j')" by simp_all
qed

section \<open>What the queue holds\<close>

lemma bucketed_sorted: "bucketed pr n bs \<Longrightarrow> sorted (map (\<lambda>x. pr (nat x)) (concat bs))"
proof (induction bs arbitrary: n)
  case (Cons b bs)
  have "sorted (map (\<lambda>x. pr (nat x)) b)" using Cons.prems by (auto simp: sorted_iff_nth_mono)
  moreover have "sorted (map (\<lambda>x. pr (nat x)) (concat bs))"
    using Cons.IH [of "Suc n"] Cons.prems by simp
  moreover have "\<forall>x \<in> set b. \<forall>y \<in> set (concat bs). pr (nat x) \<le> pr (nat y)"
    using Cons.prems bucketed_queued [of pr "Suc n" bs] by fastforce
  ultimately show ?case by (auto simp: sorted_append)
qed simp

lemma bucketed_boundary:
  "bucketed pr n bs \<Longrightarrow> l < length bs \<Longrightarrow>
   length (filter (\<lambda>x. pr (nat x) \<le> int (n + l)) (concat bs)) = length (concat (take (Suc l) bs))"
proof (induction bs arbitrary: n l)
  case (Cons b bs)
  have b: "filter (\<lambda>x. pr (nat x) \<le> int (n + l)) b = b" using Cons.prems(1) by (auto intro!: filter_True)
  show ?case
  proof (cases l)
    case 0
    have "filter (\<lambda>x. pr (nat x) \<le> int n) (concat bs) = []"
      using Cons.prems(1) bucketed_queued [of pr "Suc n" bs] by (fastforce simp: filter_empty_conv)
    then show ?thesis using b 0 by simp
  next
    case (Suc l')
    then show ?thesis using b Cons.IH [of "Suc n" l'] Cons.prems by simp
  qed
qed simp

lemma queue_contents:
  assumes "queue_ok s"
  shows "set (m_pieces s) = {int i | i. i < num_pieces s \<and> prio_of s i \<noteq> - 1}" "distinct (m_pieces s)"
    "sorted (map (\<lambda>x. prio_of s (nat x)) (m_pieces s))"
    "\<And>k. k < length (m_pieces s) \<Longrightarrow> index (m_piece_map s ! nat (m_pieces s ! k)) = k"
    "\<And>l. l < length (m_priority_boundries s) \<Longrightarrow>
      m_priority_boundries s ! l = length (filter (\<lambda>x. prio_of s (nat x) \<le> int l) (m_pieces s))"
proof -
  obtain bs where bs: "bucket_rep (prio_of s) (m_piece_map s) (m_pieces s) (m_priority_boundries s) bs"
    using assms by (auto simp: queue_ok_def queue_rep_def)
  note r = bucket_repD [OF bs]
  have ids: "ids (m_piece_map s) (m_pieces s)" using r(5) by (rule placed_ids)
  show "set (m_pieces s) = {int i | i. i < num_pieces s \<and> prio_of s i \<noteq> - 1}"
  proof
    show "set (m_pieces s) \<subseteq> {int i | i. i < num_pieces s \<and> prio_of s i \<noteq> - 1}"
    proof
      fix x assume x: "x \<in> set (m_pieces s)"
      then have "0 \<le> x" "nat x < num_pieces s" using ids by (auto simp: ids_def)
      moreover have "0 \<le> prio_of s (nat x)" using bucketed_queued [OF r(6), of x] x unfolding r(2) by simp
      ultimately show "x \<in> {int i | i. i < num_pieces s \<and> prio_of s i \<noteq> - 1}" by (intro CollectI exI [of _ "nat x"]) simp
    qed
    show "{int i | i. i < num_pieces s \<and> prio_of s i \<noteq> - 1} \<subseteq> set (m_pieces s)" using r(7) by blast
  qed
  show "distinct (m_pieces s)" by (rule r(4))
  show "sorted (map (\<lambda>x. prio_of s (nat x)) (m_pieces s))" unfolding r(2) by (rule bucketed_sorted [OF r(6)])
  show "index (m_piece_map s ! nat (m_pieces s ! k)) = k" if "k < length (m_pieces s)" for k
    using placed_nth [OF r(5) that] by simp
  show "m_priority_boundries s ! l = length (filter (\<lambda>x. prio_of s (nat x) \<le> int l) (m_pieces s))"
    if "l < length (m_priority_boundries s)" for l
  proof -
    have l: "l < length bs" using that r(3) by simp
    show ?thesis using bucketed_boundary [OF r(6) l] l unfolding r(2) by (subst r(3)) (simp add: ends_nth)
  qed
qed

section \<open>Properties\<close>

text \<open>
  Concrete states are evaluated by rewriting; the weak congruences keep the rewriting out of the
  bodies of \<open>let\<close> and \<open>case\<close> until what they bind is a value.
\<close>

lemma cursor_down_numeral:
  "cursor_down m (numeral k) = (if passed (m ! pred_numeral k) then cursor_down m (pred_numeral k) else numeral k)"
  by (simp add: numeral_eq_Suc)

lemmas update_numeral =
  update_up.simps(2) [of "pred_numeral k" for k, folded numeral_eq_Suc]
  update_down.simps(2) [of "pred_numeral k" for k, folded numeral_eq_Suc]

lemmas picker_eval = eval_simps cursor_down_numeral cursor_up.simps update_numeral
  passed_def we_have_index_def pos_have_def pos_filtered_def resize_def piece_pos_init_def
  piece_picker_new_def priority_def set_index_def prio_factor_def priority_levels_def
  priority_range_def prio_of_def set_piece_def set_downloading_def lower_bound_dl_def
  blank_block_def set_dl_def set_block_def dl_block_def update_full_def blocks_in_piece_def
  shuffle_def update_def add_download_piece_def start_download_def find_dl_piece_def Let_def

lemmas weak_congs = let_weak_cong prod.case_cong_weak option.case_cong_weak

text \<open>A small run: three pieces of two blocks, a seed joins, the queue is built, a block is requested.\<close>

definition demo_shuffle :: "nat \<Rightarrow> int list \<Rightarrow> int list" where
  "demo_shuffle k xs = xs"

definition demo_queue :: piece_picker where
  "demo_queue = update_pieces demo_shuffle (inc_refcount_all (init 2 1 3 piece_picker_new))"

definition demo_block :: piece_block where
  "demo_block = \<lparr>piece_index = 1, block_index = 0\<rparr>"

definition demo_run :: piece_picker where
  "demo_run = snd (mark_as_downloading 0 demo_block 7 fast demo_queue)"

abbreviation demo_piece :: "bool \<Rightarrow> nat \<Rightarrow> piece_pos" where
  "demo_piece d i \<equiv> \<lparr>peer_count = 0, downloading = d, full = False, piece_priority = 1, index = i\<rparr>"

lemma demo_queue_eq: "demo_queue =
  \<lparr>m_seeds = 1, m_pieces = [0, 1, 2], m_priority_boundries = [0, 0, 0, 3],
   m_piece_map = [demo_piece False 0, demo_piece False 1, demo_piece False 2],
   m_downloads = [], m_block_info = [], m_blocks_per_piece = 2, m_blocks_in_last_piece = 1,
   m_num_filtered = 0, m_num_have_filtered = 0, m_num_have = 0, m_cursor = 0,
   m_reverse_cursor = 3, m_sparse_regions = 1, m_dirty = False\<rparr>"
  by (simp add: demo_queue_def inc_refcount_all_def init_def update_pieces_def demo_shuffle_def picker_eval
    cong: weak_congs)

lemma demo_run_eq: "demo_run =
  \<lparr>m_seeds = 1, m_pieces = [1, 0, 2], m_priority_boundries = [1, 1, 1, 3],
   m_piece_map = [demo_piece False 1, demo_piece True 0, demo_piece False 2],
   m_downloads = [\<lparr>dl_state = fast, dl_index = 1, info = 0, finished = 0, writing = 0, requested = 1\<rparr>],
   m_block_info = [\<lparr>peer = 7, num_peers = 1, block_state = state_requested\<rparr>,
     \<lparr>peer = 0, num_peers = 0, block_state = state_none\<rparr>],
   m_blocks_per_piece = 2, m_blocks_in_last_piece = 1,
   m_num_filtered = 0, m_num_have_filtered = 0, m_num_have = 0, m_cursor = 0,
   m_reverse_cursor = 3, m_sparse_regions = 1, m_dirty = False\<rparr>"
  by (simp add: demo_run_def demo_queue_eq demo_block_def mark_as_downloading_def picker_eval
    cong: weak_congs)

lemma demo_queue_reachable: "picker_reachable demo_queue"
proof -
  have "picker_reachable (init 2 1 3 piece_picker_new)"
    by (rule reach_init) (simp_all add: we_have_index_def)
  then have "picker_reachable (inc_refcount_all (init 2 1 3 piece_picker_new))"
    by (rule reach_step) (rule step_inc_all)
  then show ?thesis unfolding demo_queue_def
    by (rule reach_step) (rule step_update, simp_all add: demo_shuffle_def inc_refcount_all_def init_def Let_def)
qed

lemma demo_queue_guards:
  "piece_index demo_block < num_pieces demo_queue"
  "block_index demo_block < blocks_in_piece (piece_index demo_block) demo_queue"
  "\<not> pos_have (m_piece_map demo_queue ! piece_index demo_block)" "num_peers_of demo_block demo_queue + 1 < 2 ^ 14"
  by (simp_all add: demo_queue_eq demo_block_def num_peers_of_def picker_eval)

lemma demo_run_reachable: "picker_reachable demo_run"
  unfolding demo_run_def
  by (rule reach_step [OF demo_queue_reachable]) (rule step_downloading [OF demo_queue_guards(1-3) _ demo_queue_guards(4)], simp)

text \<open>
  C1. In every state the picker reaches from its constructor and \<open>init\<close> through its public
  operations (called as their assertions demand, for any random numbers and any shuffle), the
  invariant of \<open>check_invariant\<close> holds: the counts of pieces had and filtered, both cursors,
  the sorted list of downloads with its block slots, the block counters of every download, and,
  unless \<open>m_dirty\<close> is set, the queue.
\<close>

theorem picker_invariant:
  assumes "picker_reachable s"
  shows "picker_ok s"
  using assms by (rule reachable_ok)

theorem picker_invariant_witness: "picker_reachable demo_run \<and> picker_ok demo_run"
  using picker_invariant [OF demo_run_reachable] demo_run_reachable by simp

text \<open>
  C2. Unless it is dirty, the queue of a reachable picker holds exactly the pieces whose priority
  is not \<open>- 1\<close>, each once, in the order of their priorities; every piece knows its position; and
  every boundary is the number of pieces up to its level.
\<close>

theorem queue_is_priority_order:
  assumes "picker_reachable s" "\<not> m_dirty s"
  shows "set (m_pieces s) = {int i | i. i < num_pieces s \<and> prio_of s i \<noteq> - 1} \<and>
    distinct (m_pieces s) \<and> sorted (map (\<lambda>x. prio_of s (nat x)) (m_pieces s)) \<and>
    (\<forall>k < length (m_pieces s). index (m_piece_map s ! nat (m_pieces s ! k)) = k) \<and>
    (\<forall>l < length (m_priority_boundries s).
      m_priority_boundries s ! l = length (filter (\<lambda>x. prio_of s (nat x) \<le> int l) (m_pieces s)))"
proof -
  have q: "queue_ok s" using reachable_ok [OF assms(1)] assms(2) by (simp add: picker_ok_def)
  then show ?thesis using queue_contents [OF q] by (intro conjI) (assumption | blast)+
qed

theorem queue_is_priority_order_witness:
  "picker_reachable demo_run \<and> \<not> m_dirty demo_run \<and> distinct (m_pieces demo_run) \<and> m_pieces demo_run = [1, 0, 2]"
proof -
  have "\<not> m_dirty demo_run" "m_pieces demo_run = [1, 0, 2]" by (simp_all add: demo_run_eq)
  then show ?thesis using queue_is_priority_order [OF demo_run_reachable] demo_run_reachable by simp
qed

end
