(* ===== verification/Picker_Check.thy ===== *)
theory Picker_Check
  imports Picker_System
begin

text \<open>
  \<open>piece_picker::check_invariant\<close>, the assertions the debug build runs around the operations,
  as an executable predicate. \<open>t\<close> is the optional transfer, of which the check reads
  \<open>have_piece\<close>. The assertions on \<open>block_info::piece_index\<close>, a member the debug build adds, are
  left out. In the states the picker reaches every assertion holds but one: the one on \<open>full\<close>.
\<close>

section \<open>The check\<close>

definition verify_priority :: "nat \<Rightarrow> nat \<Rightarrow> nat \<Rightarrow> piece_picker \<Rightarrow> bool" where
  "verify_priority range_start range_end prio s \<longleftrightarrow>
     range_start \<le> range_end \<and> range_end \<le> length (m_pieces s)
     \<and> list_all (\<lambda>x. 0 \<le> x \<and> x < int (num_pieces s) \<and> prio_of s (nat x) = int prio)
         (take (range_end - range_start) (drop range_start (m_pieces s)))"

fun verify_boundaries :: "nat \<Rightarrow> nat \<Rightarrow> nat list \<Rightarrow> piece_picker \<Rightarrow> bool" where
  "verify_boundaries prio start [] s \<longleftrightarrow> True"
| "verify_boundaries prio start (b # bs) s \<longleftrightarrow> verify_priority start b prio s \<and> verify_boundaries (prio + 1) b bs s"

fun ascending :: "downloading_piece list \<Rightarrow> bool" where
  "ascending (d # e # ds) \<longleftrightarrow> dl_index d < dl_index e \<and> ascending (e # ds)"
| "ascending ds \<longleftrightarrow> True"

text \<open>The loop over the blocks of a download: (\<open>num_finished\<close>, \<open>num_requested\<close>, \<open>num_writing\<close>) and whether the assertions held.\<close>

fun check_blocks :: "block_info list \<Rightarrow> int \<times> int \<times> int \<Rightarrow> bool \<times> int \<times> int \<times> int" where
  "check_blocks [] (f, r, w) = (True, f, r, w)"
| "check_blocks (b # bs) (f, r, w) =
    (let (hold, f, r, w) =
           (case block_state b of
              state_finished \<Rightarrow> (num_peers b = 0, f + 1, r, w)
            | state_requested \<Rightarrow> (0 < num_peers b, f, r + 1, w)
            | state_writing \<Rightarrow> (num_peers b = 0, f, r, w + 1)
            | state_none \<Rightarrow> (True, f, r, w));
         (held, n) = check_blocks bs (f, r, w)
     in (hold \<and> held, n))"

definition check_download :: "piece_picker \<Rightarrow> downloading_piece \<Rightarrow> bool" where
  "check_download s d \<longleftrightarrow>
    (let num_blocks = blocks_in_piece (dl_index d) s;
         (held, num_finished, num_requested, num_writing) =
           check_blocks (map (\<lambda>k. m_block_info s ! (info d + k)) [0..<num_blocks]) (0, 0, 0)
     in held \<and> (0 < num_requested \<longleftrightarrow> dl_state d \<noteq> ps_none)
        \<and> num_requested = requested d \<and> num_writing = writing d \<and> num_finished = finished d
        \<and> (full (m_piece_map s ! dl_index d) \<longrightarrow> num_finished + num_writing + num_requested = int num_blocks))"

definition check_cursors :: "piece_picker \<Rightarrow> bool" where
  "check_cursors s \<longleftrightarrow>
     m_cursor s \<le> num_pieces s \<and> m_reverse_cursor s \<le> num_pieces s
     \<and> (m_cursor s < m_reverse_cursor s \<or> m_cursor s = num_pieces s \<and> m_reverse_cursor s = 0)"

definition check_queue :: "piece_picker \<Rightarrow> bool" where
  "check_queue s \<longleftrightarrow> m_priority_boundries s \<noteq> [] \<and> verify_boundaries 0 0 (m_priority_boundries s) s
     \<and> last (m_priority_boundries s) = length (m_pieces s)"

definition check_piece :: "(nat \<Rightarrow> bool) option \<Rightarrow> piece_picker \<Rightarrow> nat \<Rightarrow> bool" where
  "check_piece t s i \<longleftrightarrow>
    (let p = m_piece_map s ! i;
         prio = prio_of s i;
         count = length (filter (\<lambda>d. dl_index d = i) (m_downloads s))
     in (index p = we_have_index \<longrightarrow>
           (case t of None \<Rightarrow> True | Some have_piece \<Rightarrow> have_piece i) \<and> \<not> downloading p)
        \<and> (case t of None \<Rightarrow> True | Some have_piece \<Rightarrow> \<not> have_piece i)
        \<and> (prio = - 1 \<or> (downloading p \<longleftrightarrow> prio mod int prio_factor = 0))
        \<and> (\<not> m_dirty s \<longrightarrow>
             prio < int (length (m_priority_boundries s))
             \<and> (if 0 \<le> prio then index p < length (m_pieces s) \<and> m_pieces s ! index p = int i
                else prio = - 1 \<and> int i \<notin> set (m_pieces s)))
        \<and> (if downloading p then count = 1 else count = 0))"

definition check_invariant :: "(nat \<Rightarrow> bool) option \<Rightarrow> piece_picker \<Rightarrow> bool" where
  "check_invariant t s \<longleftrightarrow>
     0 \<le> m_num_have s \<and> 0 \<le> m_num_have_filtered s \<and> 0 \<le> m_num_filtered s
     \<and> ascending (m_downloads s) \<and> list_all (check_download s) (m_downloads s)
     \<and> check_cursors s
     \<and> (\<not> m_dirty s \<longrightarrow> check_queue s)
     \<and> m_cursor s = cursor_up (m_piece_map s) 0
     \<and> (let ind = cursor_down (m_piece_map s) (num_pieces s)
        in (0 < num_pieces s \<longrightarrow> ind = num_pieces s \<or> passed (m_piece_map s ! ind)) \<and> m_reverse_cursor s = ind)
     \<and> list_all (check_piece t s) [0..<num_pieces s]
     \<and> m_num_have s = int (length (filter (\<lambda>p. index p = we_have_index) (m_piece_map s)))
     \<and> m_num_filtered s = int (length (filter (\<lambda>p. pos_filtered p \<and> index p \<noteq> we_have_index) (m_piece_map s)))
     \<and> m_num_have_filtered s = int (length (filter (\<lambda>p. pos_filtered p \<and> index p = we_have_index) (m_piece_map s)))
     \<and> (\<not> m_dirty s \<longrightarrow> list_all (\<lambda>x. 0 \<le> prio_of s (nat x)) (m_pieces s))"

section \<open>The assertions hold\<close>

lemma check_blocks_eq:
  "check_blocks bs (f, r, w) =
    (list_all (\<lambda>b. block_state b = state_none \<or> peers_ok b) bs,
     f + count_state state_finished bs, r + count_state state_requested bs, w + count_state state_writing bs)"
  by (induction bs "(f, r, w)" arbitrary: f r w rule: check_blocks.induct)
    (auto simp: count_state_def peers_ok_def split: block_state.splits)

lemma ascending_sorted: "ascending ds \<longleftrightarrow> sorted_wrt (<) (map dl_index ds)"
  by (induction ds rule: ascending.induct) (auto intro: less_trans)

lemma verify_boundaries_ok:
  assumes "bucketed (prio_of s) n bs" "m_pieces s = pre @ concat bs" "ids (m_piece_map s) (m_pieces s)"
  shows "verify_boundaries n (length pre) (ends (length pre) bs) s"
  using assms
proof (induction bs arbitrary: n pre)
  case (Cons b bs)
  have "list_all (\<lambda>x. 0 \<le> x \<and> x < int (num_pieces s) \<and> prio_of s (nat x) = int n) b"
    unfolding list_all_iff
  proof
    fix x assume x: "x \<in> set b"
    then have "0 \<le> x" "nat x < num_pieces s" using Cons.prems(2,3) by (auto simp: ids_def)
    then show "0 \<le> x \<and> x < int (num_pieces s) \<and> prio_of s (nat x) = int n" using Cons.prems(1) x by auto
  qed
  then have "verify_priority (length pre) (length pre + length b) n s"
    by (simp add: verify_priority_def Cons.prems(2))
  moreover have "verify_boundaries (n + 1) (length (pre @ b)) (ends (length (pre @ b)) bs) s"
    using Cons.prems by (intro Cons.IH) simp_all
  ultimately show ?case by simp
qed simp

lemma check_queue_ok:
  assumes "queue_ok s"
  shows "check_queue s" "list_all (\<lambda>x. 0 \<le> prio_of s (nat x)) (m_pieces s)"
proof -
  obtain bs where bs: "bucket_rep (prio_of s) (m_piece_map s) (m_pieces s) (m_priority_boundries s) bs"
    using assms by (auto simp: queue_ok_def queue_rep_def)
  note r = bucket_repD [OF bs]
  have "verify_boundaries 0 0 (ends 0 bs) s"
    using verify_boundaries_ok [OF r(6), of "[]"] placed_ids [OF r(5)] r(2) by simp
  moreover have "ends 0 bs \<noteq> []" using r(1) by (cases bs) simp_all
  moreover have "last (ends 0 bs) = length (m_pieces s)" unfolding r(2) using last_ends [OF r(1), of 0] by simp
  ultimately show "check_queue s" unfolding check_queue_def r(3) by simp
  show "list_all (\<lambda>x. 0 \<le> prio_of s (nat x)) (m_pieces s)"
    using bucketed_queued [OF r(6)] r(2) by (auto simp: list_all_iff)
qed

lemma check_download_ok:
  assumes ok: "picker_ok s" and d: "d \<in> set (m_downloads s)"
  shows "check_download s d \<longleftrightarrow>
    (full (m_piece_map s ! dl_index d) \<longrightarrow> taken (the (dl_view s (dl_index d))) = int (blocks_in_piece (dl_index d) s))"
proof -
  let ?n = "blocks_in_piece (dl_index d) s" and ?v = "view_of (m_block_info s) (m_blocks_per_piece s) d"
  have base: "base_ok s" using ok by (simp add: picker_ok_def)
  note b = base_okD [OF base]
  have sl: "slots_ok (m_blocks_per_piece s) (m_block_info s) (m_downloads s)" using b(4) by (simp add: dl_ok_def)
  have v: "dl_view s (dl_index d) = Some ?v"
    using map_of_downloads [OF slots_okD(2) [OF sl]] d by (fastforce simp: dl_view_def in_set_conv_nth)
  have vo: "view_ok ?n ?v" using b(5) v by (simp add: views_ok_def)
  have len: "?n \<le> length (v_blocks ?v)" using view_length [OF b(4) v] blocks_in_piece_le [OF base] by simp
  have blocks: "map (\<lambda>k. m_block_info s ! (info d + k)) [0..<?n] = take ?n (v_blocks ?v)"
    using len by (auto simp: list_eq_iff_nth_eq view_of_def)
  have "list_all (\<lambda>b. block_state b = state_none \<or> peers_ok b) (take ?n (v_blocks ?v))"
    using vo len by (auto simp: list_all_length view_ok_def)
  then show ?thesis
    unfolding check_download_def blocks check_blocks_eq v Let_def
    using vo count_nonneg [of state_requested "take ?n (v_blocks ?v)"]
    by (auto simp: view_ok_def taken_def) (auto simp: view_of_def)
qed

lemma bucketed_bound: "bucketed pr n bs \<Longrightarrow> x \<in> set (concat bs) \<Longrightarrow> pr (nat x) < int (n + length bs)"
  by (induction bs arbitrary: n) fastforce+

lemma cursor_at_unique: "cursor_at m c \<Longrightarrow> cursor_at m c' \<Longrightarrow> c = c'"
  by (auto simp: cursor_at_def intro: linorder_cases [of c c'])

lemma rcursor_at_unique:
  assumes "rcursor_at m c" "rcursor_at m c'"
  shows "c = c'"
proof -
  have "\<not> r < r'" if "rcursor_at m r" "rcursor_at m r'" for r r'
  proof
    assume "r < r'"
    moreover have "r' - 1 < length m" "r \<le> r' - 1" using that \<open>r < r'\<close> by (auto simp: rcursor_at_def)
    ultimately show False using that by (auto simp: rcursor_at_def)
  qed
  then show ?thesis using assms by (meson linorder_neqE_nat)
qed

lemma filter_index_count:
  assumes "distinct (map dl_index ds)"
  shows "length (filter (\<lambda>d. dl_index d = i) ds) = (if i \<in> dl_index ` set ds then 1 else 0)"
  using assms by (induction ds) (auto simp: filter_empty_conv)

lemma check_piece_ok:
  assumes ok: "picker_ok s" and i: "i < num_pieces s"
  shows "check_piece None s i"
proof -
  have base: "base_ok s" using ok by (simp add: picker_ok_def)
  note b = base_okD [OF base]
  have d: "distinct (map dl_index (m_downloads s))" "i \<in> dl_index ` set (m_downloads s) \<longleftrightarrow> downloading (m_piece_map s ! i)"
    using b(4) i sorted_distinct_index by (auto simp: dl_ok_def slots_ok_def)
  have level: "prio_of s i = - 1 \<or> (downloading (m_piece_map s ! i) \<longleftrightarrow> prio_of s i mod int prio_factor = 0)"
    using priority_downloading_level [OF b(9) [OF i]] by (auto simp: prio_of_def)
  have q: "prio_of s i < int (length (m_priority_boundries s)) \<and>
    (if 0 \<le> prio_of s i then index (m_piece_map s ! i) < length (m_pieces s) \<and> m_pieces s ! index (m_piece_map s ! i) = int i
     else prio_of s i = - 1 \<and> int i \<notin> set (m_pieces s))" if "\<not> m_dirty s"
  proof -
    have "queue_ok s" using ok that by (simp add: picker_ok_def)
    then obtain bs where bs: "bucket_rep (prio_of s) (m_piece_map s) (m_pieces s) (m_priority_boundries s) bs"
      by (auto simp: queue_ok_def queue_rep_def)
    note r = bucket_repD [OF bs]
    have ge: "- 1 \<le> prio_of s i" using prio_of_ge [OF b(1) i] .
    show ?thesis
    proof (cases "prio_of s i = - 1")
      case True
      then have "int i \<notin> set (m_pieces s)" using bucketed_queued [OF r(6), of "int i"] r(2) by auto
      then show ?thesis using True by simp
    next
      case False
      then obtain k where k: "k < length (m_pieces s)" "m_pieces s ! k = int i"
        using r(7) [OF i] by (auto simp: in_set_conv_nth)
      have "index (m_piece_map s ! i) = k" using placed_nth [OF r(5) k(1)] k(2) by simp
      moreover have "prio_of s i < int (length bs)" using bucketed_bound [OF r(6), of "int i"] r(2) r(7) [OF i False] by simp
      ultimately show ?thesis using False ge k r(3) by simp
    qed
  qed
  show ?thesis
    unfolding check_piece_def Let_def filter_index_count [OF d(1)] d(2)
    using b(6) [OF i] level q by (simp add: pos_have_def)
qed

lemma check_cursors_ok:
  assumes "cursors_ok s"
  shows "check_cursors s"
proof -
  have c: "cursor_at (m_piece_map s) (m_cursor s)" "rcursor_at (m_piece_map s) (m_reverse_cursor s)"
    using assms by (simp_all add: cursors_ok_def)
  show ?thesis
  proof (cases "m_cursor s < num_pieces s")
    case True
    then have "m_cursor s < m_reverse_cursor s" using cursor_order(2) [OF c True] c(1) by (simp add: cursor_at_def)
    then show ?thesis using c by (simp add: check_cursors_def cursor_at_def rcursor_at_def)
  next
    case False
    then have all: "m_cursor s = num_pieces s" "\<forall>i < num_pieces s. passed (m_piece_map s ! i)"
      using c(1) by (auto simp: cursor_at_def)
    have "m_reverse_cursor s - 1 < num_pieces s" if "0 < m_reverse_cursor s"
      using c(2) that unfolding rcursor_at_def by linarith
    then have "m_reverse_cursor s = 0" using c(2) all(2) unfolding rcursor_at_def by blast
    then show ?thesis using all(1) by (simp add: check_cursors_def)
  qed
qed

lemma check_invariant_iff:
  assumes ok: "picker_ok s"
  shows "check_invariant None s \<longleftrightarrow> full_ok s"
proof -
  have base: "base_ok s" using ok by (simp add: picker_ok_def)
  note b = base_okD [OF base]
  have dl: "list_all (check_download s) (m_downloads s) \<longleftrightarrow> full_ok s"
    using check_download_ok [OF ok] by (auto simp: list_all_iff full_ok_def)
  have asc: "ascending (m_downloads s)" using b(4) by (simp add: ascending_sorted dl_ok_def slots_ok_def)
  have c: "cursor_at (m_piece_map s) (m_cursor s)" "rcursor_at (m_piece_map s) (m_reverse_cursor s)"
    using b(3) by (simp_all add: cursors_ok_def)
  have cu: "m_cursor s = cursor_up (m_piece_map s) 0" "m_reverse_cursor s = cursor_down (m_piece_map s) (num_pieces s)"
    using cursor_at_unique [OF c(1) cursor_up_at] rcursor_at_unique [OF c(2) cursor_down_at] by simp_all
  have cc: "check_cursors s" "m_reverse_cursor s < num_pieces s \<longrightarrow> passed (m_piece_map s ! m_reverse_cursor s)"
    using check_cursors_ok [OF b(3)] c(2) by (simp_all add: rcursor_at_def)
  have "m_reverse_cursor s \<le> num_pieces s" using c(2) by (simp add: rcursor_at_def)
  moreover have "list_all (check_piece None s) [0..<num_pieces s]"
    using check_piece_ok [OF ok] by (simp add: list_all_iff)
  moreover have "\<not> m_dirty s \<longrightarrow> check_queue s \<and> list_all (\<lambda>x. 0 \<le> prio_of s (nat x)) (m_pieces s)"
    using ok check_queue_ok by (auto simp: picker_ok_def)
  ultimately show ?thesis
    unfolding check_invariant_def Let_def dl cu(2) [symmetric] pos_have_def [symmetric]
    using b(2) asc cc cu(1) by (auto simp: counts_ok_def)
qed

section \<open>A run that leaves a stale mark\<close>

text \<open>
  One piece of two blocks is requested, received and stored, found to be corrupt
  (\<open>restore_piece\<close>), and one of its blocks is then reported as stored again.
\<close>

abbreviation stale_block :: "nat \<Rightarrow> piece_block" where
  "stale_block j \<equiv> \<lparr>piece_index = 0, block_index = j\<rparr>"

definition stale_state :: "bool \<Rightarrow> bool \<Rightarrow> downloading_piece list \<Rightarrow> block_info list \<Rightarrow> piece_picker" where
  "stale_state d f ds bs =
    \<lparr>m_seeds = 0, m_pieces = [], m_priority_boundries = [0],
     m_piece_map = [\<lparr>peer_count = 0, downloading = d, full = f, piece_priority = 1, index = 0\<rparr>],
     m_downloads = ds, m_block_info = bs, m_blocks_per_piece = 2, m_blocks_in_last_piece = 2,
     m_num_filtered = 0, m_num_have_filtered = 0, m_num_have = 0, m_cursor = 0,
     m_reverse_cursor = 1, m_sparse_regions = 1, m_dirty = True\<rparr>"

abbreviation stale_dl :: "piece_state_t \<Rightarrow> int \<Rightarrow> int \<Rightarrow> int \<Rightarrow> downloading_piece" where
  "stale_dl st f w r \<equiv> \<lparr>dl_state = st, dl_index = 0, info = 0, finished = f, writing = w, requested = r\<rparr>"

abbreviation stale_info :: "nat \<Rightarrow> nat \<Rightarrow> block_state \<Rightarrow> block_info" where
  "stale_info p n st \<equiv> \<lparr>peer = p, num_peers = n, block_state = st\<rparr>"

lemma stale_steps:
  "init 2 2 1 piece_picker_new = stale_state False False [] []"
  "mark_as_downloading 0 (stale_block 0) 7 fast (stale_state False False [] []) =
    (True, stale_state True False [stale_dl fast 0 0 1] [stale_info 7 1 state_requested, blank_block])"
  "mark_as_downloading 0 (stale_block 1) 7 fast
    (stale_state True False [stale_dl fast 0 0 1] [stale_info 7 1 state_requested, blank_block]) =
    (True, stale_state True True [stale_dl fast 0 0 2] [stale_info 7 1 state_requested, stale_info 7 1 state_requested])"
  "mark_as_writing 0 (stale_block 0) 7
    (stale_state True True [stale_dl fast 0 0 2] [stale_info 7 1 state_requested, stale_info 7 1 state_requested]) =
    (True, stale_state True True [stale_dl fast 0 1 1] [stale_info 7 0 state_writing, stale_info 7 1 state_requested])"
  "mark_as_writing 0 (stale_block 1) 7
    (stale_state True True [stale_dl fast 0 1 1] [stale_info 7 0 state_writing, stale_info 7 1 state_requested]) =
    (True, stale_state True True [stale_dl ps_none 0 2 0] [stale_info 7 0 state_writing, stale_info 7 0 state_writing])"
  "mark_as_finished 0 (stale_block 0) 7
    (stale_state True True [stale_dl ps_none 0 2 0] [stale_info 7 0 state_writing, stale_info 7 0 state_writing]) =
    stale_state True True [stale_dl ps_none 1 1 0] [stale_info 7 0 state_finished, stale_info 7 0 state_writing]"
  "mark_as_finished 0 (stale_block 1) 7
    (stale_state True True [stale_dl ps_none 1 1 0] [stale_info 7 0 state_finished, stale_info 7 0 state_writing]) =
    stale_state True True [stale_dl ps_none 2 0 0] [stale_info 7 0 state_finished, stale_info 7 0 state_finished]"
  "restore_piece 0 0
    (stale_state True True [stale_dl ps_none 2 0 0] [stale_info 7 0 state_finished, stale_info 7 0 state_finished]) =
    stale_state False True [] [stale_info 7 0 state_finished, stale_info 7 0 state_finished]"
  "mark_as_finished 0 (stale_block 0) 0
    (stale_state False True [] [stale_info 7 0 state_finished, stale_info 7 0 state_finished]) =
    stale_state True True [stale_dl ps_none 1 0 0] [stale_info 0 0 state_finished, blank_block]"
  by (simp_all add: stale_state_def mark_as_downloading_def mark_as_writing_def mark_as_finished_def restore_piece_def
    erase_download_piece_def find_if_def init_def picker_eval cong: weak_congs)

lemmas stale_guard = stale_state_def is_requested_def num_peers_of_def picker_eval

lemma stale_downloading:
  assumes "picker_reachable s" "mark_as_downloading 0 (stale_block j) 7 fast s = (True, s')" "j < 2"
    "s = stale_state d f ds bs" "num_peers_of (stale_block j) s + 1 < 2 ^ 14"
  shows "picker_reachable s'"
  using reach_step [OF assms(1) step_downloading [of "stale_block j" s fast 0 7]] assms(2-5) by (simp add: stale_guard)

lemma stale_writing:
  assumes "picker_reachable s" "mark_as_writing 0 (stale_block j) 7 s = (True, s')" "j < 2" "s = stale_state d f ds bs"
  shows "picker_reachable s'"
  using reach_step [OF assms(1) step_writing [of "stale_block j" s 0 7]] assms(2-4) by (simp add: stale_guard)

lemma stale_finished:
  assumes "picker_reachable s" "mark_as_finished 0 (stale_block j) pe s = s'" "j < 2" "s = stale_state d f ds bs"
    "\<not> is_requested (stale_block j) s"
  shows "picker_reachable s'"
  using reach_step [OF assms(1) step_finished [of "stale_block j" s 0 pe]] assms(2-5) by (simp add: stale_guard)

lemma stale_reachable:
  "picker_reachable (stale_state True True [stale_dl ps_none 1 0 0] [stale_info 0 0 state_finished, blank_block])"
proof -
  have "picker_reachable (init 2 2 1 piece_picker_new)" by (rule reach_init) (simp_all add: we_have_index_def)
  then have "picker_reachable (stale_state False False [] [])" unfolding stale_steps(1) .
  from stale_downloading [OF this stale_steps(2) _ refl]
  have "picker_reachable (stale_state True False [stale_dl fast 0 0 1] [stale_info 7 1 state_requested, blank_block])"
    by (simp add: stale_guard)
  from stale_downloading [OF this stale_steps(3) _ refl]
  have "picker_reachable (stale_state True True [stale_dl fast 0 0 2] [stale_info 7 1 state_requested, stale_info 7 1 state_requested])"
    by (simp add: stale_guard)
  from stale_writing [OF stale_writing [OF this stale_steps(4) _ refl] stale_steps(5) _ refl]
  have "picker_reachable (stale_state True True [stale_dl ps_none 0 2 0] [stale_info 7 0 state_writing, stale_info 7 0 state_writing])"
    by simp
  from stale_finished [OF this stale_steps(6) _ refl]
  have "picker_reachable (stale_state True True [stale_dl ps_none 1 1 0] [stale_info 7 0 state_finished, stale_info 7 0 state_writing])"
    by (simp add: stale_guard)
  from stale_finished [OF this stale_steps(7) _ refl]
  have "picker_reachable (stale_state True True [stale_dl ps_none 2 0 0] [stale_info 7 0 state_finished, stale_info 7 0 state_finished])"
    by (simp add: stale_guard)
  from reach_step [OF this step_restore [of 0 _ 0], unfolded stale_steps(8)]
  have "picker_reachable (stale_state False True [] [stale_info 7 0 state_finished, stale_info 7 0 state_finished])"
    by (simp add: stale_state_def)
  from stale_finished [OF this stale_steps(9) _ refl] show ?thesis by (simp add: stale_guard)
qed

section \<open>Properties\<close>

text \<open>
  C6. In every reachable state all assertions of \<open>check_invariant\<close> hold, except possibly the one
  that a piece marked \<open>full\<close> has no block left: the check passes exactly when that one does.
\<close>

theorem check_invariant_reachable:
  assumes "picker_reachable s"
  shows "check_invariant None s \<longleftrightarrow> full_ok s"
  using reachable_ok [OF assms] by (rule check_invariant_iff)

theorem check_invariant_reachable_witness: "check_invariant None demo_run"
proof -
  have "full_ok demo_run" by (simp add: full_ok_def demo_run_eq)
  then show ?thesis using check_invariant_reachable [OF demo_run_reachable] by simp
qed

lemma stale_full_mark:
  "\<exists>s. picker_reachable s \<and> full (m_piece_map s ! 0) \<and> status s 0 1 = state_none \<and> 1 < blocks_in_piece 0 s
     \<and> \<not> check_invariant None s"
proof -
  let ?s = "stale_state True True [stale_dl ps_none 1 0 0] [stale_info 0 0 state_finished, blank_block]"
  have "\<not> full_ok ?s"
    by (simp add: full_ok_def taken_def stale_state_def dl_view_def view_of_def blocks_in_piece_def)
  then have "\<not> check_invariant None ?s" using check_invariant_iff [OF reachable_ok [OF stale_reachable]] by simp
  moreover have "full (m_piece_map ?s ! 0)" "status ?s 0 1 = state_none" "1 < blocks_in_piece 0 ?s"
    by (simp_all add: stale_state_def status_def dl_view_def view_of_def blocks_in_piece_def)
  ultimately show ?thesis using stale_reachable by blast
qed

lemma check_invariant_contradiction:
  assumes "i < num_pieces s" "pos_have (m_piece_map s ! i)"
  shows "\<not> check_invariant (Some have_piece) s"
proof -
  have "\<not> check_piece (Some have_piece) s i"
    using assms(2) by (auto simp: check_piece_def pos_have_def Let_def)
  then show ?thesis using assms(1) by (auto simp: check_invariant_def list_all_iff)
qed

text \<open>
  C7. Two assertions of \<open>check_invariant\<close> fail. The one on \<open>full\<close>: erasing a download (after a failed
  hash check) leaves the mark of its piece, and \<open>mark_as_finished\<close> on the first block of a new download
  does not renew it, so that in a reachable state a piece counts as full although a block is still
  free. And with a transfer the check demands of a piece the picker has that the transfer has it
  and that it does not: it fails in every state with such a piece.
\<close>

theorem check_invariant_flaws:
  assumes "i < num_pieces s" "pos_have (m_piece_map s ! i)"
  shows "(\<exists>s. picker_reachable s \<and> full (m_piece_map s ! 0) \<and> status s 0 1 = state_none \<and> 1 < blocks_in_piece 0 s
      \<and> \<not> check_invariant None s)
    \<and> \<not> check_invariant (Some have_piece) s"
  using stale_full_mark check_invariant_contradiction [OF assms] by blast

theorem check_invariant_flaws_witness:
  "\<not> check_invariant (Some (\<lambda>i. i = 0)) (we_have 0 (init 2 2 1 piece_picker_new))"
  by (rule check_invariant_flaws [of 0, THEN conjunct2])
    (simp_all add: we_have_def we_have_regions_def leave_cursors_def init_def set_have_def picker_eval cong: weak_congs)

end
