(* ===== verification/Picker_Props.thy ===== *)
theory Picker_Props
  imports Picker_Check
begin

text \<open>
  Properties of the picker's operations: which blocks are picked for a peer and how many, how
  the state of every block changes, what the priorities and the counts of missing regions are
  after an operation, and the store of downloads as a map.
\<close>

section \<open>Picking\<close>

lemmas pick_eval = option_set_def rarest_first_def reverse_pick_def on_parole_def prioritize_partials_def
  sequential_def speed_affinity_def ignore_whole_pieces_def is_piece_free_def can_pick_def expand_piece_def
  expand_up.simps append_blocks_def blocks_of_def dl_infos_def add_blocks_downloading_def add_blocks_def
  unless_done_def append_backup_def append_backup2_def round_boundaries_def level_range_def reverse_order_def
  skip_pieces.simps pick_backups_def pick_start_def queue_ready_def pick_order_def pick_options_def
  whole_pieces_def pick_pieces_def

definition demo_picked :: "piece_block list \<times> piece_picker" where
  "demo_picked = pick_pieces demo_shuffle 0 0 [True, True, False] [] 3 0 9 slow 1 [] 5 demo_run"

lemma demo_picked_eq:
  "demo_picked = ([\<lparr>piece_index = 1, block_index = 1\<rparr>, \<lparr>piece_index = 0, block_index = 0\<rparr>,
     \<lparr>piece_index = 0, block_index = 1\<rparr>], demo_run)"
  by (simp add: demo_picked_def demo_run_eq pick_eval picker_eval cong: weak_congs)

lemma demo_shuffle_mset: "mset (demo_shuffle k xs) = mset xs"
  by (simp add: demo_shuffle_def)

text \<open>
  C3. Every block \<open>pick_pieces\<close> returns belongs to a piece the peer has and we do not, lies
  within the piece, and is free; only the last one may instead be a block that is already
  requested, and then from another peer and of a piece that is not filtered. The result passes
  \<open>verify_pick\<close>.
\<close>

theorem pick_pieces_safe:
  assumes "\<And>k xs. mset (shuf k xs) = mset xs" "picker_reachable s" "length bits = num_pieces s"
    "\<forall>i \<in> set suggested. i < num_pieces s"
    and "pick_pieces shuf rnd1 rnd2 bits [] n whole pe speed opts suggested npeers s = (picked, s')"
  shows "(\<forall>k < length picked. pickable bits s (picked ! k) \<or> k = length picked - 1 \<and> busy bits pe s (picked ! k))
    \<and> verify_pick picked bits s"
proof -
  obtain xs where xs: "\<forall>b \<in> set xs. pickable bits s b"
    "picked = xs \<or> (\<exists>b. busy bits pe s b \<and> picked = xs @ [b])"
    using pick_pieces_all(1) [OF assms(1) reachable_ok [OF assms(2)] assms(4,5)] by auto
  have "\<forall>k < length picked. pickable bits s (picked ! k) \<or> k = length picked - 1 \<and> busy bits pe s (picked ! k)"
    using xs by (auto simp: nth_append less_Suc_eq)
  moreover have "verify_pick picked bits s"
    using xs assms(3) by (auto simp: verify_pick_def list_all_iff pickable_def busy_def)
  ultimately show ?thesis by blast
qed

theorem pick_pieces_safe_witness:
  "verify_pick (fst demo_picked) [True, True, False] demo_run \<and> length (fst demo_picked) = 3"
proof -
  have d: "pick_pieces demo_shuffle 0 0 [True, True, False] [] 3 0 9 slow 1 [] 5 demo_run = (fst demo_picked, snd demo_picked)"
    by (simp add: demo_picked_def)
  show ?thesis
    using pick_pieces_safe [OF demo_shuffle_mset demo_run_reachable _ _ d] by (simp add: demo_run_eq) (simp add: demo_picked_eq)
qed

text \<open>
  C4. Unless whole pieces are preferred, \<open>pick_pieces\<close> adds at most as many blocks as it was
  asked for, in every mode and with the backups and the doubly requested block included.
\<close>

theorem pick_pieces_at_most:
  assumes "0 < n" "whole = 0"
    "pick_pieces shuf rnd1 rnd2 bits interesting n whole pe speed opts suggested npeers s = (picked, s')"
  shows "int (length picked) \<le> int (length interesting) + n"
  using pick_pieces_bound [OF assms(1) _ assms(3)] assms(2) by (simp add: whole_pieces_def)

theorem pick_pieces_at_most_witness: "int (length (fst demo_picked)) \<le> 3"
  using pick_pieces_at_most [of 3 0 demo_shuffle 0 0 "[True, True, False]" "[]" 9 slow 1 "[]" 5 demo_run
      "fst demo_picked" "snd demo_picked"] by (simp add: demo_picked_def)

text \<open>
  C5. The loop of the random mode ends: every round picks at least one block, so as many rounds as
  there are blocks wanted are enough, and more do not change the result.
\<close>

theorem pick_random_terminates:
  assumes "picker_reachable s" "nat (num_blocks p) \<le> fuel"
  shows "pick_random fuel bits whole suggested s start_piece piece p =
    pick_random (nat (num_blocks p)) bits whole suggested s start_piece piece p"
proof -
  have "base_ok s" using reachable_ok [OF assms(1)] by (simp add: picker_ok_def)
  from pick_random_fuel [OF this order_refl, where p = p and k = "fuel - nat (num_blocks p)"] show ?thesis using assms(2) by simp
qed

definition demo_pick :: pick where
  "demo_pick = \<lparr>interesting_blocks = [], backup_blocks = [], backup_blocks2 = [], num_blocks = 3\<rparr>"

theorem pick_random_terminates_witness:
  "pick_random 7 [True, True, True] 0 [] demo_run 2 2 demo_pick = pick_random 3 [True, True, True] 0 [] demo_run 2 2 demo_pick"
  using pick_random_terminates [OF demo_run_reachable, of demo_pick 7] by (simp add: demo_pick_def)

lemma filtered_run:
  "snd (set_piece_priority 0 0 0 (stale_state True False [stale_dl fast 0 0 1] [stale_info 7 1 state_requested, blank_block])) =
   (stale_state True False [stale_dl fast 0 0 1] [stale_info 7 1 state_requested, blank_block])
     \<lparr>m_piece_map := [\<lparr>peer_count = 0, downloading = True, full = False, piece_priority = 0, index = 0\<rparr>],
      m_num_filtered := 1, m_cursor := 1, m_reverse_cursor := 0\<rparr>"
  by (simp add: stale_state_def set_piece_priority_def leave_cursors_def picker_eval cong: weak_congs)

lemma filtered_reachable:
  "picker_reachable ((stale_state True False [stale_dl fast 0 0 1] [stale_info 7 1 state_requested, blank_block])
     \<lparr>m_piece_map := [\<lparr>peer_count = 0, downloading = True, full = False, piece_priority = 0, index = 0\<rparr>],
      m_num_filtered := 1, m_cursor := 1, m_reverse_cursor := 0\<rparr>)"
proof -
  have "picker_reachable (init 2 2 1 piece_picker_new)" by (rule reach_init) (simp_all add: we_have_index_def)
  then have "picker_reachable (stale_state False False [] [])" unfolding stale_steps(1) .
  from stale_downloading [OF this stale_steps(2) _ refl]
  have "picker_reachable (stale_state True False [stale_dl fast 0 0 1] [stale_info 7 1 state_requested, blank_block])"
    by (simp add: stale_guard)
  from reach_step [OF this step_priority [of 0 _ 0 0]] show ?thesis
    unfolding filtered_run by (simp add: stale_state_def)
qed

text \<open>
  C8. The pass over the partial pieces does not look at the priorities: a block of a piece that was
  filtered while it was being downloaded is picked.
\<close>

theorem pick_pieces_filtered:
  "\<exists>s b. picker_reachable s \<and> pos_filtered (m_piece_map s ! piece_index b) \<and>
     b \<in> set (fst (pick_pieces demo_shuffle 0 0 [True] [] 1 0 9 fast prioritize_partials [] 5 s))"
proof -
  let ?s = "(stale_state True False [stale_dl fast 0 0 1] [stale_info 7 1 state_requested, blank_block])
     \<lparr>m_piece_map := [\<lparr>peer_count = 0, downloading = True, full = False, piece_priority = 0, index = 0\<rparr>],
      m_num_filtered := 1, m_cursor := 1, m_reverse_cursor := 0\<rparr>"
  have "fst (pick_pieces demo_shuffle 0 0 [True] [] 1 0 9 fast prioritize_partials [] 5 ?s) = [stale_block 1]"
    by (simp add: stale_state_def pick_eval picker_eval cong: weak_congs)
  moreover have "pos_filtered (m_piece_map ?s ! piece_index (stale_block 1))" by (simp add: pos_filtered_def)
  ultimately show ?thesis using filtered_reachable by (intro exI [of _ ?s] exI [of _ "stale_block 1"]) simp
qed

end
