(* ===== verification/Bandwidth.thy ===== *)
theory Bandwidth
  imports Ed2k_Prelude
begin

text \<open>
  The rate limiter: \<open>bandwidth_channel\<close>, \<open>bw_request\<close> and \<open>bandwidth_manager\<close>. Requests point to
  channels that several of them share, so the channels live in a store from addresses to
  channels. Whether a peer is disconnecting is a parameter; the calls of
  \<open>peer_connection::assign_bandwidth\<close> are the list of answers a round produces, in their order.
\<close>

section \<open>The channels\<close>

record bandwidth_channel =
  tmp :: int
  distribute_quota :: int
  m_quota_left :: int
  m_limit :: int

definition bandwidth_channel_new :: bandwidth_channel where
  "bandwidth_channel_new = \<lparr>tmp = 0, distribute_quota = 0, m_quota_left = 0, m_limit = 0\<rparr>"

definition int_max :: int where
  "int_max = 2 ^ 31 - 1"

definition throttle :: "int \<Rightarrow> bandwidth_channel \<Rightarrow> bandwidth_channel" where
  "throttle limit c = c\<lparr>m_limit := limit\<rparr>"

definition quota_left :: "bandwidth_channel \<Rightarrow> int" where
  "quota_left c = (if m_limit c = 0 then int_max else max (m_quota_left c) 0)"

definition update_quota :: "int \<Rightarrow> bandwidth_channel \<Rightarrow> bandwidth_channel" where
  "update_quota dt_milliseconds c =
    (if m_limit c = 0 then c
     else
       let left = m_quota_left c + int_div (m_limit c * dt_milliseconds + 500) 1000;
           left = (if m_limit c * 3 < left then m_limit c * 3 else left)
       in c\<lparr>m_quota_left := left, distribute_quota := max left 0\<rparr>)"

definition return_quota :: "int \<Rightarrow> bandwidth_channel \<Rightarrow> bandwidth_channel" where
  "return_quota amount c = (if m_limit c = 0 then c else c\<lparr>m_quota_left := m_quota_left c + amount\<rparr>)"

definition use_quota :: "int \<Rightarrow> bandwidth_channel \<Rightarrow> bandwidth_channel" where
  "use_quota amount c = (if m_limit c = 0 then c else c\<lparr>m_quota_left := m_quota_left c - amount\<rparr>)"

type_synonym channels = "nat \<Rightarrow> bandwidth_channel"

definition at :: "nat \<Rightarrow> (bandwidth_channel \<Rightarrow> bandwidth_channel) \<Rightarrow> channels \<Rightarrow> channels" where
  "at a f h = h(a := f (h a))"

definition each :: "(bandwidth_channel \<Rightarrow> bandwidth_channel) \<Rightarrow> nat list \<Rightarrow> channels \<Rightarrow> channels" where
  "each f as h = foldl (\<lambda>h a. at a f h) h as"

section \<open>The requests\<close>

text \<open>The pointers of \<open>channel[5]\<close> up to the first null one.\<close>

record bw_request =
  bw_peer :: nat
  bw_priority :: int
  assigned :: int
  request_size :: int
  ttl :: int
  channel :: "nat list"

definition bw_request_new :: "nat \<Rightarrow> int \<Rightarrow> int \<Rightarrow> bw_request" where
  "bw_request_new pe blk prio =
    \<lparr>bw_peer = pe, bw_priority = prio, assigned = 0, request_size = blk, ttl = 20, channel = []\<rparr>"

definition limit_quota :: "channels \<Rightarrow> int \<Rightarrow> int \<Rightarrow> nat \<Rightarrow> int" where
  "limit_quota h prio quota a =
    (if m_limit (h a) = 0 then quota
     else if tmp (h a) = 0 then quota
     else min (int_div (distribute_quota (h a) * prio) (tmp (h a))) quota)"

definition assign_bandwidth :: "bw_request \<Rightarrow> channels \<Rightarrow> int \<times> bw_request \<times> channels" where
  "assign_bandwidth r h =
    (let quota = request_size r - assigned r;
         r = r\<lparr>ttl := ttl r - 1\<rparr>
     in if quota = 0 then (quota, r, h)
        else
          let quota = foldl (limit_quota h (bw_priority r)) quota (channel r)
          in (quota, r\<lparr>assigned := assigned r + quota\<rparr>, each (use_quota quota) (channel r) h))"

section \<open>The manager\<close>

record bandwidth_manager =
  m_queue :: "bw_request list"
  m_queued_bytes :: int
  m_channel :: int
  m_abort :: bool

definition bandwidth_manager_new :: "int \<Rightarrow> bandwidth_manager" where
  "bandwidth_manager_new ch = \<lparr>m_queue = [], m_queued_bytes = 0, m_channel = ch, m_abort = False\<rparr>"

definition bandwidth_close :: "bandwidth_manager \<Rightarrow> bandwidth_manager" where
  "bandwidth_close m = m\<lparr>m_abort := True, m_queue := [], m_queued_bytes := 0\<rparr>"

definition is_queued :: "nat \<Rightarrow> bandwidth_manager \<Rightarrow> bool" where
  "is_queued pe m \<longleftrightarrow> list_ex (\<lambda>r. bw_peer r = pe) (m_queue m)"

definition queue_size :: "bandwidth_manager \<Rightarrow> nat" where
  "queue_size m = length (m_queue m)"

text \<open>\<open>chans\<close> are \<open>chan1\<close> to \<open>chan5\<close>; only the non-null ones with a limit are kept.\<close>

definition request_bandwidth ::
  "nat \<Rightarrow> int \<Rightarrow> int \<Rightarrow> nat option list \<Rightarrow> channels \<Rightarrow> bandwidth_manager \<Rightarrow> int \<times> bandwidth_manager" where
  "request_bandwidth pe blk prio chans h m =
    (if m_abort m then (0, m)
     else
       let cs = filter (\<lambda>a. 0 < m_limit (h a)) (map the (filter (\<lambda>c. c \<noteq> None) chans));
           bwr = (bw_request_new pe blk prio)\<lparr>channel := cs\<rparr>
       in if cs = [] then (blk, m)
          else (0, m\<lparr>m_queued_bytes := m_queued_bytes m + blk, m_queue := m_queue m @ [bwr]\<rparr>))"

definition manager_check_invariant :: "bandwidth_manager \<Rightarrow> bool" where
  "manager_check_invariant m \<longleftrightarrow>
     foldl (\<lambda>queued r. queued + (request_size r - assigned r)) 0 (m_queue m) = m_queued_bytes m"

text \<open>The loops of \<open>update_quotas\<close>: disconnecting peers are dropped and return their quota.\<close>

fun drop_disconnecting ::
  "(nat \<Rightarrow> bool) \<Rightarrow> bw_request list \<Rightarrow> int \<Rightarrow> channels \<Rightarrow> bw_request list \<times> int \<times> channels" where
  "drop_disconnecting disc [] bytes h = ([], bytes, h)"
| "drop_disconnecting disc (r # rs) bytes h =
    (if disc (bw_peer r) then
       drop_disconnecting disc rs (bytes - (request_size r - assigned r)) (each (return_quota (assigned r)) (channel r) h)
     else
       let (rs, bytes, h) = drop_disconnecting disc rs bytes (each (\<lambda>c. c\<lparr>tmp := 0\<rparr>) (channel r) h)
       in (r # rs, bytes, h))"

text \<open>The priorities of the requests of a channel are summed up in \<open>tmp\<close>.\<close>

fun add_priority :: "int \<Rightarrow> nat list \<Rightarrow> nat list \<times> channels \<Rightarrow> nat list \<times> channels" where
  "add_priority prio [] (cs, h) = (cs, h)"
| "add_priority prio (a # as) (cs, h) =
    add_priority prio as ((if tmp (h a) = 0 then cs @ [a] else cs), at a (\<lambda>c. c\<lparr>tmp := tmp c + prio\<rparr>) h)"

fun sum_priorities :: "bw_request list \<Rightarrow> nat list \<times> channels \<Rightarrow> nat list \<times> channels" where
  "sum_priorities [] ch = ch"
| "sum_priorities (r # rs) ch = sum_priorities rs (add_priority (bw_priority r) (channel r) ch)"

fun assign_loop ::
  "bw_request list \<Rightarrow> int \<Rightarrow> channels \<Rightarrow> bw_request list \<times> bw_request list \<times> int \<times> channels" where
  "assign_loop [] bytes h = ([], [], bytes, h)"
| "assign_loop (r # rs) bytes h =
    (let (a, r, h) = assign_bandwidth r h
     in if assigned r = request_size r \<or> ttl r \<le> 0 \<and> 0 < assigned r then
          let (queue, tm, bytes, h) = assign_loop rs (bytes - (a + (request_size r - assigned r))) h
          in (queue, r # tm, bytes, h)
        else
          let (queue, tm, bytes, h) = assign_loop rs (bytes - a) h
          in (r # queue, tm, bytes, h))"

definition update_quotas ::
  "(nat \<Rightarrow> bool) \<Rightarrow> int \<Rightarrow> channels \<Rightarrow> bandwidth_manager \<Rightarrow> (nat \<times> int) list \<times> channels \<times> bandwidth_manager" where
  "update_quotas disc total_milliseconds h m =
    (if m_abort m then ([], h, m)
     else if m_queue m = [] then ([], h, m)
     else
       let dt_milliseconds = min total_milliseconds 3000;
           (queue, bytes, h) = drop_disconnecting disc (m_queue m) (m_queued_bytes m) h;
           (cs, h) = sum_priorities queue ([], h);
           h = each (update_quota dt_milliseconds) cs h;
           (queue, tm, bytes, h) = assign_loop queue bytes h
       in (map (\<lambda>r. (bw_peer r, assigned r)) (rev tm), h, m\<lparr>m_queue := queue, m_queued_bytes := bytes\<rparr>))"

section \<open>The store of channels\<close>

lemma count_list_distinct: "distinct xs \<Longrightarrow> count_list xs x = (if x \<in> set xs then 1 else 0)"
  by (induction xs) (auto simp: count_list_0_iff)

lemma each_apply: "each f as h a = (f ^^ count_list as a) (h a)"
proof (induction as arbitrary: h)
  case (Cons b as)
  have "each f (b # as) h = each f as (at b f h)" by (simp add: each_def)
  then show ?case using Cons by (simp add: at_def funpow_swap1)
qed (simp add: each_def)

lemma use_quota_pow:
  "(use_quota q ^^ n) c = (if m_limit c = 0 then c else c\<lparr>m_quota_left := m_quota_left c - int n * q\<rparr>)"
  by (induction n) (auto simp: use_quota_def algebra_simps)

lemma return_quota_pow:
  "(return_quota q ^^ n) c = (if m_limit c = 0 then c else c\<lparr>m_quota_left := m_quota_left c + int n * q\<rparr>)"
  by (induction n) (auto simp: return_quota_def algebra_simps)

lemma reset_pow: "((\<lambda>c. c\<lparr>tmp := 0\<rparr>) ^^ n) c = (if n = 0 then c else c\<lparr>tmp := 0\<rparr>)"
  by (induction n) auto

definition chans_ok :: "channels \<Rightarrow> bool" where
  "chans_ok h \<longleftrightarrow> (\<forall>a. 0 \<le> m_limit (h a) \<and> 0 \<le> distribute_quota (h a) \<and> 0 \<le> tmp (h a))"

definition req_ok :: "bw_request \<Rightarrow> bool" where
  "req_ok r \<longleftrightarrow> 0 \<le> assigned r \<and> assigned r < request_size r \<and> 0 < bw_priority r"

definition remaining :: "bw_request list \<Rightarrow> int" where
  "remaining rs = sum_list (map (\<lambda>r. request_size r - assigned r) rs)"

definition manager_ok :: "bandwidth_manager \<Rightarrow> bool" where
  "manager_ok m \<longleftrightarrow> (\<forall>r \<in> set (m_queue m). req_ok r \<and> (0 < ttl r \<or> assigned r = 0)) \<and> m_queued_bytes m = remaining (m_queue m)
     \<and> (m_abort m \<longrightarrow> m_queue m = [])"

text \<open>\<open>demand a rs\<close> is the sum of the priorities of the requests on channel \<open>a\<close>.\<close>

definition demand :: "nat \<Rightarrow> bw_request list \<Rightarrow> int" where
  "demand a rs = sum_list (map (\<lambda>r. int (count_list (channel r) a) * bw_priority r) rs)"

lemma remaining_simps [simp]:
  "remaining [] = 0" "remaining (r # rs) = request_size r - assigned r + remaining rs"
  "remaining (rs @ ss) = remaining rs + remaining ss"
  by (simp_all add: remaining_def)

lemma demand_simps [simp]:
  "demand a [] = 0" "demand a (r # rs) = int (count_list (channel r) a) * bw_priority r + demand a rs"
  by (simp_all add: demand_def)

lemma demand_nonneg: "\<forall>r \<in> set rs. req_ok r \<Longrightarrow> 0 \<le> demand a rs"
  by (induction rs) (auto simp: req_ok_def)

lemma demand_pos: "\<forall>r \<in> set rs. req_ok r \<Longrightarrow> r \<in> set rs \<Longrightarrow> a \<in> set (channel r) \<Longrightarrow> 0 < demand a rs"
proof (induction rs)
  case (Cons x rs)
  have x: "0 \<le> int (count_list (channel x) a) * bw_priority x" using Cons.prems(1) by (simp add: req_ok_def)
  have y: "0 \<le> demand a rs" by (rule demand_nonneg) (use Cons.prems(1) in simp)
  show ?case
  proof (cases "r = x")
    case True
    then have "count_list (channel x) a \<noteq> 0" using Cons.prems(3) by (simp add: count_list_0_iff)
    then have "0 < int (count_list (channel x) a) * bw_priority x" using Cons.prems(1) by (simp add: req_ok_def)
    then show ?thesis using y by simp
  qed (use Cons x in auto)
qed simp

section \<open>One request\<close>

lemma limit_quota_le: "limit_quota h p q a \<le> q"
  by (simp add: limit_quota_def)

lemma limit_quota_nonneg: "chans_ok h \<Longrightarrow> 0 < p \<Longrightarrow> 0 \<le> q \<Longrightarrow> 0 \<le> limit_quota h p q a"
  by (auto simp: limit_quota_def chans_ok_def order_less_le int_div_nonneg pos_imp_zdiv_nonneg_iff)

lemma limit_fold:
  assumes "chans_ok h" "0 < p" "0 \<le> q"
  shows "0 \<le> foldl (limit_quota h p) q as" "foldl (limit_quota h p) q as \<le> q"
    "\<And>a. a \<in> set as \<Longrightarrow> m_limit (h a) \<noteq> 0 \<Longrightarrow> 0 < tmp (h a) \<Longrightarrow>
      foldl (limit_quota h p) q as \<le> distribute_quota (h a) * p div tmp (h a)"
proof -
  have "0 \<le> foldl (limit_quota h p) q as \<and> foldl (limit_quota h p) q as \<le> q \<and>
    (\<forall>a \<in> set as. m_limit (h a) \<noteq> 0 \<longrightarrow> 0 < tmp (h a) \<longrightarrow>
      foldl (limit_quota h p) q as \<le> distribute_quota (h a) * p div tmp (h a))"
    using assms(3)
  proof (induction as arbitrary: q)
    case (Cons a as)
    have l: "limit_quota h p q a \<le> q" "0 \<le> limit_quota h p q a"
      using limit_quota_le limit_quota_nonneg [OF assms(1,2) Cons.prems] by blast+
    have "limit_quota h p q a \<le> distribute_quota (h a) * p div tmp (h a)" if "m_limit (h a) \<noteq> 0" "0 < tmp (h a)"
      using that assms(1,2) by (simp add: limit_quota_def int_div_nonneg chans_ok_def)
    then show ?case using Cons.IH [OF l(2)] l by (auto intro: order_trans)
  qed simp
  then show "0 \<le> foldl (limit_quota h p) q as" "foldl (limit_quota h p) q as \<le> q"
    "\<And>a. a \<in> set as \<Longrightarrow> m_limit (h a) \<noteq> 0 \<Longrightarrow> 0 < tmp (h a) \<Longrightarrow>
      foldl (limit_quota h p) q as \<le> distribute_quota (h a) * p div tmp (h a)"
    by blast+
qed

lemma assign_bandwidth_ok:
  assumes c: "chans_ok h" and r: "req_ok r" and a: "assign_bandwidth r h = (q, r', h')"
  shows "0 \<le> q" "assigned r' = assigned r + q" "assigned r' \<le> request_size r" "request_size r' = request_size r"
    "bw_peer r' = bw_peer r" "bw_priority r' = bw_priority r" "channel r' = channel r" "ttl r' = ttl r - 1"
    "h' a = (if m_limit (h a) = 0 then h a else (h a)\<lparr>m_quota_left := m_quota_left (h a) - int (count_list (channel r) a) * q\<rparr>)"
    "a \<in> set (channel r) \<Longrightarrow> m_limit (h a) \<noteq> 0 \<Longrightarrow> 0 < tmp (h a) \<Longrightarrow> q * tmp (h a) \<le> distribute_quota (h a) * bw_priority r"
proof -
  let ?q = "foldl (limit_quota h (bw_priority r)) (request_size r - assigned r) (channel r)"
  have "0 < request_size r - assigned r" "0 < bw_priority r" using r by (simp_all add: req_ok_def)
  then have e: "q = ?q" "r' = r\<lparr>ttl := ttl r - 1, assigned := assigned r + ?q\<rparr>" "h' = each (use_quota ?q) (channel r) h"
    using a by (auto simp: assign_bandwidth_def Let_def)
  note l = limit_fold [OF c, where p = "bw_priority r" and q = "request_size r - assigned r" and as = "channel r"]
  show "0 \<le> q" "assigned r' = assigned r + q" "assigned r' \<le> request_size r" "request_size r' = request_size r"
    "bw_peer r' = bw_peer r" "bw_priority r' = bw_priority r" "channel r' = channel r" "ttl r' = ttl r - 1"
    using l(1,2) r unfolding e by (simp_all add: req_ok_def)
  show "h' a = (if m_limit (h a) = 0 then h a else (h a)\<lparr>m_quota_left := m_quota_left (h a) - int (count_list (channel r) a) * q\<rparr>)"
    unfolding e by (simp add: each_apply use_quota_pow)
  assume x: "a \<in> set (channel r)" "m_limit (h a) \<noteq> 0" "0 < tmp (h a)"
  have "q \<le> distribute_quota (h a) * bw_priority r div tmp (h a)" using l(3) [OF _ _ x] r unfolding e by (simp add: req_ok_def)
  then have "q * tmp (h a) \<le> distribute_quota (h a) * bw_priority r div tmp (h a) * tmp (h a)"
    using x(3) by (simp add: mult_right_mono)
  also have "\<dots> \<le> distribute_quota (h a) * bw_priority r"
    using x(3) pos_mod_sign [of "tmp (h a)" "distribute_quota (h a) * bw_priority r"]
    by (simp add: div_mult_mod_eq [symmetric] minus_mod_eq_div_mult [symmetric])
  finally show "q * tmp (h a) \<le> distribute_quota (h a) * bw_priority r" .
qed

section \<open>The loops of a round\<close>

definition settled :: "bw_request list \<Rightarrow> int \<Rightarrow> bw_request list \<Rightarrow> bw_request list \<Rightarrow> int \<Rightarrow> bool" where
  "settled rs bytes queue tm bytes' \<longleftrightarrow> bytes' - remaining queue = bytes - remaining rs
     \<and> (\<forall>r \<in> set queue. req_ok r \<and> (0 < ttl r \<or> assigned r = 0))
     \<and> (\<forall>r \<in> set tm. 0 < assigned r \<and> assigned r \<le> request_size r)"

definition drawn :: "bw_request list \<Rightarrow> bandwidth_channel \<Rightarrow> bandwidth_channel \<Rightarrow> nat \<Rightarrow> bool" where
  "drawn rs c c' a \<longleftrightarrow> tmp c' = tmp c \<and> distribute_quota c' = distribute_quota c \<and> m_limit c' = m_limit c
     \<and> (m_limit c = 0 \<or> (\<forall>r \<in> set rs. a \<notin> set (channel r)) \<longrightarrow> m_quota_left c' = m_quota_left c)
     \<and> (m_limit c \<noteq> 0 \<longrightarrow> 0 < tmp c \<longrightarrow> (m_quota_left c - m_quota_left c') * tmp c \<le> distribute_quota c * demand a rs)"

lemma assign_loop_ok:
  "chans_ok h \<Longrightarrow> \<forall>r \<in> set rs. req_ok r \<Longrightarrow> assign_loop rs bytes h = (queue, tm, bytes', h') \<Longrightarrow>
   settled rs bytes queue tm bytes' \<and> drawn rs (h a) (h' a) a"
proof (induction rs arbitrary: bytes h queue tm bytes' h')
  case Nil
  then show ?case by (simp add: settled_def drawn_def)
next
  case (Cons r rs)
  obtain q r1 h1 where as: "assign_bandwidth r h = (q, r1, h1)" by (cases "assign_bandwidth r h")
  have r: "req_ok r" and rs: "\<forall>r \<in> set rs. req_ok r" using Cons.prems(2) by simp_all
  note b = assign_bandwidth_ok [OF Cons.prems(1) r as]
  have c1: "chans_ok h1" unfolding chans_ok_def by (subst (1 2 3) b(9)) (use Cons.prems(1) in \<open>simp add: chans_ok_def\<close>)
  define fin where "fin \<longleftrightarrow> assigned r1 = request_size r1 \<or> ttl r1 \<le> 0 \<and> 0 < assigned r1"
  define bytes1 where "bytes1 = (if fin then bytes - (q + (request_size r1 - assigned r1)) else bytes - q)"
  obtain queue1 tm1 bytes2 h2 where lp: "assign_loop rs bytes1 h1 = (queue1, tm1, bytes2, h2)"
    by (cases "assign_loop rs bytes1 h1")
  have res: "h' = h2" "bytes' = bytes2" "queue = (if fin then queue1 else r1 # queue1)" "tm = (if fin then r1 # tm1 else tm1)"
    using Cons.prems(3) lp by (auto simp: as Let_def fin_def [symmetric] bytes1_def split: if_splits)
  have IH: "settled rs bytes1 queue1 tm1 bytes2" "drawn rs (h1 a) (h2 a) a" using Cons.IH [OF c1 rs lp] by simp_all
  have "fin \<Longrightarrow> 0 < assigned r1" "\<not> fin \<Longrightarrow> req_ok r1 \<and> (0 < ttl r1 \<or> assigned r1 = 0)"
    using r b(1-6) by (auto simp: fin_def req_ok_def)
  then have "settled (r # rs) bytes queue tm bytes'"
    using IH(1) b(1-4) unfolding res bytes1_def by (auto simp: settled_def split: if_splits)
  moreover have "int (count_list (channel r) a) * (q * tmp (h a)) \<le> int (count_list (channel r) a) * (distribute_quota (h a) * bw_priority r)"
    if "m_limit (h a) \<noteq> 0" "0 < tmp (h a)"
  proof (cases "a \<in> set (channel r)")
    case True
    then show ?thesis using b(10) [OF True that] by (simp add: mult_left_mono)
  qed (simp add: count_list_0_iff)
  then have "drawn (r # rs) (h a) (h' a) a"
    using IH(2) unfolding res b(9) [of a] by (auto simp: drawn_def algebra_simps count_list_0_iff split: if_splits)
  ultimately show ?case by blast
qed

definition same_limits :: "bandwidth_channel \<Rightarrow> bandwidth_channel \<Rightarrow> bool" where
  "same_limits c c' \<longleftrightarrow> m_limit c' = m_limit c \<and> distribute_quota c' = distribute_quota c"

lemma drop_disconnecting_ok:
  "chans_ok h \<Longrightarrow> \<forall>r \<in> set rs. req_ok r \<Longrightarrow> drop_disconnecting disc rs bytes h = (rs', bytes', h') \<Longrightarrow>
   rs' = filter (\<lambda>r. \<not> disc (bw_peer r)) rs \<and> bytes' - remaining rs' = bytes - remaining rs \<and> chans_ok h' \<and>
   same_limits (h a) (h' a) \<and> m_quota_left (h a) \<le> m_quota_left (h' a) \<and>
   (tmp (h a) = 0 \<or> (\<exists>r \<in> set rs'. a \<in> set (channel r)) \<longrightarrow> tmp (h' a) = 0)"
proof (induction rs arbitrary: bytes h rs' bytes' h')
  case Nil
  then show ?case by (simp add: same_limits_def)
next
  case (Cons r rs)
  have r: "0 \<le> assigned r" and rs: "\<forall>r \<in> set rs. req_ok r" using Cons.prems(2) by (simp_all add: req_ok_def)
  show ?case
  proof (cases "disc (bw_peer r)")
    case True
    define h0 where "h0 = each (return_quota (assigned r)) (channel r) h"
    have h: "h0 b = (if m_limit (h b) = 0 then h b else (h b)\<lparr>m_quota_left := m_quota_left (h b) + int (count_list (channel r) b) * assigned r\<rparr>)" for b
      by (simp add: h0_def each_apply return_quota_pow)
    have c: "chans_ok h0" unfolding chans_ok_def h using Cons.prems(1) by (simp add: chans_ok_def)
    have d: "drop_disconnecting disc rs (bytes - (request_size r - assigned r)) h0 = (rs', bytes', h')"
      using True Cons.prems(3) by (simp add: h0_def)
    have "m_quota_left (h a) \<le> m_quota_left (h0 a)" "tmp (h0 a) = tmp (h a)" "same_limits (h a) (h0 a)"
      using r by (simp_all add: h same_limits_def)
    then show ?thesis using Cons.IH [OF c rs d] True by (auto simp: same_limits_def)
  next
    case False
    define h0 where "h0 = each (\<lambda>c. c\<lparr>tmp := 0\<rparr>) (channel r) h"
    have h: "h0 b = (if b \<in> set (channel r) then (h b)\<lparr>tmp := 0\<rparr> else h b)" for b
      by (simp add: h0_def each_apply reset_pow count_list_0_iff)
    have c: "chans_ok h0" unfolding chans_ok_def h using Cons.prems(1) by (simp add: chans_ok_def)
    obtain rs1 b1 h1 where d: "drop_disconnecting disc rs bytes h0 = (rs1, b1, h1)" by (cases "drop_disconnecting disc rs bytes h0")
    have "rs' = r # rs1" "bytes' = b1" "h' = h1" using Cons.prems(3) False d by (simp_all add: h0_def)
    moreover have "m_quota_left (h0 a) = m_quota_left (h a)" "same_limits (h a) (h0 a)"
      "tmp (h a) = 0 \<or> a \<in> set (channel r) \<Longrightarrow> tmp (h0 a) = 0" by (auto simp: h same_limits_def)
    ultimately show ?thesis using Cons.IH [OF c rs d] False by (auto simp: same_limits_def)
  qed
qed

text \<open>While the priorities are added up, the channels listed are those with a sum.\<close>

definition listed :: "nat set \<Rightarrow> nat list \<Rightarrow> channels \<Rightarrow> bool" where
  "listed A cs h \<longleftrightarrow> distinct cs \<and> set cs \<subseteq> A \<and> (\<forall>a \<in> A. a \<in> set cs \<longleftrightarrow> 0 < tmp (h a)) \<and> (\<forall>a \<in> A. 0 \<le> tmp (h a))"

lemma add_priority_ok:
  "0 < prio \<Longrightarrow> set as \<subseteq> A \<Longrightarrow> listed A cs h \<Longrightarrow> add_priority prio as (cs, h) = (cs', h') \<Longrightarrow>
   listed A cs' h' \<and> h' a = (h a)\<lparr>tmp := tmp (h a) + int (count_list as a) * prio\<rparr>"
proof (induction as arbitrary: cs h)
  case (Cons b as)
  have b: "b \<in> A" "set as \<subseteq> A" using Cons.prems(2) by simp_all
  define cs0 where "cs0 = (if tmp (h b) = 0 then cs @ [b] else cs)"
  define h0 where "h0 = at b (\<lambda>c. c\<lparr>tmp := tmp c + prio\<rparr>) h"
  have h0: "h0 c = (if c = b then (h b)\<lparr>tmp := tmp (h b) + prio\<rparr> else h c)" for c by (simp add: h0_def at_def)
  have l: "listed A cs0 h0" using Cons.prems(1,3) b(1) by (auto simp: listed_def h0 cs0_def)
  have "add_priority prio as (cs0, h0) = (cs', h')" using Cons.prems(4) by (simp add: cs0_def h0_def)
  from Cons.IH [OF Cons.prems(1) b(2) l this] show ?case by (simp add: h0 algebra_simps)
qed simp

lemma sum_priorities_ok:
  "\<forall>r \<in> set rs. req_ok r \<and> set (channel r) \<subseteq> A \<Longrightarrow> listed A cs h \<Longrightarrow> sum_priorities rs (cs, h) = (cs', h') \<Longrightarrow>
   listed A cs' h' \<and> h' a = (h a)\<lparr>tmp := tmp (h a) + demand a rs\<rparr>"
proof (induction rs arbitrary: cs h)
  case (Cons r rs)
  obtain cs1 h1 where p: "add_priority (bw_priority r) (channel r) (cs, h) = (cs1, h1)"
    by (cases "add_priority (bw_priority r) (channel r) (cs, h)")
  have r: "0 < bw_priority r" "set (channel r) \<subseteq> A" using Cons.prems(1) by (simp_all add: req_ok_def)
  note a = add_priority_ok [OF r Cons.prems(2) p]
  have rs: "\<forall>r \<in> set rs. req_ok r \<and> set (channel r) \<subseteq> A" using Cons.prems(1) by simp
  have "sum_priorities rs (cs1, h1) = (cs', h')" using Cons.prems(3) p by simp
  from Cons.IH [OF rs conjunct1 [OF a] this] show ?case using a [of a] by (simp add: algebra_simps)
qed simp

lemma update_quota_ok:
  assumes "0 \<le> m_limit c" "0 \<le> dt" "c' = update_quota dt c"
  shows "m_limit c' = m_limit c" "tmp c' = tmp c" "0 \<le> distribute_quota c \<Longrightarrow> 0 \<le> distribute_quota c'"
    "min 0 (m_quota_left c) \<le> m_quota_left c'"
    "m_limit c \<noteq> 0 \<Longrightarrow> distribute_quota c' = max (m_quota_left c') 0 \<and> m_quota_left c' \<le> 3 * m_limit c"
proof -
  have "0 \<le> m_limit c * dt + 500" using assms by simp
  then have "0 \<le> int_div (m_limit c * dt + 500) 1000" by (simp add: int_div_nonneg pos_imp_zdiv_nonneg_iff)
  then show "m_limit c' = m_limit c" "tmp c' = tmp c" "0 \<le> distribute_quota c \<Longrightarrow> 0 \<le> distribute_quota c'"
    "min 0 (m_quota_left c) \<le> m_quota_left c'"
    "m_limit c \<noteq> 0 \<Longrightarrow> distribute_quota c' = max (m_quota_left c') 0 \<and> m_quota_left c' \<le> 3 * m_limit c"
    using assms by (auto simp: update_quota_def Let_def min_def)
qed

section \<open>A round\<close>

text \<open>
  What the three preparing loops establish of a channel: \<open>tmp\<close> is the demand on it and the bytes
  to distribute are its positive quota.
\<close>

definition prepared :: "bw_request list \<Rightarrow> nat \<Rightarrow> bandwidth_channel \<Rightarrow> bandwidth_channel \<Rightarrow> bool" where
  "prepared rs a c c' \<longleftrightarrow> m_limit c' = m_limit c \<and> 0 \<le> tmp c' \<and> 0 \<le> distribute_quota c' \<and> min 0 (m_quota_left c) \<le> m_quota_left c'
     \<and> ((\<exists>r \<in> set rs. a \<in> set (channel r)) \<longrightarrow> m_limit c \<noteq> 0 \<longrightarrow>
          tmp c' = demand a rs \<and> distribute_quota c' = max (m_quota_left c') 0 \<and> m_quota_left c' \<le> 3 * m_limit c)"

lemma prepare_ok:
  assumes c: "chans_ok h" and ro: "\<forall>r \<in> set rs0. req_ok r" and t: "0 \<le> t"
    and d: "drop_disconnecting disc rs0 b h = (rs, b1, h1)" and sp: "sum_priorities rs ([], h1) = (cs, h2)"
  shows "prepared rs a (h a) (each (update_quota t) cs h2 a)"
proof -
  let ?A = "\<Union>r \<in> set rs. set (channel r)"
  note dd = drop_disconnecting_ok [OF c ro d]
  have rs: "\<forall>r \<in> set rs. req_ok r" using dd ro by auto
  have z: "tmp (h1 a) = 0" if "a \<in> ?A" for a using drop_disconnecting_ok [OF c ro d, of a] that by blast
  then have "listed ?A [] h1" by (simp add: listed_def)
  then have spk: "listed ?A cs h2" "h2 a = (h1 a)\<lparr>tmp := tmp (h1 a) + demand a rs\<rparr>" for a
    using sum_priorities_ok [OF _ _ sp, of ?A] rs by auto
  define c2 where "c2 = h2 a"
  define c3 where "c3 = each (update_quota t) cs h2 a"
  have c3: "c3 = (if a \<in> set cs then update_quota t c2 else c2)"
    using spk(1) by (auto simp: c3_def c2_def each_apply listed_def count_list_distinct)
  have p: "0 \<le> m_limit c2" "0 \<le> distribute_quota c2" "0 \<le> tmp c2" "m_limit c2 = m_limit (h a)" "min 0 (m_quota_left (h a)) \<le> min 0 (m_quota_left c2)"
    using drop_disconnecting_ok [OF c ro d, of a] demand_nonneg [OF rs, of a] c
    unfolding c2_def spk(2) chans_ok_def same_limits_def by (auto simp: min_def)
  note u = update_quota_ok [OF p(1) t refl]
  have "a \<in> set cs" "tmp c2 = demand a rs" if "a \<in> ?A"
  proof -
    have "0 < demand a rs" using demand_pos [OF rs] that by blast
    then show "tmp c2 = demand a rs" "a \<in> set cs" using z [OF that] spk(1) that by (auto simp: c2_def spk(2) listed_def)
  qed
  then show ?thesis unfolding c3_def [symmetric] c3 prepared_def using u p by auto
qed

lemma round_overdraft:
  assumes p: "prepared rs a c c'" and d: "drawn rs c' c'' a" and rs: "\<forall>r \<in> set rs. req_ok r"
  shows "min 0 (m_quota_left c) \<le> m_quota_left c''"
proof (cases "(\<exists>r \<in> set rs. a \<in> set (channel r)) \<and> m_limit c \<noteq> 0")
  case True
  then have q: "tmp c' = demand a rs" "distribute_quota c' = max (m_quota_left c') 0" "m_limit c' \<noteq> 0" "0 < demand a rs"
    using p demand_pos [OF rs] by (auto simp: prepared_def)
  then have "(m_quota_left c' - m_quota_left c'') * demand a rs \<le> distribute_quota c' * demand a rs"
    using d by (simp add: drawn_def)
  then have "m_quota_left c' - m_quota_left c'' \<le> distribute_quota c'" using q(4) by (simp add: mult_le_cancel_right)
  then show ?thesis using p q(2) by (auto simp: prepared_def)
next
  case False
  then show ?thesis using p d by (auto simp: prepared_def drawn_def)
qed

lemma update_quotas_idle: "m_abort m \<or> m_queue m = [] \<Longrightarrow> update_quotas disc dt h m = ([], h, m)"
  by (auto simp: update_quotas_def)

text \<open>
  \<open>round_ok\<close> is what a round leaves behind: no channel overdrawn by it and only positive answers.
\<close>

definition round_ok :: "channels \<Rightarrow> (nat \<times> int) list \<Rightarrow> channels \<Rightarrow> bandwidth_manager \<Rightarrow> bool" where
  "round_ok h answers h' m' \<longleftrightarrow> manager_ok m' \<and> chans_ok h' \<and> (\<forall>(pe, n) \<in> set answers. 0 < n)
     \<and> (\<forall>a. m_limit (h' a) = m_limit (h a) \<and> min 0 (m_quota_left (h a)) \<le> m_quota_left (h' a))"

lemma update_quotas_ok:
  assumes c: "chans_ok h" and m: "manager_ok m" and dt: "0 \<le> dt" and u: "update_quotas disc dt h m = (answers, h', m')"
  shows "round_ok h answers h' m'"
proof (cases "m_abort m \<or> m_queue m = []")
  case True
  then have "answers = []" "h' = h" "m' = m" using u update_quotas_idle [OF True] by simp_all
  then show ?thesis using c m by (simp add: round_ok_def)
next
  case False
  define t where "t = min dt 3000"
  obtain rs b1 h1 where d: "drop_disconnecting disc (m_queue m) (m_queued_bytes m) h = (rs, b1, h1)"
    by (cases "drop_disconnecting disc (m_queue m) (m_queued_bytes m) h")
  obtain cs h2 where sp: "sum_priorities rs ([], h1) = (cs, h2)" by (cases "sum_priorities rs ([], h1)")
  define h3 where "h3 = each (update_quota t) cs h2"
  obtain queue tm b2 h4 where al: "assign_loop rs b1 h3 = (queue, tm, b2, h4)" by (cases "assign_loop rs b1 h3")
  have res: "answers = map (\<lambda>r. (bw_peer r, assigned r)) (rev tm)" "h' = h4" "m' = m\<lparr>m_queue := queue, m_queued_bytes := b2\<rparr>"
    using u False d sp al by (auto simp: update_quotas_def Let_def t_def h3_def)
  have ro: "\<forall>r \<in> set (m_queue m). req_ok r" "m_queued_bytes m = remaining (m_queue m)" using m by (auto simp: manager_ok_def)
  note dd = drop_disconnecting_ok [OF c ro(1) d]
  have rs: "\<forall>r \<in> set rs. req_ok r" using dd ro(1) by auto
  have t0: "0 \<le> t" using dt by (simp add: t_def)
  have pr: "prepared rs a (h a) (h3 a)" for a unfolding h3_def by (rule prepare_ok [OF c ro(1) t0 d sp])
  then have c3: "chans_ok h3" using c by (auto simp: prepared_def chans_ok_def)
  have st: "settled rs b1 queue tm b2" and dr: "drawn rs (h3 a) (h4 a) a" for a using assign_loop_ok [OF c3 rs al] by blast+
  have "manager_ok m'" using st dd ro(2) False by (simp add: manager_ok_def res settled_def)
  moreover have "chans_ok h4" using c3 dr unfolding chans_ok_def drawn_def by simp
  moreover have "\<forall>(pe, n) \<in> set answers. 0 < n" using st by (auto simp: res settled_def)
  moreover have "m_limit (h4 a) = m_limit (h a)" for a using pr [of a] dr [of a] by (simp add: prepared_def drawn_def)
  ultimately show ?thesis using round_overdraft [OF pr dr rs] by (simp add: round_ok_def res(2))
qed

section \<open>Runs of the limiter\<close>

text \<open>
  The steps of the sessions that share the channels: limits are set, transferred bytes are
  charged or given back, peers ask for bandwidth, the second tick distributes it, and the
  session shuts down. The guards are the assertions of the code.
\<close>

inductive limiter_step :: "channels \<times> bandwidth_manager \<Rightarrow> channels \<times> bandwidth_manager \<Rightarrow> bool" where
  step_throttle: "0 \<le> limit \<Longrightarrow> limit < int_max div 31 \<Longrightarrow> limiter_step (h, m) (at a (throttle limit) h, m)"
| step_use: "0 \<le> n \<Longrightarrow> limiter_step (h, m) (at a (use_quota n) h, m)"
| step_return: "0 \<le> n \<Longrightarrow> limiter_step (h, m) (at a (return_quota n) h, m)"
| step_request: "0 < blk \<Longrightarrow> 0 < prio \<Longrightarrow> \<not> is_queued pe m \<Longrightarrow> length chans = 5 \<Longrightarrow>
    limiter_step (h, m) (h, snd (request_bandwidth pe blk prio chans h m))"
| step_tick: "0 \<le> dt \<Longrightarrow> update_quotas disc dt h m = (answers, h', m') \<Longrightarrow> limiter_step (h, m) (h', m')"
| step_close: "limiter_step (h, m) (h, bandwidth_close m)"

inductive_cases limiter_stepE: "limiter_step s t"

definition limiter_init :: "channels \<times> bandwidth_manager" where
  "limiter_init = ((\<lambda>a. bandwidth_channel_new), bandwidth_manager_new 0)"

definition limiter_reachable :: "channels \<Rightarrow> bandwidth_manager \<Rightarrow> bool" where
  "limiter_reachable h m \<longleftrightarrow> limiter_step\<^sup>*\<^sup>* limiter_init (h, m)"

lemma manager_check_invariant_ok: "manager_ok m \<Longrightarrow> manager_check_invariant m"
proof -
  have "foldl (\<lambda>queued r. queued + (request_size r - assigned r)) n rs = n + remaining rs" for n rs
    by (induction rs arbitrary: n) simp_all
  then show "manager_ok m \<Longrightarrow> manager_check_invariant m" by (simp add: manager_check_invariant_def manager_ok_def)
qed

lemma request_bandwidth_ok:
  "manager_ok m \<Longrightarrow> 0 < blk \<Longrightarrow> 0 < prio \<Longrightarrow> manager_ok (snd (request_bandwidth pe blk prio chans h m))"
  by (auto simp: request_bandwidth_def Let_def manager_ok_def bw_request_new_def req_ok_def)

definition limited :: "channels \<Rightarrow> bool" where
  "limited h \<longleftrightarrow> (\<forall>a. 0 \<le> m_limit (h a) \<and> m_limit (h a) < int_max div 31)"

lemma limiter_step_ok:
  assumes "limiter_step s t" "chans_ok (fst s)" "limited (fst s)" "manager_ok (snd s)"
  shows "chans_ok (fst t) \<and> limited (fst t) \<and> manager_ok (snd t)"
  using assms
proof (induction rule: limiter_step.induct)
  case (step_tick dt disc h m answers h' m')
  then show ?case using update_quotas_ok [OF _ _ step_tick(1,2)] by (simp add: round_ok_def limited_def)
next
  case (step_close h m)
  then show ?case by (simp add: bandwidth_close_def manager_ok_def)
qed (auto simp: chans_ok_def limited_def at_def throttle_def use_quota_def return_quota_def request_bandwidth_ok int_max_def)

lemma limiter_reachable_ok:
  assumes "limiter_reachable h m"
  shows "chans_ok h" "limited h" "manager_ok m"
proof -
  have "chans_ok (fst s) \<and> limited (fst s) \<and> manager_ok (snd s)" if "limiter_step\<^sup>*\<^sup>* limiter_init s" for s
    using that
  proof (induction rule: rtranclp_induct)
    case base
    show ?case by (simp add: limiter_init_def chans_ok_def limited_def bandwidth_channel_new_def manager_ok_def
      bandwidth_manager_new_def int_max_def)
  next
    case (step s t)
    then show ?case using limiter_step_ok by blast
  qed
  from this [of "(h, m)"] show "chans_ok h" "limited h" "manager_ok m" using assms by (auto simp: limiter_reachable_def)
qed

section \<open>Patience\<close>









section \<open>A concrete run\<close>

text \<open>
  Channel 0 is limited to 1000 bytes a second; peer 7 asks for 600 bytes on it.
\<close>

definition demo_channels :: channels where
  "demo_channels = at 0 (throttle 1000) (\<lambda>a. bandwidth_channel_new)"

definition demo_request :: "int \<Rightarrow> bw_request" where
  "demo_request t = \<lparr>bw_peer = 7, bw_priority = 1, assigned = 0, request_size = 600, ttl = t, channel = [0]\<rparr>"

definition demo_manager :: "int \<Rightarrow> bandwidth_manager" where
  "demo_manager t = \<lparr>m_queue = [demo_request t], m_queued_bytes = 600, m_channel = 0, m_abort = False\<rparr>"

lemmas demo_defs = demo_channels_def demo_manager_def demo_request_def at_def throttle_def bandwidth_channel_new_def

lemma demo_reachable: "limiter_reachable demo_channels (demo_manager 20)"
proof -
  have "limiter_step limiter_init (demo_channels, bandwidth_manager_new 0)"
    unfolding limiter_init_def demo_channels_def by (rule step_throttle) (simp_all add: int_max_def)
  moreover have "snd (request_bandwidth 7 600 1 [Some 0, None, None, None, None] demo_channels (bandwidth_manager_new 0)) = demo_manager 20"
    by (simp add: request_bandwidth_def bandwidth_manager_new_def bw_request_new_def demo_defs)
  then have "limiter_step (demo_channels, bandwidth_manager_new 0) (demo_channels, demo_manager 20)"
    using step_request [of 600 1 7 "bandwidth_manager_new 0" "[Some 0, None, None, None, None]" demo_channels]
    by (simp add: is_queued_def bandwidth_manager_new_def)
  ultimately show ?thesis unfolding limiter_reachable_def by (meson converse_rtranclp_into_rtranclp rtranclp.rtrancl_refl)
qed

lemmas round_eval = update_quotas_def assign_bandwidth_def limit_quota_def each_def at_def update_quota_def use_quota_def int_div_def

lemma demo_round:
  "update_quotas (\<lambda>_. False) 1000 demo_channels (demo_manager 20) =
     ([(7, 600)], demo_channels(0 := \<lparr>tmp = 1, distribute_quota = 1000, m_quota_left = 400, m_limit = 1000\<rparr>),
      (demo_manager 20)\<lparr>m_queue := [], m_queued_bytes := 0\<rparr>)"
  by (simp add: round_eval demo_defs Let_def)



section \<open>Properties\<close>

text \<open>
  C9. In every reachable state of the rate limiter the bookkeeping of the queue is exact
  (\<open>check_invariant\<close> holds), and a round of \<open>update_quotas\<close>, whichever peers disconnect, keeps it,
  answers every finished request with a positive number of bytes, changes no limit and draws no
  channel below zero (or below the debt it already had).
\<close>

theorem bandwidth_round:
  assumes "limiter_reachable h m" "0 \<le> dt" "update_quotas disc dt h m = (answers, h', m')"
  shows "manager_check_invariant m \<and> manager_check_invariant m' \<and> (\<forall>(pe, n) \<in> set answers. 0 < n)
     \<and> (\<forall>a. m_limit (h' a) = m_limit (h a) \<and> min 0 (m_quota_left (h a)) \<le> m_quota_left (h' a))"
proof -
  have "round_ok h answers h' m'" using limiter_reachable_ok [OF assms(1)] update_quotas_ok [OF _ _ assms(2,3)] by blast
  then show ?thesis using limiter_reachable_ok [OF assms(1)] manager_check_invariant_ok by (simp add: round_ok_def)
qed

theorem bandwidth_round_witness:
  "limiter_reachable demo_channels (demo_manager 20) \<and>
   manager_check_invariant ((demo_manager 20)\<lparr>m_queue := [], m_queued_bytes := 0\<rparr>)"
  using bandwidth_round [OF demo_reachable _ demo_round] demo_reachable by simp





end
