(* ===== verification/Bitfield.thy ===== *)
theory Bitfield
  imports Ed2k_Prelude
begin

text \<open>
  \<open>struct bitfield\<close>: a packed vector of bits, most significant bit first, on memory that it owns or
  borrows. Memory that \<open>malloc\<close> and \<open>realloc\<close> hand out has arbitrary contents: every operation that
  may allocate takes them as the parameter \<open>junk\<close>. The abstraction of a bitfield is the list of its
  bits.
\<close>

section \<open>State and operations\<close>

record bitfield =
  m_bytes :: "uint8 list option"
  m_size :: nat
  m_own :: bool

definition bitfield_new :: bitfield where
  "bitfield_new = \<lparr>m_bytes = None, m_size = 0, m_own = False\<rparr>"

definition contents :: "bitfield \<Rightarrow> uint8 list" where
  "contents bf = (case m_bytes bf of None \<Rightarrow> [] | Some bs \<Rightarrow> bs)"

definition byte_mask :: "nat \<Rightarrow> uint8" where
  "byte_mask index = drop_bit (index mod 8) 0x80"

definition get_bit :: "nat \<Rightarrow> bitfield \<Rightarrow> bool" where
  "get_bit index bf \<longleftrightarrow> (contents bf ! (index div 8)) AND byte_mask index \<noteq> 0"

definition poke :: "nat \<Rightarrow> (uint8 \<Rightarrow> uint8) \<Rightarrow> bitfield \<Rightarrow> bitfield" where
  "poke i f bf = bf\<lparr>m_bytes := map_option (\<lambda>bs. bs[i := f (bs ! i)]) (m_bytes bf)\<rparr>"

definition bf_clear_bit :: "nat \<Rightarrow> bitfield \<Rightarrow> bitfield" where
  "bf_clear_bit index = poke (index div 8) (\<lambda>w. w AND NOT (byte_mask index))"

definition bf_set_bit :: "nat \<Rightarrow> bitfield \<Rightarrow> bitfield" where
  "bf_set_bit index = poke (index div 8) (\<lambda>w. w OR byte_mask index)"

definition dealloc :: "bitfield \<Rightarrow> bitfield" where
  "dealloc bf = bf\<lparr>m_bytes := None\<rparr>"

definition bitfield_free :: "bitfield \<Rightarrow> bitfield" where
  "bitfield_free bf = (dealloc bf)\<lparr>m_size := 0\<rparr>"


definition clear_trailing_bits :: "bitfield \<Rightarrow> bitfield" where
  "clear_trailing_bits bf =
    (if m_size bf mod 8 \<noteq> 0
     then poke ((m_size bf + 7) div 8 - 1) (\<lambda>w. w AND push_bit (8 - m_size bf mod 8) 0xff) bf
     else bf)"

definition malloc :: "(nat \<Rightarrow> uint8) \<Rightarrow> nat \<Rightarrow> uint8 list" where
  "malloc junk b = map junk [0..<b]"

definition realloc :: "(nat \<Rightarrow> uint8) \<Rightarrow> nat \<Rightarrow> uint8 list \<Rightarrow> uint8 list" where
  "realloc junk b bs = take b bs @ drop (length bs) (malloc junk b)"

definition memcpy :: "uint8 list \<Rightarrow> uint8 list \<Rightarrow> nat \<Rightarrow> uint8 list" where
  "memcpy dst src n = take n src @ drop n dst"

definition resize_junk :: "(nat \<Rightarrow> uint8) \<Rightarrow> nat \<Rightarrow> bitfield \<Rightarrow> bitfield" where
  "resize_junk junk bits bf =
    (let b = (bits + 7) div 8;
         bf = (case m_bytes bf of
             Some bs \<Rightarrow>
               if m_own bf then bf\<lparr>m_bytes := Some (realloc junk b bs), m_own := True\<rparr>
               else if m_size bf < bits then
                 bf\<lparr>m_bytes := Some (memcpy (malloc junk b) bs (min ((m_size bf + 7) div 8) b)), m_own := True\<rparr>
               else bf
           | None \<Rightarrow>
               if 0 < bits then bf\<lparr>m_bytes := Some (malloc junk b), m_own := True\<rparr> else bf)
     in clear_trailing_bits (bf\<lparr>m_size := bits\<rparr>))"

text \<open>\<open>memset\<close> on the bytes from \<open>i\<close> to \<open>j\<close>.\<close>

definition memset :: "nat \<Rightarrow> nat \<Rightarrow> uint8 \<Rightarrow> bitfield \<Rightarrow> bitfield" where
  "memset i j v bf = bf\<lparr>m_bytes := map_option (\<lambda>bs. take i bs @ replicate (j - i) v @ drop j bs) (m_bytes bf)\<rparr>"

definition resize_val :: "(nat \<Rightarrow> uint8) \<Rightarrow> nat \<Rightarrow> bool \<Rightarrow> bitfield \<Rightarrow> bitfield" where
  "resize_val junk bits val bf =
    (let s = m_size bf;
         b = m_size bf mod 8;
         bf = resize_junk junk bits bf
     in if m_size bf \<le> s then bf
        else
          let old_size_bytes = (s + 7) div 8;
              new_size_bytes = (m_size bf + 7) div 8
          in if val then
               let bf = (if old_size_bytes \<noteq> 0 \<and> b \<noteq> 0 then poke (old_size_bytes - 1) (\<lambda>w. w OR drop_bit b 0xff) bf else bf);
                   bf = (if old_size_bytes < new_size_bytes then memset old_size_bytes new_size_bytes 0xff bf else bf)
               in clear_trailing_bits bf
             else if old_size_bytes < new_size_bytes then memset old_size_bytes new_size_bytes 0x00 bf
             else bf)"

definition bitfield_assign :: "(nat \<Rightarrow> uint8) \<Rightarrow> uint8 list \<Rightarrow> nat \<Rightarrow> bitfield \<Rightarrow> bitfield" where
  "bitfield_assign junk b bits bf =
    (let bf = resize_junk junk bits bf
     in clear_trailing_bits (bf\<lparr>m_bytes := map_option (\<lambda>dst. memcpy dst b ((bits + 7) div 8)) (m_bytes bf)\<rparr>))"

definition bitfield_copy :: "(nat \<Rightarrow> uint8) \<Rightarrow> bitfield \<Rightarrow> bitfield \<Rightarrow> bitfield" where
  "bitfield_copy junk rhs = bitfield_assign junk (contents rhs) (m_size rhs)"

definition set_all :: "bitfield \<Rightarrow> bitfield" where
  "set_all bf = clear_trailing_bits (memset 0 ((m_size bf + 7) div 8) 0xff bf)"

definition clear_all :: "bitfield \<Rightarrow> bitfield" where
  "clear_all bf = memset 0 ((m_size bf + 7) div 8) 0x00 bf"

definition num_bits :: "nat list" where
  "num_bits = [0, 1, 1, 2, 1, 2, 2, 3, 1, 2, 2, 3, 2, 3, 3, 4]"

definition bitfield_count :: "bitfield \<Rightarrow> nat" where
  "bitfield_count bf =
    (let num_bytes = m_size bf div 8;
         ret = foldl (\<lambda>ret i. ret + (num_bits ! unat (contents bf ! i AND 0xf) + num_bits ! unat (drop_bit 4 (contents bf ! i))))
                 0 [0..<num_bytes];
         rest = m_size bf - num_bytes * 8
     in foldl (\<lambda>ret i. ret + unat (drop_bit (7 - i) (contents bf ! num_bytes) AND 1)) ret [0..<rest])"

text \<open>An iterator is a byte position with a mask; \<open>end\<close> may lie behind the last byte.\<close>

record const_iterator =
  iter_byte :: nat
  iter_bit :: uint8

definition const_iterator_new :: "nat \<Rightarrow> nat \<Rightarrow> const_iterator" where
  "const_iterator_new ptr offset = \<lparr>iter_byte = ptr, iter_bit = drop_bit offset 0x80\<rparr>"

definition deref :: "bitfield \<Rightarrow> const_iterator \<Rightarrow> bool" where
  "deref bf it \<longleftrightarrow> (contents bf ! iter_byte it) AND iter_bit it \<noteq> 0"

definition iter_inc :: "const_iterator \<Rightarrow> const_iterator" where
  "iter_inc it = (if iter_bit it = 0x01 then it\<lparr>iter_bit := 0x80, iter_byte := iter_byte it + 1\<rparr>
                  else it\<lparr>iter_bit := drop_bit 1 (iter_bit it)\<rparr>)"

definition iter_dec :: "const_iterator \<Rightarrow> const_iterator" where
  "iter_dec it = (if iter_bit it = 0x80 then it\<lparr>iter_bit := 0x01, iter_byte := iter_byte it - 1\<rparr>
                  else it\<lparr>iter_bit := push_bit 1 (iter_bit it)\<rparr>)"

definition iter_begin :: "bitfield \<Rightarrow> const_iterator" where
  "iter_begin bf = const_iterator_new 0 0"

definition iter_end :: "bitfield \<Rightarrow> const_iterator" where
  "iter_end bf = const_iterator_new (m_size bf div 8) (m_size bf mod 8)"

section \<open>Bits of a byte\<close>

lemma bit_0x80: "bit (0x80 :: uint8) n \<longleftrightarrow> n = 7"
proof -
  have "(0x80 :: uint8) = push_bit 7 1" by simp
  then show ?thesis unfolding bit_push_bit_iff by (simp only: bit_push_bit_iff bit_1_iff) auto
qed

lemma byte_mask_bit: "bit (byte_mask i) n \<longleftrightarrow> n + i mod 8 = 7"
  unfolding byte_mask_def bit_drop_bit_eq comp_def bit_0x80 by auto

lemma bit_0xff: "bit (0xff :: uint8) n \<longleftrightarrow> n < 8"
proof -
  have "(0xff :: uint8) = mask 8" by (simp add: mask_eq_exp_minus_1)
  then show ?thesis by (simp only: bit_mask_iff) auto
qed

lemma byte_eq_iff: "(w :: uint8) = v \<longleftrightarrow> (\<forall>n < 8. bit w n = bit v n)"
  by (auto simp: bit_eq_iff dest: bit_imp_le_length)

lemma and_mask_nonzero: "(w AND byte_mask i) \<noteq> 0 \<longleftrightarrow> bit w (7 - i mod 8)"
proof -
  have "n + i mod 8 = 7 \<longleftrightarrow> n = 7 - i mod 8" for n by auto
  then show ?thesis by (auto simp: byte_eq_iff bit_and_iff byte_mask_bit)
qed

section \<open>The list of bits\<close>

definition bit_at :: "uint8 list \<Rightarrow> nat \<Rightarrow> bool" where
  "bit_at bs i \<longleftrightarrow> bit (bs ! (i div 8)) (7 - i mod 8)"

definition bits :: "bitfield \<Rightarrow> bool list" where
  "bits bf = map (\<lambda>i. get_bit i bf) [0..<m_size bf]"

text \<open>The bytes of a bitfield hold its bits; it is tidy when the rest of its last byte is zero.\<close>

definition bf_ok :: "bitfield \<Rightarrow> bool" where
  "bf_ok bf \<longleftrightarrow> (m_size bf + 7) div 8 \<le> length (contents bf)"

definition tidy :: "bitfield \<Rightarrow> bool" where
  "tidy bf \<longleftrightarrow> (\<forall>i. m_size bf \<le> i \<longrightarrow> i < 8 * ((m_size bf + 7) div 8) \<longrightarrow> \<not> bit_at (contents bf) i)"

lemma get_bit_at: "get_bit i bf = bit_at (contents bf) i"
  by (simp add: get_bit_def bit_at_def and_mask_nonzero)

lemma length_bits [simp]: "length (bits bf) = m_size bf"
  by (simp add: bits_def)

lemma nth_bits [simp]: "i < m_size bf \<Longrightarrow> bits bf ! i = bit_at (contents bf) i"
  by (simp add: bits_def get_bit_at)

lemma bits_eqI: "m_size bf = length bs \<Longrightarrow> (\<And>i. i < length bs \<Longrightarrow> bit_at (contents bf) i = bs ! i) \<Longrightarrow> bits bf = bs"
  by (rule nth_equalityI) simp_all

lemma byte_index: "i < n \<Longrightarrow> i div 8 < (n + 7) div 8" for i n :: nat
  by linarith

lemma contents_poke: "contents (poke j f bf) = (contents bf)[j := f (contents bf ! j)]"
  by (simp add: contents_def poke_def split: option.split)

lemma poke_fields [simp]: "m_size (poke j f bf) = m_size bf" "m_own (poke j f bf) = m_own bf"
  by (simp_all add: poke_def)

lemma bit_at_poke:
  "j < length (contents bf) \<Longrightarrow> bit_at (contents (poke j f bf)) i =
     (if i div 8 = j then bit (f (contents bf ! j)) (7 - i mod 8) else bit_at (contents bf) i)"
  by (auto simp: bit_at_def contents_poke)

lemma bit_split: "i = k \<longleftrightarrow> i div 8 = k div 8 \<and> i mod 8 = k mod 8" for i k :: nat
  by (metis div_mod_decomp)

lemma byte_mask_at: "bit (byte_mask k) (7 - i mod 8) \<longleftrightarrow> i mod 8 = k mod 8"
proof -
  have "i mod 8 < 8" "k mod 8 < 8" by simp_all
  then show ?thesis unfolding byte_mask_bit by linarith
qed

lemma poke_ok [simp]: "bf_ok (poke j f bf) = bf_ok bf"
  by (simp add: bf_ok_def contents_poke)

lemma byte_in: "bf_ok bf \<Longrightarrow> k < m_size bf \<Longrightarrow> k div 8 < length (contents bf)"
  using byte_index [of k "m_size bf"] by (simp add: bf_ok_def)

lemma set_bit_at:
  assumes "bf_ok bf" "k < m_size bf"
  shows "bit_at (contents (bf_set_bit k bf)) i = (i = k \<or> bit_at (contents bf) i)"
  unfolding bf_set_bit_def bit_at_poke [OF byte_in [OF assms]] bit_or_iff byte_mask_at
  by (auto simp: bit_at_def bit_split [of i k])

lemma clear_bit_at:
  assumes "bf_ok bf" "k < m_size bf"
  shows "bit_at (contents (bf_clear_bit k bf)) i = (i \<noteq> k \<and> bit_at (contents bf) i)"
  unfolding bf_clear_bit_def bit_at_poke [OF byte_in [OF assms]] bit_and_iff bit_not_iff byte_mask_at
  by (auto simp: bit_at_def bit_split [of i k])

section \<open>Trailing bits\<close>

lemma last_byte: "n mod 8 \<noteq> 0 \<Longrightarrow> (n + 7) div 8 - 1 = n div 8 \<and> (n + 7) div 8 = n div 8 + 1" for n :: nat
proof -
  assume r: "n mod 8 \<noteq> 0"
  define a r where "a = n div 8" and "r = n mod 8"
  then have n: "n = 8 * a + r" "0 < r" "r < 8" using r by simp_all
  then have "(r + 7) div 8 = 1" by linarith
  moreover have "(n + 7) div 8 = a + (r + 7) div 8" unfolding n(1) by (simp add: add.assoc)
  ultimately show ?thesis by (simp add: a_def)
qed

lemma trailing_range: "n \<le> i \<and> i < 8 * ((n + 7) div 8) \<longleftrightarrow> n mod 8 \<noteq> 0 \<and> i div 8 = n div 8 \<and> n mod 8 \<le> i mod 8" for n i :: nat
proof -
  define a r b k where "a = n div 8" "r = n mod 8" "b = i div 8" "k = i mod 8"
  then have n: "n = 8 * a + r" "r < 8" and i: "i = 8 * b + k" "k < 8" by simp_all
  have "(n + 7) div 8 = (if r = 0 then a else a + 1)" using n by auto
  then have "n \<le> i \<and> i < 8 * ((n + 7) div 8) \<longleftrightarrow> r \<noteq> 0 \<and> b = a \<and> r \<le> k"
    using n i by (cases b a rule: linorder_cases) auto
  then show ?thesis by (simp add: a_r_b_k_def)
qed

lemma trailing_mask: "r \<le> 7 \<Longrightarrow> 0 < r \<Longrightarrow> k < 8 \<Longrightarrow> bit (push_bit (8 - r) (0xff :: uint8)) (7 - k) \<longleftrightarrow> k < r"
  unfolding bit_push_bit_iff bit_0xff by auto

lemma clear_trailing_fields [simp]: "m_size (clear_trailing_bits bf) = m_size bf" "m_own (clear_trailing_bits bf) = m_own bf"
  by (simp_all add: clear_trailing_bits_def)

lemma clear_trailing_ok [simp]: "bf_ok (clear_trailing_bits bf) = bf_ok bf"
  by (simp add: clear_trailing_bits_def)

lemma clear_trailing_at:
  assumes "bf_ok bf"
  shows "bit_at (contents (clear_trailing_bits bf)) i \<longleftrightarrow>
    bit_at (contents bf) i \<and> \<not> (m_size bf \<le> i \<and> i < 8 * ((m_size bf + 7) div 8))"
proof (cases "m_size bf mod 8 = 0")
  case True
  then show ?thesis unfolding trailing_range by (simp add: clear_trailing_bits_def)
next
  case False
  have lt: "m_size bf div 8 < length (contents bf)" using assms last_byte [OF False] by (simp add: bf_ok_def)
  have "m_size bf mod 8 < 8" by simp
  then have mk: "bit (push_bit (8 - m_size bf mod 8) (0xff :: uint8)) (7 - i mod 8) \<longleftrightarrow> i mod 8 < m_size bf mod 8"
    using False by (intro trailing_mask) auto
  have eq: "clear_trailing_bits bf = poke (m_size bf div 8) (\<lambda>w. w AND push_bit (8 - m_size bf mod 8) 0xff) bf"
    using False last_byte [OF False] by (simp add: clear_trailing_bits_def)
  show ?thesis unfolding eq trailing_range bit_at_poke [OF lt] bit_and_iff mk using False by (auto simp: bit_at_def)
qed

lemma clear_trailing_tidy: "bf_ok bf \<Longrightarrow> tidy (clear_trailing_bits bf)"
  by (simp add: tidy_def clear_trailing_at)

section \<open>Resizing\<close>

lemma length_malloc [simp]: "length (malloc junk b) = b"
  by (simp add: malloc_def)

lemma length_realloc [simp]: "length (realloc junk b bs) = b"
  by (simp add: realloc_def)

lemma length_memcpy [simp]: "n \<le> length src \<Longrightarrow> n \<le> length dst \<Longrightarrow> length (memcpy dst src n) = length dst"
  by (simp add: memcpy_def)

lemma nth_memcpy: "n \<le> length src \<Longrightarrow> i < n \<Longrightarrow> memcpy dst src n ! i = src ! i"
  by (simp add: memcpy_def nth_append)

lemma nth_realloc: "i < b \<Longrightarrow> i < length bs \<Longrightarrow> realloc junk b bs ! i = bs ! i"
  by (simp add: realloc_def nth_append)

text \<open>
  What \<open>resize\<close> allocates keeps the bytes both sizes need and is large enough.
\<close>

lemma resize_junk_ok:
  assumes "bf_ok bf"
  shows "m_size (resize_junk junk n bf) = n" "bf_ok (resize_junk junk n bf)" "tidy (resize_junk junk n bf)"
    "i < m_size bf \<Longrightarrow> i < n \<Longrightarrow> bit_at (contents (resize_junk junk n bf)) i = bit_at (contents bf) i"
    "tidy bf \<Longrightarrow> m_size bf \<le> i \<Longrightarrow> i < 8 * ((m_size bf + 7) div 8) \<Longrightarrow> i < n \<Longrightarrow> \<not> bit_at (contents (resize_junk junk n bf)) i"
proof -
  define b where "b = (n + 7) div 8"
  define bf1 where "bf1 = (case m_bytes bf of
             Some bs \<Rightarrow>
               if m_own bf then bf\<lparr>m_bytes := Some (realloc junk b bs), m_own := True\<rparr>
               else if m_size bf < n then
                 bf\<lparr>m_bytes := Some (memcpy (malloc junk b) bs (min ((m_size bf + 7) div 8) b)), m_own := True\<rparr>
               else bf
           | None \<Rightarrow>
               if 0 < n then bf\<lparr>m_bytes := Some (malloc junk b), m_own := True\<rparr> else bf)"
  have r: "resize_junk junk n bf = clear_trailing_bits (bf1\<lparr>m_size := n\<rparr>)"
    unfolding resize_junk_def Let_def bf1_def b_def by (rule refl)
  have c: "contents (bf1\<lparr>m_size := n\<rparr>) = contents bf1" by (simp add: contents_def)
  have len: "b \<le> length (contents bf1)"
    using assms by (auto simp: bf1_def contents_def bf_ok_def b_def memcpy_def split: option.split)
  have same: "contents bf1 ! j = contents bf ! j" if "j < (m_size bf + 7) div 8" "j < b" for j
    using assms that by (auto simp: bf1_def contents_def bf_ok_def nth_memcpy nth_realloc split: option.split)
  have ok: "bf_ok (bf1\<lparr>m_size := n\<rparr>)" using len by (simp add: bf_ok_def b_def c)
  show "m_size (resize_junk junk n bf) = n" "bf_ok (resize_junk junk n bf)" "tidy (resize_junk junk n bf)"
    using ok clear_trailing_tidy [OF ok] by (simp_all add: r)
  have old: "bit_at (contents (resize_junk junk n bf)) i = bit_at (contents bf) i" if "i < n" "i < 8 * ((m_size bf + 7) div 8)" for i
    using that same [of "i div 8"] byte_index [of i n] unfolding r clear_trailing_at [OF ok] c
    by (simp add: bit_at_def b_def div_less_iff_less_mult mult.commute)
  show "bit_at (contents (resize_junk junk n bf)) i = bit_at (contents bf) i" if "i < m_size bf" "i < n"
    by (rule old) (use that in linarith)+
  show "\<not> bit_at (contents (resize_junk junk n bf)) i" if "tidy bf" "m_size bf \<le> i" "i < 8 * ((m_size bf + 7) div 8)" "i < n"
    using old [OF that(4,3)] that by (simp add: tidy_def)
qed

lemma contents_None: "m_bytes bf = None \<Longrightarrow> contents bf = []"
  by (simp add: contents_def)

lemma contents_memset: "contents (memset i j v bf) = (if m_bytes bf = None then [] else take i (contents bf) @ replicate (j - i) v @ drop j (contents bf))"
  by (auto simp: contents_def memset_def)

lemma memset_fields [simp]: "m_size (memset i j v bf) = m_size bf" "m_own (memset i j v bf) = m_own bf"
  by (simp_all add: memset_def)

lemma memset_at:
  assumes "i \<le> j" "j \<le> length (contents bf)"
  shows "length (contents (memset i j v bf)) = length (contents bf)"
    "bit_at (contents (memset i j v bf)) k = (if i \<le> k div 8 \<and> k div 8 < j then bit v (7 - k mod 8) else bit_at (contents bf) k)"
proof -
  consider "m_bytes bf = None" "j = 0" "i = 0" | "m_bytes bf \<noteq> None"
    using assms by (cases "m_bytes bf") (auto simp: contents_def)
  then have "contents (memset i j v bf) = take i (contents bf) @ replicate (j - i) v @ drop j (contents bf)"
    by cases (auto simp: contents_memset contents_None)
  then show "length (contents (memset i j v bf)) = length (contents bf)"
    "bit_at (contents (memset i j v bf)) k = (if i \<le> k div 8 \<and> k div 8 < j then bit v (7 - k mod 8) else bit_at (contents bf) k)"
    using assms by (auto simp: bit_at_def nth_append)
qed

lemma bit_fill: "bit (0xff :: uint8) (7 - k) = True" "bit (0 :: uint8) (7 - k) = False"
  unfolding bit_0xff by simp_all

lemma drop_fill: "k < 8 \<Longrightarrow> bit (drop_bit r (0xff :: uint8)) (7 - k) \<longleftrightarrow> r \<le> k"
  unfolding bit_drop_bit_eq comp_def bit_0xff by auto

text \<open>The byte in which the old bits end is filled up from there.\<close>

lemma fill_last_byte:
  assumes "bf_ok bf" "s < m_size bf" "s mod 8 \<noteq> 0"
  shows "bit_at (contents (poke (s div 8) (\<lambda>w. w OR drop_bit (s mod 8) 0xff) bf)) k \<longleftrightarrow>
    bit_at (contents bf) k \<or> s \<le> k \<and> k < 8 * ((s + 7) div 8)"
proof -
  have "k mod 8 < 8" by simp
  then show ?thesis unfolding bit_at_poke [OF byte_in [OF assms(1,2)]] bit_or_iff drop_fill [OF \<open>k mod 8 < 8\<close>] trailing_range
    using assms(3) by (auto simp: bit_at_def)
qed

text \<open>
  \<open>resize(bits, val)\<close> on a tidy bitfield is \<open>resize\<close> of the list of its bits, whatever fresh memory
  holds.
\<close>

lemma resize_val_grow:
  assumes ok: "bf_ok bf" and n: "m_size bf = n" and s: "s < n" and pq: "p = (s + 7) div 8" "q = (n + 7) div 8"
    and bf2: "bf2 = (if p \<noteq> 0 \<and> s mod 8 \<noteq> 0 \<and> v then poke (p - 1) (\<lambda>w. w OR drop_bit (s mod 8) 0xff) bf else bf)"
    and bf3: "bf3 = (if p < q then memset p q (if v then 0xff else 0) bf2 else bf2)"
  shows "bf_ok bf3" "m_size bf3 = n"
    "k < 8 * q \<Longrightarrow> bit_at (contents bf3) k = (if 8 * p \<le> k then v else bit_at (contents bf) k \<or> v \<and> s \<le> k)"
proof -
  have le: "p \<le> q" "q \<le> length (contents bf)" using s ok n by (auto simp: pq bf_ok_def)
  have b2: "m_size bf2 = n" "length (contents bf2) = length (contents bf)" using n by (auto simp: bf2 contents_poke)
  have at2: "k < 8 * p \<Longrightarrow> bit_at (contents bf2) k = (bit_at (contents bf) k \<or> v \<and> s \<le> k)" for k
  proof (cases "s mod 8 = 0")
    case True
    then obtain a where "s = 8 * a" by (auto elim: dvdE)
    then have "8 * p = s" using pq by simp
    then show "k < 8 * p \<Longrightarrow> ?thesis" using True by (simp add: bf2)
  next
    case False
    have "p - 1 = s div 8" "p \<noteq> 0" using last_byte [OF False] pq by simp_all
    then show "k < 8 * p \<Longrightarrow> ?thesis" using False fill_last_byte [OF ok, of s k] s n pq by (simp add: bf2)
  qed
  note m = memset_at [OF le(1), of bf2 "if v then 0xff else 0"]
  have len: "length (contents bf3) = length (contents bf)" using m(1) b2 le by (simp add: bf3)
  then show "bf_ok bf3" "m_size bf3 = n" using ok n b2 by (simp_all add: bf_ok_def bf3)
  have fill: "bit (if v then 0xff else 0 :: uint8) (7 - k mod 8) = v" using bit_fill by simp
  have dk: "p \<le> k div 8 \<longleftrightarrow> 8 * p \<le> k" "k div 8 < q \<longleftrightarrow> k < 8 * q" by linarith+
  show "bit_at (contents bf3) k = (if 8 * p \<le> k then v else bit_at (contents bf) k \<or> v \<and> s \<le> k)" if "k < 8 * q"
  proof (cases "p < q")
    case True
    then show ?thesis using m(2) [of k] at2 [of k] b2(2) le(2) that unfolding bf3 fill dk by simp
  next
    case False
    then show ?thesis using at2 [of k] le(1) that by (simp add: bf3)
  qed
qed

lemma resize_val_ok:
  assumes ok: "bf_ok bf" and td: "tidy bf"
  shows "bits (resize_val junk n v bf) = resize n v (bits bf) \<and> bf_ok (resize_val junk n v bf) \<and> tidy (resize_val junk n v bf)"
proof -
  define bf1 where "bf1 = resize_junk junk n bf"
  define s where "s = m_size bf"
  note r = resize_junk_ok [OF ok, where junk = junk and n = n, folded bf1_def s_def]
  show ?thesis
  proof (cases "n \<le> s")
    case True
    then have "resize_val junk n v bf = bf1" using r(1) by (simp add: resize_val_def Let_def bf1_def s_def)
    moreover have "bits bf1 = take n (bits bf)"
      using r(1,4) True by (intro bits_eqI) (simp_all add: s_def [symmetric])
    ultimately show ?thesis using True r(2,3) by (simp add: resize_def s_def)
  next
    case False
    define p q where "p = (s + 7) div 8" and "q = (n + 7) div 8"
    define bf2 where "bf2 = (if p \<noteq> 0 \<and> s mod 8 \<noteq> 0 \<and> v then poke (p - 1) (\<lambda>w. w OR drop_bit (s mod 8) 0xff) bf1 else bf1)"
    define bf3 where "bf3 = (if p < q then memset p q (if v then 0xff else 0) bf2 else bf2)"
    have res: "resize_val junk n v bf = (if v then clear_trailing_bits bf3 else bf3)"
      using False r(1) by (auto simp: resize_val_def Let_def bf1_def [symmetric] s_def [symmetric] p_def [symmetric] q_def [symmetric] bf2_def bf3_def)
    have sn: "s < n" using False by simp
    note g = resize_val_grow [OF r(2,1) sn p_def q_def bf2_def bf3_def]
    have nq: "n \<le> 8 * q" by (simp add: q_def)
    have at: "bit_at (contents bf3) k = (if k < s then bits bf ! k else v)" if "k < n" for k
      using g(3) [of k] that nq r(4,5) [of k] td s_def by (auto simp: p_def)
    have "bits bf3 = resize n v (bits bf)"
      using g(2) at False by (intro bits_eqI) (auto simp: resize_def s_def [symmetric] nth_append)
    moreover have "bits (clear_trailing_bits bf3) = bits bf3"
      using g(1,2) by (intro bits_eqI) (auto simp: clear_trailing_at)
    moreover have "tidy bf3" if "\<not> v"
      using that r(1,3) g(2,3) unfolding tidy_def q_def by auto
    ultimately show ?thesis using g(1) clear_trailing_tidy [OF g(1)] unfolding res by auto
  qed
qed

section \<open>Filling and copying\<close>

lemma set_all_ok: "bf_ok bf \<Longrightarrow> bits (set_all bf) = replicate (m_size bf) True \<and> bf_ok (set_all bf) \<and> tidy (set_all bf)"
proof -
  assume ok: "bf_ok bf"
  define q where "q = (m_size bf + 7) div 8"
  define bf1 where "bf1 = memset 0 q 0xff bf"
  have m: "length (contents bf1) = length (contents bf)" "k < 8 * q \<Longrightarrow> bit_at (contents bf1) k" for k
    using memset_at [of 0 q bf "0xff"] ok bit_fill(1) unfolding bf1_def bf_ok_def q_def by (simp_all add: div_less_iff_less_mult mult.commute)
  have ok1: "bf_ok bf1" using ok m(1) by (simp add: bf_ok_def bf1_def)
  have e: "set_all bf = clear_trailing_bits bf1" and sz: "m_size bf1 = m_size bf" by (simp_all add: set_all_def bf1_def q_def)
  have "bits (set_all bf) = replicate (m_size bf) True"
    by (rule bits_eqI) (use m(2) in \<open>auto simp: e clear_trailing_at [OF ok1] sz q_def\<close>)
  then show ?thesis using ok1 clear_trailing_tidy [OF ok1] by (simp add: e)
qed

lemma clear_all_ok: "bf_ok bf \<Longrightarrow> bits (clear_all bf) = replicate (m_size bf) False \<and> bf_ok (clear_all bf) \<and> tidy (clear_all bf)"
proof -
  assume ok: "bf_ok bf"
  define q where "q = (m_size bf + 7) div 8"
  have m: "length (contents (clear_all bf)) = length (contents bf)" "k < 8 * q \<Longrightarrow> \<not> bit_at (contents (clear_all bf)) k" for k
    using memset_at [of 0 q bf "0"] ok unfolding clear_all_def bf_ok_def q_def by (simp_all add: div_less_iff_less_mult mult.commute)
  have "bits (clear_all bf) = replicate (m_size bf) False"
    by (rule bits_eqI) (use m(2) in \<open>auto simp: clear_all_def q_def\<close>)
  then show ?thesis using ok m by (auto simp: bf_ok_def tidy_def q_def clear_all_def)
qed

lemma assign_ok:
  assumes "bf_ok bf" "(n + 7) div 8 \<le> length b"
  shows "bits (bitfield_assign junk b n bf) = map (bit_at b) [0..<n] \<and> bf_ok (bitfield_assign junk b n bf) \<and> tidy (bitfield_assign junk b n bf)"
proof -
  define q where "q = (n + 7) div 8"
  define bf1 where "bf1 = resize_junk junk n bf"
  define bf2 where "bf2 = bf1\<lparr>m_bytes := map_option (\<lambda>dst. memcpy dst b q) (m_bytes bf1)\<rparr>"
  note r = resize_junk_ok [OF assms(1), where junk = junk and n = n, folded bf1_def]
  have c: "contents bf2 = (if m_bytes bf1 = None then [] else memcpy (contents bf1) b q)" by (auto simp: bf2_def contents_def)
  have le: "q \<le> length (contents bf1)" "q \<le> length b" using r(1,2) assms(2) by (simp_all add: bf_ok_def q_def)
  have none: "m_bytes bf1 = None \<Longrightarrow> q = 0" using le(1) by (auto simp: contents_def)
  have ok2: "bf_ok bf2" using r(1,2) none le by (auto simp: bf_ok_def c q_def) (simp add: bf2_def)+
  have e: "bitfield_assign junk b n bf = clear_trailing_bits bf2" by (simp add: bitfield_assign_def Let_def bf1_def bf2_def q_def)
  have sz: "m_size bf2 = n" using r(1) by (simp add: bf2_def)
  have "bit_at (contents bf2) i = bit_at b i" if "i < n" for i
    using that none le byte_index [OF that] by (auto simp: c bit_at_def q_def nth_memcpy)
  then have "bits (bitfield_assign junk b n bf) = map (bit_at b) [0..<n]"
    by (intro bits_eqI) (auto simp: e clear_trailing_at [OF ok2] sz)
  then show ?thesis using ok2 clear_trailing_tidy [OF ok2] by (simp add: e)
qed

section \<open>Counting\<close>

lemma foldl_add: "foldl (\<lambda>r i. r + f i) a xs = a + sum_list (map f xs)" for a :: nat
  by (induction xs arbitrary: a) simp_all

lemma sum_list_upt: "sum_list (map f [0..<n]) = sum f {..<n}" for f :: "nat \<Rightarrow> nat"
  by (induction n) simp_all

lemma num_bits_nibble: "n < 16 \<Longrightarrow> num_bits ! n = (\<Sum>k < 4. of_bool (bit n k))"
proof -
  assume "n < 16"
  then have "n \<in> {0, 1, 2, 3, 4, 5, 6, 7, 8, 9, 10, 11, 12, 13, 14, 15}" by (simp only: insert_iff empty_iff) presburger
  moreover have "(\<Sum>k < 4. of_bool (bit n k)) = of_bool (bit n 0) + of_bool (bit n 1) + of_bool (bit n 2) + (of_bool (bit n 3) :: nat)"
    by (simp add: eval_nat_numeral lessThan_Suc)
  ultimately show ?thesis by (elim insertE) (simp_all add: num_bits_def bit_iff_odd)
qed

lemma byte_count: "num_bits ! unat (w AND 0xf) + num_bits ! unat (drop_bit 4 w) = (\<Sum>k < 8. of_bool (bit w (7 - k)))" for w :: uint8
proof -
  have m: "(0xf :: uint8) = mask 4" by (simp add: mask_eq_exp_minus_1)
  have "unat (w AND mask 4) < 16"
    using word_and_le1 [of w "mask 4"] by (simp add: m [symmetric] word_le_nat_alt)
  moreover have "unat (drop_bit 4 w) < 16"
    using unsigned_less [of w, where 'a = nat] unsigned_drop_bit_eq [of 4 w, where 'a = nat] by (simp add: drop_bit_eq_div take_bit_eq_mod)
  moreover have "bit (unat (w AND mask 4)) k = bit w k" if "k < 4" for k
    using that by (simp add: bit_unsigned_iff bit_and_iff bit_mask_iff)
  moreover have "bit (unat (drop_bit 4 w)) k = bit w (k + 4)" for k
    by (simp add: bit_unsigned_iff bit_drop_bit_eq add.commute)
  ultimately have "num_bits ! unat (w AND mask 4) + num_bits ! unat (drop_bit 4 w)
      = (\<Sum>k < 4. of_bool (bit w k)) + (\<Sum>k < 4. of_bool (bit w (k + 4)))"
    by (simp add: num_bits_nibble)
  also have "\<dots> = (\<Sum>k < 8. of_bool (bit w (7 - k)))"
    by (simp add: eval_nat_numeral lessThan_Suc del: sum_of_bool_eq)
  finally show ?thesis by (simp only: m)
qed

lemma sum_bytes: "(\<Sum>i < m. \<Sum>k < 8. f (8 * i + k)) = (\<Sum>j < 8 * m. f j)" for f :: "nat \<Rightarrow> nat"
proof (induction m)
  case (Suc m)
  have "(\<Sum>j < 8 * m + 8. f j) = (\<Sum>j < 8 * m. f j) + (\<Sum>k < 8. f (8 * m + k))"
    by (simp add: sum.lessThan_Suc eval_nat_numeral)
  then show ?case using Suc by (simp add: add.commute)
qed simp

lemma bit_at_byte: "k < 8 \<Longrightarrow> bit_at bs (8 * i + k) = bit (bs ! i) (7 - k)"
  by (simp add: bit_at_def)

lemma low_bit: "unat (drop_bit k w AND 1) = of_bool (bit w k)" for w :: uint8
  by (simp add: and_one_eq mod_2_eq_odd bit_iff_odd_drop_bit)

lemma sum_bytes_rest: "(\<Sum>i < m. \<Sum>k < 8. f (8 * i + k)) + (\<Sum>k < r. f (8 * m + k)) = (\<Sum>j < 8 * m + r. f j)"
  for f :: "nat \<Rightarrow> nat"
  unfolding sum_bytes [of f m] by (induction r) simp_all

lemma bitfield_count_sum: "bitfield_count bf = (\<Sum>j < m_size bf. of_bool (bit_at (contents bf) j))"
proof -
  define f where "f j = (of_bool (bit_at (contents bf) j) :: nat)" for j
  have s: "8 * (m_size bf div 8) + m_size bf mod 8 = m_size bf" "m_size bf - m_size bf div 8 * 8 = m_size bf mod 8"
    using minus_div_mult_eq_mod [of "m_size bf" 8] by simp_all
  have byte: "of_bool (bit (contents bf ! i) (7 - k)) = f (8 * i + k)" if "k < 8" for i k
    using that by (simp add: f_def bit_at_byte)
  have "(\<Sum>k < 8. of_bool (bit (contents bf ! i) (7 - k))) = (\<Sum>k < 8. f (8 * i + k))" for i
    by (rule sum.cong [OF refl]) (simp add: byte)
  moreover have "(\<Sum>k < m_size bf mod 8. of_bool (bit (contents bf ! i) (7 - k))) = (\<Sum>k < m_size bf mod 8. f (8 * i + k))" for i
    by (rule sum.cong [OF refl]) (rule byte, use less_trans [OF _ mod_less_divisor [of 8 "m_size bf"]] in simp)
  ultimately have "bitfield_count bf = (\<Sum>j < 8 * (m_size bf div 8) + m_size bf mod 8. f j)"
    unfolding bitfield_count_def Let_def foldl_add byte_count low_bit s(2) sum_list_upt sum_bytes_rest [of f, symmetric] by (simp only: add_0_left)
  then show ?thesis unfolding s(1) f_def .
qed

lemma bitfield_count_bits: "bitfield_count bf = count_list (bits bf) True"
proof -
  have "count_list bs True = (\<Sum>j < length bs. of_bool (bs ! j))" for bs
    by (induction bs rule: rev_induct) (auto simp: nth_append simp del: sum_of_bool_eq intro!: sum.cong)
  then show ?thesis unfolding bitfield_count_sum by (simp del: sum_of_bool_eq)
qed

section \<open>Iterators\<close>

text \<open>\<open>iter_at i\<close> is the iterator on bit \<open>i\<close>.\<close>

definition iter_at :: "nat \<Rightarrow> const_iterator" where
  "iter_at i = const_iterator_new (i div 8) (i mod 8)"

lemma mask_one: "r < 8 \<Longrightarrow> drop_bit r (0x80 :: uint8) = 1 \<longleftrightarrow> r = 7"
  unfolding byte_eq_iff bit_drop_bit_eq comp_def bit_0x80 bit_1_iff by (auto dest!: spec [of _ 0])

lemma iter_inc_at: "iter_inc (iter_at i) = iter_at (i + 1)"
proof -
  have "i mod 8 < 8" by simp
  note m = mask_one [OF this]
  show ?thesis
  proof (cases "i mod 8 = 7")
    case True
    then have "(i + 1) div 8 = i div 8 + 1" "(i + 1) mod 8 = 0" by (simp_all add: div_Suc mod_Suc)
    then show ?thesis using True m by (simp add: iter_inc_def iter_at_def const_iterator_new_def)
  next
    case False
    then have "(i + 1) div 8 = i div 8" "(i + 1) mod 8 = i mod 8 + 1" by (simp_all add: div_Suc mod_Suc)
    then show ?thesis using False m by (simp add: iter_inc_def iter_at_def const_iterator_new_def drop_bit_drop_bit add.commute)
  qed
qed

lemma deref_iter_at: "deref bf (iter_at i) = get_bit i bf"
  by (simp add: deref_def iter_at_def const_iterator_new_def get_bit_def byte_mask_def)

lemma iter_range: "iter_begin bf = iter_at 0" "iter_end bf = iter_at (m_size bf)"
  by (simp_all add: iter_begin_def iter_end_def iter_at_def)

section \<open>The interface of a vector of bits\<close>

text \<open>
  What the pieces of a peer and of a transfer need of their bitfield: an abstraction to a list of
  flags that the operations update in place, and a count.
\<close>

locale bit_vector =
  fixes valid :: "'s \<Rightarrow> bool" and flags :: "'s \<Rightarrow> bool list"
    and get_flag :: "nat \<Rightarrow> 's \<Rightarrow> bool" and set_flag clear_flag :: "nat \<Rightarrow> 's \<Rightarrow> 's" and count_flags :: "'s \<Rightarrow> nat"
  assumes get_law: "valid s \<Longrightarrow> i < length (flags s) \<Longrightarrow> get_flag i s = flags s ! i"
    and set_law: "valid s \<Longrightarrow> i < length (flags s) \<Longrightarrow> valid (set_flag i s) \<and> flags (set_flag i s) = (flags s)[i := True]"
    and clear_law: "valid s \<Longrightarrow> i < length (flags s) \<Longrightarrow> valid (clear_flag i s) \<and> flags (clear_flag i s) = (flags s)[i := False]"
    and count_law: "valid s \<Longrightarrow> count_flags s = count_list (flags s) True"
begin

lemma get_set: "valid s \<Longrightarrow> i < length (flags s) \<Longrightarrow> j < length (flags s) \<Longrightarrow> get_flag j (set_flag i s) = (j = i \<or> get_flag j s)"
  by (simp add: set_law get_law nth_list_update)

lemma get_clear: "valid s \<Longrightarrow> i < length (flags s) \<Longrightarrow> j < length (flags s) \<Longrightarrow> get_flag j (clear_flag i s) = (j \<noteq> i \<and> get_flag j s)"
  by (simp add: clear_law get_law nth_list_update)

lemma count_le: "valid s \<Longrightarrow> count_flags s \<le> length (flags s)"
  by (simp add: count_law count_le_length)

lemma count_set: "valid s \<Longrightarrow> i < length (flags s) \<Longrightarrow> \<not> get_flag i s \<Longrightarrow> count_flags (set_flag i s) = count_flags s + 1"
proof -
  assume a: "valid s" "i < length (flags s)" "\<not> get_flag i s"
  have "count_list (xs[i := True]) True = count_list xs True + 1" if "i < length xs" "\<not> xs ! i" for xs
    using that by (induction xs arbitrary: i) (auto split: nat.split simp: nth_Cons')
  then show ?thesis using a by (simp add: set_law get_law count_law)
qed

lemma all_set:
  assumes "valid s"
  shows "count_flags s = length (flags s) \<longleftrightarrow> (\<forall>i < length (flags s). get_flag i s)"
proof -
  have "count_list xs True = length xs \<longleftrightarrow> (\<forall>i < length xs. xs ! i)" for xs
  proof (induction xs)
    case (Cons x xs)
    then show ?case using count_le_length [of xs True] by (cases x) (simp_all add: All_less_Suc2 le_Suc_eq)
  qed simp
  then show ?thesis using assms by (simp add: count_law get_law)
qed

text \<open>Flags that are set one by one, in any order, are exactly the flags set.\<close>

lemma set_many:
  "valid s \<Longrightarrow> \<forall>i \<in> set is. i < length (flags s) \<Longrightarrow> valid (fold set_flag is s) \<and>
    length (flags (fold set_flag is s)) = length (flags s) \<and>
    (\<forall>j < length (flags s). flags (fold set_flag is s) ! j = (j \<in> set is \<or> flags s ! j))"
proof (induction "is" arbitrary: s)
  case (Cons i "is")
  then have "valid (set_flag i s)" "flags (set_flag i s) = (flags s)[i := True]" by (simp_all add: set_law)
  then show ?case using Cons.IH [of "set_flag i s"] Cons.prems by (auto simp: nth_list_update)
qed simp

end

interpretation bf: bit_vector bf_ok bits get_bit bf_set_bit bf_clear_bit bitfield_count
proof unfold_locales
  fix s and i
  assume a: "bf_ok s" "i < length (bits s)"
  then show "get_bit i s = bits s ! i" by (simp add: get_bit_at)
  have "bf_ok (bf_set_bit i s)" "bf_ok (bf_clear_bit i s)" "m_size (bf_set_bit i s) = m_size s" "m_size (bf_clear_bit i s) = m_size s"
    using a(1) by (simp_all add: bf_set_bit_def bf_clear_bit_def)
  then show "bf_ok (bf_set_bit i s) \<and> bits (bf_set_bit i s) = (bits s)[i := True]"
    "bf_ok (bf_clear_bit i s) \<and> bits (bf_clear_bit i s) = (bits s)[i := False]"
    using a set_bit_at [OF a(1)] clear_bit_at [OF a(1)] by (auto simp: nth_list_update intro!: bits_eqI split: if_splits)
qed (rule bitfield_count_bits)

section \<open>Traversal\<close>

text \<open>
  The loop over a bitfield, \<open>for (i = begin(); i != end(); ++i)\<close>, with a bound on its rounds; it is
  \<open>None\<close> when the bound is reached first.
\<close>

fun traverse :: "nat \<Rightarrow> bitfield \<Rightarrow> const_iterator \<Rightarrow> bool list option" where
  "traverse fuel bf i =
    (if i = iter_end bf then Some []
     else case fuel of 0 \<Rightarrow> None | Suc n \<Rightarrow> map_option ((#) (deref bf i)) (traverse n bf (iter_inc i)))"

declare traverse.simps [simp del]

lemma iter_at_inj: "iter_at i = iter_at j \<longleftrightarrow> i = j"
proof -
  have "drop_bit r (0x80 :: uint8) = drop_bit r' 0x80 \<longleftrightarrow> r = r'" if "r < 8" "r' < 8" for r r' :: nat
    unfolding byte_eq_iff bit_drop_bit_eq comp_def bit_0x80 using that by (auto dest!: spec [of _ "7 - r"])
  then show ?thesis by (simp add: iter_at_def const_iterator_new_def bit_split [of i j])
qed

lemma traverse_from: "i \<le> m_size bf \<Longrightarrow> m_size bf - i \<le> fuel \<Longrightarrow> traverse fuel bf (iter_at i) = Some (drop i (bits bf))"
proof (induction fuel arbitrary: i)
  case (Suc n)
  show ?case
  proof (cases "i = m_size bf")
    case False
    then have "drop i (bits bf) = get_bit i bf # drop (i + 1) (bits bf)"
      using Suc.prems(1) by (simp add: Cons_nth_drop_Suc [symmetric] get_bit_at)
    then show ?thesis using Suc False
      by (subst traverse.simps) (simp add: iter_range iter_at_inj iter_inc_at deref_iter_at)
  qed (simp add: traverse.simps iter_range)
qed (simp add: traverse.simps iter_range)

section \<open>Bitfields in use\<close>

text \<open>
  The bitfields that exist when no memory is borrowed: made empty and changed by any operations.
\<close>

inductive built :: "bitfield \<Rightarrow> bool" where
  built_new: "built bitfield_new"
| built_resize: "built bf \<Longrightarrow> built (resize_junk junk n bf)"
| built_resize_val: "built bf \<Longrightarrow> built (resize_val junk n v bf)"
| built_assign: "built bf \<Longrightarrow> (n + 7) div 8 \<le> length b \<Longrightarrow> built (bitfield_assign junk b n bf)"
| built_copy: "built bf \<Longrightarrow> built rhs \<Longrightarrow> built (bitfield_copy junk rhs bf)"
| built_set: "built bf \<Longrightarrow> i < m_size bf \<Longrightarrow> built (bf_set_bit i bf)"
| built_clear: "built bf \<Longrightarrow> i < m_size bf \<Longrightarrow> built (bf_clear_bit i bf)"
| built_set_all: "built bf \<Longrightarrow> built (set_all bf)"
| built_clear_all: "built bf \<Longrightarrow> built (clear_all bf)"
| built_free: "built bf \<Longrightarrow> built (bitfield_free bf)"

lemma empty_ok: "m_size bf = 0 \<Longrightarrow> bf_ok bf \<and> tidy bf"
  by (simp add: bf_ok_def tidy_def)

lemma built_ok: "built bf \<Longrightarrow> bf_ok bf \<and> tidy bf"
proof (induction rule: built.induct)
  case (built_set bf i)
  then show ?case using bf.set_law [of bf i] set_bit_at [of bf i] by (auto simp: tidy_def bf_set_bit_def)
next
  case (built_clear bf i)
  then show ?case using bf.clear_law [of bf i] clear_bit_at [of bf i] by (auto simp: tidy_def bf_clear_bit_def)
next
  case (built_copy bf rhs junk)
  then show ?case using assign_ok [of bf "m_size rhs" "contents rhs" junk] by (simp add: bitfield_copy_def bf_ok_def)
qed (simp_all add: resize_junk_ok resize_val_ok assign_ok set_all_ok clear_all_ok empty_ok bitfield_new_def bitfield_free_def)

section \<open>Properties\<close>

definition demo_bits :: bitfield where
  "demo_bits = resize_val (\<lambda>i. 0xAA) 10 False bitfield_new"

lemma demo_built: "built demo_bits" "m_size demo_bits = 10"
proof -
  show b: "built demo_bits" unfolding demo_bits_def by (intro built.intros)
  have "bits demo_bits = resize 10 False (bits bitfield_new)"
    using resize_val_ok [of bitfield_new] by (simp add: demo_bits_def empty_ok bitfield_new_def)
  then have "length (bits demo_bits) = 10" by simp
  then show "m_size demo_bits = 10" by simp
qed

text \<open>
  C10. \<open>resize(bits, val)\<close> of a bitfield on its own memory is \<open>std::vector::resize\<close> on the list of its
  bits: the old bits stay, new ones are \<open>val\<close>, whatever the allocated memory held before.
\<close>

theorem bitfield_resize:
  assumes "built bf"
  shows "bits (resize_val junk n v bf) = resize n v (bits bf)"
  using resize_val_ok built_ok [OF assms] by blast

theorem bitfield_resize_witness: "built demo_bits \<and> bits (resize_val (\<lambda>i. 0x55) 13 True demo_bits) = resize 13 True (bits demo_bits)"
  using bitfield_resize [OF demo_built(1)] demo_built(1) by blast

text \<open>
  C31. \<open>set_bit\<close> and \<open>clear_bit\<close> change exactly the bit they name, and \<open>count\<close>, which looks nibbles up in
  a table, is the number of bits that are set; it equals the size exactly when every bit is set.
\<close>

theorem bitfield_updates:
  assumes "built bf" "i < m_size bf"
  shows "bits (bf_set_bit i bf) = (bits bf)[i := True] \<and> bits (bf_clear_bit i bf) = (bits bf)[i := False]
    \<and> bitfield_count bf = count_list (bits bf) True \<and> (bitfield_count bf = m_size bf \<longleftrightarrow> (\<forall>j < m_size bf. get_bit j bf))"
  using assms(2) built_ok [OF assms(1)] bf.set_law [of bf i] bf.clear_law [of bf i] bf.count_law [of bf] bf.all_set [of bf] by simp

theorem bitfield_updates_witness:
  "built demo_bits \<and> 2 < m_size demo_bits \<and> bits (bf_set_bit 2 demo_bits) = (bits demo_bits)[2 := True]"
  using bitfield_updates [OF demo_built(1), of 2] demo_built by simp

text \<open>
  C32. Copying a bitfield through its bytes (the copy constructor and the assignment) gives the same
  bits, into whatever bitfield the copy goes.
\<close>

theorem bitfield_copy_roundtrip:
  assumes "built rhs" "built bf"
  shows "bits (bitfield_copy junk rhs bf) = bits rhs"
  using assign_ok [of bf "m_size rhs" "contents rhs" junk] built_ok [OF assms(1)] built_ok [OF assms(2)]
  by (simp add: bitfield_copy_def bf_ok_def bits_def get_bit_at)

theorem bitfield_copy_roundtrip_witness:
  "built demo_bits \<and> bits (bitfield_copy (\<lambda>i. 0x0F) (bf_set_bit 3 demo_bits) demo_bits) = bits (bf_set_bit 3 demo_bits)"
  using bitfield_copy_roundtrip [OF built_set [of demo_bits 3] demo_built(1)] demo_built by simp

text \<open>
  C33. The loop from \<open>begin()\<close> to \<open>end()\<close> ends after as many rounds as there are bits and sees the bits
  in their order.
\<close>

theorem bitfield_traverse:
  assumes "m_size bf \<le> fuel"
  shows "traverse fuel bf (iter_begin bf) = Some (bits bf)"
  using traverse_from [of 0 bf fuel] assms by (simp add: iter_range)

theorem bitfield_traverse_witness: "traverse 10 demo_bits (iter_begin demo_bits) = Some (bits demo_bits)"
  using bitfield_traverse [of demo_bits 10] demo_built by simp


end
