(* ===== verification/Wire.thy ===== *)
theory Wire
  imports Ed2k_Prelude
begin

text \<open>
  The archives of \<open>archive.hpp\<close>: values are written to a list of bytes and read from one, in the
  byte order of a little-endian host; a read beyond the end of the stream throws. An interface,
  the locale \<open>codec\<close>, states what the saving and the loading half of a structure promise each
  other; the structures of the protocol interpret it.
\<close>

section \<open>Errors and readers\<close>

datatype wire_error =
    unexpected_istream_error
  | invalid_tag_type
  | blob_tag_too_long
  | incompatible_tag_getter
  | decode_packet_error
  | invalid_protocol_type
  | unsupported_udp_res1_type
  | unsupported_udp_res2_type
  | unsupported_kad_packed_type
  | invalid_packet_size

type_synonym bytes = "uint8 list"
type_synonym 'a reader = "bytes \<Rightarrow> wire_error + 'a \<times> bytes"

definition return :: "'a \<Rightarrow> 'a reader" where
  "return x bs = Inr (x, bs)"

definition fail :: "wire_error \<Rightarrow> 'a reader" where
  "fail e bs = Inl e"

definition andThen :: "'a reader \<Rightarrow> ('a \<Rightarrow> 'b reader) \<Rightarrow> 'b reader" where
  "andThen p f bs = (case p bs of Inl e \<Rightarrow> Inl e | Inr (x, rest) \<Rightarrow> f x rest)"

definition raw_read :: "nat \<Rightarrow> bytes reader" where
  "raw_read nSize bs = (if nSize \<le> length bs then Inr (take nSize bs, drop nSize bs) else Inl unexpected_istream_error)"

text \<open>\<open>seekg(n, cur)\<close> followed by the test of the stream's state.\<close>

definition seek :: "wire_error \<Rightarrow> nat \<Rightarrow> unit reader" where
  "seek e n bs = (if n \<le> length bs then Inr ((), drop n bs) else Inl e)"

section \<open>Integers\<close>

definition put_word :: "nat \<Rightarrow> 'a::len word \<Rightarrow> bytes" where
  "put_word n w = map (\<lambda>i. ucast (drop_bit (8 * i) w)) [0..<n]"

primrec of_bytes :: "bytes \<Rightarrow> 'a::len word" where
  "of_bytes [] = 0"
| "of_bytes (b # bs) = ucast b OR push_bit 8 (of_bytes bs)"

definition get_word :: "nat \<Rightarrow> 'a::len word reader" where
  "get_word n = andThen (raw_read n) (\<lambda>bs. return (of_bytes bs))"

section \<open>Strings and containers\<close>

text \<open>A string is read into a buffer of the size it was given; an empty one reads nothing.\<close>

definition get_string :: "nat \<Rightarrow> bytes reader" where
  "get_string nSize = (if nSize \<noteq> 0 then raw_read nSize else return [])"

primrec get_many :: "'a reader \<Rightarrow> nat \<Rightarrow> 'a list reader" where
  "get_many g 0 = return []"
| "get_many g (Suc n) = andThen g (\<lambda>x. andThen (get_many g n) (\<lambda>xs. return (x # xs)))"

definition put_many :: "('a \<Rightarrow> bytes) \<Rightarrow> 'a list \<Rightarrow> bytes" where
  "put_many p xs = concat (map p xs)"

section \<open>Facts on readers\<close>

named_theorems reader_simps \<open>running readers\<close>

lemma andThen_simps [reader_simps]:
  "p bs = Inl e \<Longrightarrow> andThen p f bs = Inl e"
  "p bs = Inr (x, rest) \<Longrightarrow> andThen p f bs = f x rest"
  by (simp_all add: andThen_def)

lemma andThen_Inr: "andThen p f bs = Inr y \<longleftrightarrow> (\<exists>x rest. p bs = Inr (x, rest) \<and> f x rest = Inr y)"
  by (auto simp: andThen_def split: sum.split)

lemma return_app [reader_simps]: "return x bs = Inr (x, bs)"
  by (simp add: return_def)

lemma fail_app [reader_simps]: "fail e bs = Inl e"
  by (simp add: fail_def)

lemma raw_read_append [reader_simps]: "length u = n \<Longrightarrow> raw_read n (u @ rest) = Inr (u, rest)"
  by (simp add: raw_read_def)

lemma seek_append [reader_simps]: "length u = n \<Longrightarrow> seek e n (u @ rest) = Inr ((), rest)"
  by (simp add: seek_def)

lemma get_string_append [reader_simps]: "length u = n \<Longrightarrow> get_string n (u @ rest) = Inr (u, rest)"
  by (auto simp: get_string_def raw_read_append return_app)

text \<open>
  A reader is local when what it reads does not depend on what follows it in the stream.
\<close>

definition local_reader :: "'a reader \<Rightarrow> bool" where
  "local_reader g \<longleftrightarrow> (\<forall>u x r s. g u = Inr (x, r) \<longrightarrow> g (u @ s) = Inr (x, r @ s))"

named_theorems local_intros \<open>readers that do not look ahead\<close>

lemma local_readerD: "local_reader g \<Longrightarrow> g u = Inr (x, r) \<Longrightarrow> g (u @ s) = Inr (x, r @ s)"
  by (simp add: local_reader_def)

lemma local_return [local_intros]: "local_reader (return x)"
  by (simp add: local_reader_def return_def)

lemma local_fail [local_intros]: "local_reader (fail e)"
  by (simp add: local_reader_def fail_def)

lemma local_raw_read [local_intros]: "local_reader (raw_read n)"
  by (auto simp: local_reader_def raw_read_def split: if_splits)

lemma local_seek [local_intros]: "local_reader (seek e n)"
  by (auto simp: local_reader_def seek_def split: if_splits)

lemma local_get_string [local_intros]: "local_reader (get_string n)"
  by (simp add: get_string_def local_raw_read local_return)

lemma local_andThen [local_intros]: "local_reader p \<Longrightarrow> (\<And>x. local_reader (f x)) \<Longrightarrow> local_reader (andThen p f)"
  unfolding local_reader_def andThen_Inr by blast

lemma local_if [local_intros]: "(c \<Longrightarrow> local_reader p) \<Longrightarrow> (\<not> c \<Longrightarrow> local_reader q) \<Longrightarrow> local_reader (if c then p else q)"
  by simp

lemma local_get_many [local_intros]: "local_reader g \<Longrightarrow> local_reader (get_many g n)"
  by (induction n) (simp_all add: local_intros)

lemma local_get_word [local_intros]: "local_reader (get_word n)"
  unfolding get_word_def by (intro local_intros)

section \<open>Words as bytes\<close>

lemma length_put_word [simp]: "length (put_word n w) = n"
  by (simp add: put_word_def)

lemma bit_of_bytes: "bit (of_bytes bs :: 'a::len word) k \<longleftrightarrow> k < LENGTH('a) \<and> k div 8 < length bs \<and> bit (bs ! (k div 8)) (k mod 8)"
proof (induction bs arbitrary: k)
  case (Cons b bs)
  show ?case
  proof (cases "k < 8")
    case True
    then show ?thesis using Cons by (auto simp: bit_or_iff bit_push_bit_iff bit_ucast_iff dest: bit_imp_le_length)
  next
    case False
    then have "k div 8 = Suc ((k - 8) div 8)" "(k - 8) mod 8 = k mod 8" by (simp_all add: le_div_geq le_mod_geq)
    moreover have "\<not> bit b k" using False bit_imp_le_length [of b k] by auto
    ultimately show ?thesis using Cons [of "k - 8"] False
      by (auto simp: bit_or_iff bit_push_bit_iff bit_ucast_iff)
  qed
qed simp

lemma of_bytes_put_word: "8 * n = LENGTH('a) \<Longrightarrow> of_bytes (put_word n w) = (w :: 'a::len word)"
  by (rule bit_eqI) (auto simp: bit_of_bytes put_word_def bit_ucast_iff bit_drop_bit_eq)

lemma get_put_word [reader_simps]: "8 * n = LENGTH('a) \<Longrightarrow> get_word n (put_word n w @ rest) = Inr (w :: 'a::len word, rest)"
  by (simp add: get_word_def reader_simps of_bytes_put_word)

section \<open>The interface of a structure on the wire\<close>

text \<open>
  \<open>put\<close> and \<open>get\<close> are the saving and the loading half of a structure, \<open>valid\<close> the values the protocol
  can carry and \<open>norm\<close> the value the other side gets. The client lemmas: two streams that begin
  with the same bytes carry the same value, every cut of an encoding is refused, and the laws go
  over to sequences.
\<close>

locale codec =
  fixes put :: "'a \<Rightarrow> bytes" and get :: "'a reader" and valid :: "'a \<Rightarrow> bool" and norm :: "'a \<Rightarrow> 'a"
  assumes round: "valid x \<Longrightarrow> get (put x @ rest) = Inr (norm x, rest)"
    and local: "local_reader get"
begin

lemma unique: "valid x \<Longrightarrow> valid y \<Longrightarrow> put x @ r = put y @ s \<Longrightarrow> norm x = norm y \<and> r = s"
  using round [of x r] round [of y s] by simp

lemma truncated:
  assumes "valid x" "put x = u @ s" "s \<noteq> []"
  shows "\<exists>e. get u = Inl e"
proof (cases "get u")
  case (Inr p)
  obtain y r where p: "p = (y, r)" by (cases p)
  have "get (u @ s) = Inr (y, r @ s)" using local_readerD [OF local] Inr p by blast
  moreover have "get (u @ s) = Inr (norm x, [])" using round [OF assms(1), of "[]"] assms(2) by simp
  ultimately show ?thesis using assms(3) by simp
qed simp

lemma round_many: "\<forall>x \<in> set xs. valid x \<Longrightarrow> get_many get (length xs) (put_many put xs @ rest) = Inr (map norm xs, rest)"
  by (induction xs) (simp_all add: put_many_def reader_simps round)

end

lemmas codecI = codec.intro

text \<open>Integers are a codec for each of their widths.\<close>

interpretation u8: codec "put_word 1 :: uint8 \<Rightarrow> bytes" "get_word 1" "\<lambda>x. True" "\<lambda>x. x"
  by (rule codecI) (simp_all add: reader_simps local_intros)

interpretation u16: codec "put_word 2 :: uint16 \<Rightarrow> bytes" "get_word 2" "\<lambda>x. True" "\<lambda>x. x"
  by (rule codecI) (simp_all add: reader_simps local_intros)

interpretation u32: codec "put_word 4 :: uint32 \<Rightarrow> bytes" "get_word 4" "\<lambda>x. True" "\<lambda>x. x"
  by (rule codecI) (simp_all add: reader_simps local_intros)

interpretation u64: codec "put_word 8 :: 64 word \<Rightarrow> bytes" "get_word 8" "\<lambda>x. True" "\<lambda>x. x"
  by (rule codecI) (simp_all add: reader_simps local_intros)

text \<open>The counters in front of sequences: \<open>size_type\<close> is one, two or four bytes wide.\<close>

definition put_size :: "nat \<Rightarrow> nat \<Rightarrow> bytes" where
  "put_size width n = put_word width (of_nat n :: 64 word)"

definition get_size :: "nat \<Rightarrow> nat reader" where
  "get_size width = andThen (raw_read width) (\<lambda>bs. return (unat (of_bytes bs :: 64 word)))"

lemma local_get_size [local_intros]: "local_reader (get_size w)"
  unfolding get_size_def by (intro local_intros)

lemma get_put_size [reader_simps]:
  assumes "n < 2 ^ (8 * w)" "w \<le> 8"
  shows "get_size w (put_size w n @ rest) = Inr (n, rest)"
proof -
  define x :: "64 word" where "x = of_nat n"
  have "(2::nat) ^ (8 * w) \<le> 2 ^ 64" using assms(2) by (intro power_increasing) simp_all
  then have x: "unat x = n" using assms(1) by (simp add: x_def unat_of_nat take_bit_nat_eq_self)
  have "of_bytes (put_word w x) = x"
  proof (rule bit_eqI)
    fix k
    have "\<not> bit x k" if "8 * w \<le> k"
    proof -
      have "n < 2 ^ k" using assms(1) that by (meson order_less_le_trans power_increasing one_le_numeral)
      then have "\<not> bit (unat x) k" by (simp add: x bit_iff_odd)
      then show ?thesis by (auto simp: bit_unsigned_iff dest: bit_imp_le_length)
    qed
    moreover have "k div 8 < w \<longleftrightarrow> k < 8 * w" by linarith
    ultimately show "bit (of_bytes (put_word w x) :: 64 word) k = bit x k"
      using bit_imp_le_length [of x k] by (cases "k < 8 * w") (auto simp: bit_of_bytes put_word_def bit_ucast_iff bit_drop_bit_eq)
  qed
  then show ?thesis by (simp add: get_size_def put_size_def reader_simps x flip: x_def)
qed

section \<open>Containers\<close>

definition BLOCK_SIZE :: nat where
  "BLOCK_SIZE = 256 * 1024"

definition MAX_ED2K_PACKET_LEN :: nat where
  "MAX_ED2K_PACKET_LEN = 2 * BLOCK_SIZE"

definition MAX_COLLECTION_SIZE :: nat where
  "MAX_COLLECTION_SIZE = BLOCK_SIZE"

text \<open>\<open>container_holder<size_type, collection_type>\<close>, \<open>width\<close> being the size of \<open>size_type\<close>.\<close>

definition put_holder :: "nat \<Rightarrow> ('a \<Rightarrow> bytes) \<Rightarrow> 'a list \<Rightarrow> bytes" where
  "put_holder width p xs = put_size width (length xs) @ put_many p xs"

definition get_holder :: "nat \<Rightarrow> 'a reader \<Rightarrow> 'a list reader" where
  "get_holder width g = andThen (get_size width) (\<lambda>m_size.
    if MAX_COLLECTION_SIZE < m_size then fail decode_packet_error else get_many g m_size)"

definition holder_wf :: "nat \<Rightarrow> ('a \<Rightarrow> bool) \<Rightarrow> 'a list \<Rightarrow> bool" where
  "holder_wf width valid xs \<longleftrightarrow> length xs < 2 ^ (8 * width) \<and> length xs \<le> MAX_COLLECTION_SIZE \<and> list_all valid xs"

lemma local_get_holder [local_intros]: "local_reader g \<Longrightarrow> local_reader (get_holder w g)"
  unfolding get_holder_def by (intro local_intros)

context codec
begin

lemma holder: "w \<le> 8 \<Longrightarrow> codec (put_holder w put) (get_holder w get) (holder_wf w valid) (map norm)"
  by (rule codecI)
    (simp_all add: put_holder_def get_holder_def holder_wf_def reader_simps round_many list_all_iff local_intros local)

end

text \<open>Hashes are sixteen bytes, saved and loaded one by one.\<close>

definition put_hash :: "bytes \<Rightarrow> bytes" where
  "put_hash h = put_many (put_word 1) h"

definition get_hash :: "bytes reader" where
  "get_hash = get_many (get_word 1) 16"

definition hash_wf :: "bytes \<Rightarrow> bool" where
  "hash_wf h \<longleftrightarrow> length h = 16"

interpretation md4: codec put_hash get_hash hash_wf "\<lambda>h. h"
proof (rule codecI)
  fix x rest
  assume "hash_wf x"
  then show "get_hash (put_hash x @ rest) = Inr (x, rest)"
    using u8.round_many [of x rest] by (simp add: get_hash_def put_hash_def hash_wf_def)
qed (simp add: get_hash_def local_intros)

text \<open>Length-prefixed strings, \<open>container_holder<size_type, std::string>\<close>.\<close>

interpretation str16: codec "put_holder 2 (put_word 1 :: uint8 \<Rightarrow> bytes)" "get_holder 2 (get_word 1)" "holder_wf 2 (\<lambda>x. True)" "map (\<lambda>x. x)"
  by (rule u8.holder) simp

interpretation str32: codec "put_holder 4 (put_word 1 :: uint8 \<Rightarrow> bytes)" "get_holder 4 (get_word 1)" "holder_wf 4 (\<lambda>x. True)" "map (\<lambda>x. x)"
  by (rule u8.holder) simp

end
