(* ===== verification/Ctag.thy ===== *)
theory Ctag
  imports Wire
begin

text \<open>
  The tags of \<open>ctag.hpp\<close> and \<open>ctag.cpp\<close>: named values of a few types that most messages carry in
  lists, with their two header formats, the compressed strings and the skipped kinds.
\<close>

section \<open>Tags\<close>

abbreviation (input) TAGTYPE_HASH16 :: uint8 where "TAGTYPE_HASH16 \<equiv> 0x01"
abbreviation (input) TAGTYPE_STRING :: uint8 where "TAGTYPE_STRING \<equiv> 0x02"
abbreviation (input) TAGTYPE_UINT32 :: uint8 where "TAGTYPE_UINT32 \<equiv> 0x03"
abbreviation (input) TAGTYPE_FLOAT32 :: uint8 where "TAGTYPE_FLOAT32 \<equiv> 0x04"
abbreviation (input) TAGTYPE_BOOL :: uint8 where "TAGTYPE_BOOL \<equiv> 0x05"
abbreviation (input) TAGTYPE_BOOLARRAY :: uint8 where "TAGTYPE_BOOLARRAY \<equiv> 0x06"
abbreviation (input) TAGTYPE_BLOB :: uint8 where "TAGTYPE_BLOB \<equiv> 0x07"
abbreviation (input) TAGTYPE_UINT16 :: uint8 where "TAGTYPE_UINT16 \<equiv> 0x08"
abbreviation (input) TAGTYPE_UINT8 :: uint8 where "TAGTYPE_UINT8 \<equiv> 0x09"
abbreviation (input) TAGTYPE_BSOB :: uint8 where "TAGTYPE_BSOB \<equiv> 0x0A"
abbreviation (input) TAGTYPE_UINT64 :: uint8 where "TAGTYPE_UINT64 \<equiv> 0x0B"
abbreviation (input) TAGTYPE_STR1 :: uint8 where "TAGTYPE_STR1 \<equiv> 0x11"
abbreviation (input) TAGTYPE_STR16 :: uint8 where "TAGTYPE_STR16 \<equiv> 0x20"
abbreviation (input) TAGTYPE_STR22 :: uint8 where "TAGTYPE_STR22 \<equiv> 0x26"

text \<open>
  One constructor for each instance of \<open>typed_tag\<close>, one for \<open>string_tag\<close> with its \<open>m_type\<close> and one for
  \<open>array_tag\<close>. A float is its bit pattern, a bool the byte it occupies.
\<close>

datatype tag_value =
    Uint64 "64 word" | Uint32 uint32 | Uint16 uint16 | Uint8 uint8
  | Float32 uint32 | Boolean uint8 | Hash bytes
  | Str uint8 bytes
  | Blob bytes

record tag =
  m_strName :: bytes
  m_nNameId :: uint8
  m_bNewED2K :: bool
  m_value :: tag_value

fun getType :: "tag_value \<Rightarrow> uint8" where
  "getType (Uint64 w) = TAGTYPE_UINT64"
| "getType (Uint32 w) = TAGTYPE_UINT32"
| "getType (Uint16 w) = TAGTYPE_UINT16"
| "getType (Uint8 w) = TAGTYPE_UINT8"
| "getType (Float32 w) = TAGTYPE_FLOAT32"
| "getType (Boolean w) = TAGTYPE_BOOL"
| "getType (Hash h) = TAGTYPE_HASH16"
| "getType (Str ty s) = ty"
| "getType (Blob v) = TAGTYPE_BLOB"


definition length2type :: "bytes \<Rightarrow> uint8" where
  "length2type s = (if 1 \<le> length s \<and> length s \<le> 16 then TAGTYPE_STR1 + of_nat (length s) - 1 else TAGTYPE_STRING)"

definition make_string_tag :: "bytes \<Rightarrow> uint8 \<Rightarrow> bool \<Rightarrow> tag" where
  "make_string_tag s nNameId new =
    \<lparr>m_strName = [], m_nNameId = nNameId, m_bNewED2K = new, m_value = Str (if new then length2type s else TAGTYPE_STRING) s\<rparr>"

definition make_named_string_tag :: "bytes \<Rightarrow> bytes \<Rightarrow> bool \<Rightarrow> tag" where
  "make_named_string_tag s name new =
    \<lparr>m_strName = name, m_nNameId = 0, m_bNewED2K = new, m_value = Str (if new then length2type s else TAGTYPE_STRING) s\<rparr>"

definition make_tag :: "tag_value \<Rightarrow> uint8 \<Rightarrow> bool \<Rightarrow> tag" where
  "make_tag v nNameId new = \<lparr>m_strName = [], m_nNameId = nNameId, m_bNewED2K = new, m_value = v\<rparr>"

definition make_named_tag :: "tag_value \<Rightarrow> bytes \<Rightarrow> bool \<Rightarrow> tag" where
  "make_named_tag v name new = \<lparr>m_strName = name, m_nNameId = 0, m_bNewED2K = new, m_value = v\<rparr>"

definition is_string_tag :: "tag \<Rightarrow> bool" where
  "is_string_tag t \<longleftrightarrow> getType (m_value t) = TAGTYPE_STRING \<or>
     TAGTYPE_STR1 \<le> getType (m_value t) \<and> getType (m_value t) \<le> TAGTYPE_STR22"

definition is_int_tag :: "tag \<Rightarrow> bool" where
  "is_int_tag t \<longleftrightarrow> getType (m_value t) = TAGTYPE_UINT8 \<or> getType (m_value t) = TAGTYPE_UINT16 \<or>
     getType (m_value t) = TAGTYPE_UINT32 \<or> getType (m_value t) = TAGTYPE_UINT64"

section \<open>Saving\<close>

definition base_tag_save :: "tag \<Rightarrow> bytes" where
  "base_tag_save t =
    (let nType = getType (m_value t)
     in if m_strName t = [] then
          (if m_bNewED2K t then put_word 1 (nType OR 0x80) else put_word 1 nType @ put_word 2 (1 :: uint16)) @ put_word 1 (m_nNameId t)
        else put_word 1 nType @ put_size 2 (length (m_strName t)) @ m_strName t)"

fun value_save :: "tag_value \<Rightarrow> bytes" where
  "value_save (Uint64 w) = put_word 8 w"
| "value_save (Uint32 w) = put_word 4 w"
| "value_save (Uint16 w) = put_word 2 w"
| "value_save (Uint8 w) = put_word 1 w"
| "value_save (Float32 w) = put_word 4 w"
| "value_save (Boolean w) = put_word 1 w"
| "value_save (Hash h) = put_hash h"
| "value_save (Str ty s) = (if ty = TAGTYPE_STRING then put_size 2 (length s) else []) @ s"
| "value_save (Blob v) = put_size 4 (length v) @ v"

definition tag_save :: "tag \<Rightarrow> bytes" where
  "tag_save t = base_tag_save t @ value_save (m_value t)"

definition tag_list_save :: "nat \<Rightarrow> tag list \<Rightarrow> bytes" where
  "tag_list_save width ts = put_size width (length ts) @ put_many tag_save ts"

section \<open>Loading\<close>

definition bom_filter :: "bytes \<Rightarrow> bytes" where
  "bom_filter s = (if 3 \<le> length s \<and> take 3 s = [0xEF, 0xBB, 0xBF] then drop 3 s else s)"

definition string_tag_load :: "uint8 \<Rightarrow> tag_value reader" where
  "string_tag_load ty =
    andThen (if TAGTYPE_STR1 \<le> ty \<and> ty \<le> TAGTYPE_STR16 then return (unat (ty - TAGTYPE_STR1) + 1) else get_size 2)
      (\<lambda>nLength. andThen (get_string nLength) (\<lambda>s. return (Str ty (bom_filter s))))"

text \<open>
  A blob above the packet limit is sought over first: \<open>-1*nSize\<close> is computed modulo \<open>2\<^sup>3\<^sup>2\<close> and
  converted to \<open>int\<close>, so the way back is exact up to \<open>2\<^sup>3\<^sup>1\<close> bytes and beyond that leads forwards, to
  \<open>2\<^sup>3\<^sup>2\<close> bytes behind the start.
\<close>

definition array_tag_load :: "tag_value reader" where
  "array_tag_load = andThen (get_size 4) (\<lambda>nSize bs.
    if nSize = 0 then Inr (Blob [], bs)
    else if MAX_ED2K_PACKET_LEN < nSize then
      (if nSize \<le> length bs then
         (if nSize \<le> 2 ^ 31 then andThen (raw_read nSize) (\<lambda>v. return (Blob v)) bs
          else andThen (seek unexpected_istream_error (2 ^ 32)) (\<lambda>u. andThen (raw_read nSize) (\<lambda>v. return (Blob v))) bs)
       else Inl blob_tag_too_long)
    else andThen (raw_read nSize) (\<lambda>v. return (Blob v)) bs)"

text \<open>The header: the type without its flag, the name and the name id.\<close>

definition tag_header_load :: "(uint8 \<times> bytes \<times> uint8) reader" where
  "tag_header_load = andThen (get_word 1) (\<lambda>nType.
    if nType AND 0x80 \<noteq> 0 then andThen (get_word 1) (\<lambda>nNameId. return (nType AND 0x7F, [], nNameId))
    else andThen (get_size 2) (\<lambda>nLength.
      if nLength = 1 then andThen (get_word 1) (\<lambda>nNameId. return (nType, [], nNameId))
      else andThen (get_string nLength) (\<lambda>strName. return (nType, strName, 0))))"

definition value_load :: "uint8 \<Rightarrow> tag_value reader" where
  "value_load nType =
    (if nType = TAGTYPE_UINT64 then andThen (get_word 8) (\<lambda>w. return (Uint64 w))
     else if nType = TAGTYPE_UINT32 then andThen (get_word 4) (\<lambda>w. return (Uint32 w))
     else if nType = TAGTYPE_UINT16 then andThen (get_word 2) (\<lambda>w. return (Uint16 w))
     else if nType = TAGTYPE_UINT8 then andThen (get_word 1) (\<lambda>w. return (Uint8 w))
     else if nType = TAGTYPE_FLOAT32 then andThen (get_word 4) (\<lambda>w. return (Float32 w))
     else if nType = TAGTYPE_BOOL then andThen (get_word 1) (\<lambda>w. return (Boolean w))
     else if nType = TAGTYPE_HASH16 then andThen get_hash (\<lambda>h. return (Hash h))
     else if nType = TAGTYPE_BLOB then array_tag_load
     else if nType = TAGTYPE_STRING \<or> TAGTYPE_STR1 \<le> nType \<and> nType \<le> TAGTYPE_STR16 then string_tag_load nType
     else fail invalid_tag_type)"

text \<open>One round of the loop: bool arrays and small blobs are skipped.\<close>

definition tag_load :: "tag option reader" where
  "tag_load = andThen tag_header_load (\<lambda>(nType, strName, nNameId).
    if nType = TAGTYPE_BOOLARRAY then
      andThen (get_size 2) (\<lambda>nLength. andThen (seek unexpected_istream_error (nLength div 8 + 1)) (\<lambda>u. return None))
    else if nType = TAGTYPE_BSOB then
      andThen (get_size 1) (\<lambda>len. andThen (seek unexpected_istream_error len) (\<lambda>u. return None))
    else andThen (value_load nType) (\<lambda>v.
      return (Some \<lparr>m_strName = strName, m_nNameId = nNameId, m_bNewED2K = False, m_value = v\<rparr>)))"

definition tag_list_load :: "nat \<Rightarrow> tag list reader" where
  "tag_list_load width = andThen (get_size width) (\<lambda>nSize.
    andThen (get_many tag_load nSize) (\<lambda>ts. return (map the (filter (\<lambda>t. t \<noteq> None) ts))))"

section \<open>Getters\<close>

fun asInt :: "tag_value \<Rightarrow> wire_error + 64 word" where
  "asInt (Uint64 w) = Inr w"
| "asInt (Uint32 w) = Inr (ucast w)"
| "asInt (Uint16 w) = Inr (ucast w)"
| "asInt (Uint8 w) = Inr (ucast w)"
| "asInt v = Inl incompatible_tag_getter"

fun asString :: "tag_value \<Rightarrow> wire_error + bytes" where
  "asString (Str ty s) = Inr s"
| "asString v = Inl incompatible_tag_getter"

fun asBool :: "tag_value \<Rightarrow> wire_error + bool" where
  "asBool (Boolean w) = Inr (w \<noteq> 0)"
| "asBool v = Inl incompatible_tag_getter"

fun asFloat :: "tag_value \<Rightarrow> wire_error + uint32" where
  "asFloat (Float32 w) = Inr w"
| "asFloat v = Inl incompatible_tag_getter"

fun asBlob :: "tag_value \<Rightarrow> wire_error + bytes" where
  "asBlob (Blob b) = Inr b"
| "asBlob v = Inl incompatible_tag_getter"

fun asHash :: "tag_value \<Rightarrow> wire_error + bytes" where
  "asHash (Hash h) = Inr h"
| "asHash v = Inl incompatible_tag_getter"

definition has_id :: "uint8 \<Rightarrow> tag \<Rightarrow> bool" where
  "has_id nId t \<longleftrightarrow> m_nNameId t \<noteq> 0 \<and> m_nNameId t = nId"

definition has_name :: "bytes \<Rightarrow> tag \<Rightarrow> bool" where
  "has_name name t \<longleftrightarrow> m_strName t \<noteq> [] \<and> m_strName t = name"

definition getTagByNameId :: "uint8 \<Rightarrow> tag list \<Rightarrow> tag option" where
  "getTagByNameId nId ts = find (has_id nId) ts"

definition getTagByName :: "bytes \<Rightarrow> tag list \<Rightarrow> tag option" where
  "getTagByName name ts = find (has_name name) ts"

text \<open>A missing tag and one of another type give the default.\<close>

definition value_or :: "'a \<Rightarrow> (tag_value \<Rightarrow> wire_error + 'a) \<Rightarrow> tag option \<Rightarrow> 'a" where
  "value_or d getter p = (case p of None \<Rightarrow> d | Some t \<Rightarrow> (case getter (m_value t) of Inl e \<Rightarrow> d | Inr x \<Rightarrow> x))"

definition getStringTagByNameId :: "uint8 \<Rightarrow> tag list \<Rightarrow> bytes" where
  "getStringTagByNameId nId ts = value_or [] asString (getTagByNameId nId ts)"

definition getStringTagByName :: "bytes \<Rightarrow> tag list \<Rightarrow> bytes" where
  "getStringTagByName name ts = value_or [] asString (getTagByName name ts)"

definition getIntTagByNameId :: "uint8 \<Rightarrow> tag list \<Rightarrow> 64 word" where
  "getIntTagByNameId nId ts = value_or 0 asInt (getTagByNameId nId ts)"

definition getIntTagByName :: "bytes \<Rightarrow> tag list \<Rightarrow> 64 word" where
  "getIntTagByName name ts = value_or 0 asInt (getTagByName name ts)"

section \<open>Equality\<close>






section \<open>What a tag becomes on the other side\<close>

fun value_wf :: "tag_value \<Rightarrow> bool" where
  "value_wf (Hash h) \<longleftrightarrow> length h = 16"
| "value_wf (Str ty s) \<longleftrightarrow> ty = TAGTYPE_STRING \<and> length s < 2 ^ 16 \<or>
     TAGTYPE_STR1 \<le> ty \<and> ty \<le> TAGTYPE_STR16 \<and> length s = unat (ty - TAGTYPE_STR1) + 1"
| "value_wf (Blob v) \<longleftrightarrow> length v \<le> 2 ^ 31"
| "value_wf v \<longleftrightarrow> True"

definition tag_wf :: "tag \<Rightarrow> bool" where
  "tag_wf t \<longleftrightarrow> value_wf (m_value t) \<and> length (m_strName t) < 2 ^ 16 \<and> (m_strName t = [] \<or> m_nNameId t = 0)"

fun norm_value :: "tag_value \<Rightarrow> tag_value" where
  "norm_value (Str ty s) = Str ty (bom_filter s)"
| "norm_value v = v"

text \<open>A name of one byte is taken for a name id.\<close>

definition norm_tag :: "tag \<Rightarrow> tag" where
  "norm_tag t =
    (case m_strName t of
       [c] \<Rightarrow> \<lparr>m_strName = [], m_nNameId = c, m_bNewED2K = False, m_value = norm_value (m_value t)\<rparr>
     | name \<Rightarrow> \<lparr>m_strName = name, m_nNameId = m_nNameId t, m_bNewED2K = False, m_value = norm_value (m_value t)\<rparr>)"

section \<open>The flag of the new header\<close>

lemma bit7: "(ty :: uint8) < 0x80 \<Longrightarrow> 7 \<le> n \<Longrightarrow> \<not> bit ty n"
proof -
  assume "ty < 0x80" "7 \<le> n"
  then have "unat ty < 2 ^ n" using power_increasing [of 7 n "2::nat"] by (simp add: word_less_nat_alt)
  then have "\<not> bit (unat ty) n" by (simp add: bit_iff_odd)
  then show ?thesis by (auto simp: bit_unsigned_iff dest: bit_imp_le_length)
qed

lemma flag_bits: "bit (0x80 :: uint8) n \<longleftrightarrow> n = 7" "bit (0x7F :: uint8) n \<longleftrightarrow> n < 7"
proof -
  have "(0x80 :: uint8) = push_bit 7 1" "(0x7F :: uint8) = mask 7" by (simp_all add: mask_eq_exp_minus_1)
  then show "bit (0x80 :: uint8) n \<longleftrightarrow> n = 7" "bit (0x7F :: uint8) n \<longleftrightarrow> n < 7"
    unfolding bit_push_bit_iff by (simp_all only: bit_push_bit_iff bit_1_iff bit_mask_iff) auto
qed

lemma flag:
  assumes "(ty :: uint8) < 0x80"
  shows "ty AND 0x80 = 0" "(ty OR 0x80) AND 0x80 \<noteq> 0" "(ty OR 0x80) AND 0x7F = ty"
proof -
  show "ty AND 0x80 = 0" by (rule bit_eqI) (simp only: bit_and_iff flag_bits, use bit7 [OF assms] in auto)
  have "bit ((ty OR 0x80) AND 0x80) 7" by (simp only: bit_and_iff bit_or_iff flag_bits) simp
  then show "(ty OR 0x80) AND 0x80 \<noteq> 0" by auto
  show "(ty OR 0x80) AND 0x7F = ty"
  proof (rule bit_eqI)
    fix n
    show "bit ((ty OR 0x80) AND 0x7F) n = bit ty n"
      unfolding bit_and_iff bit_or_iff flag_bits using bit7 [OF assms, of n] by (cases "n < 7") auto
  qed
qed

section \<open>Round trips\<close>

lemma type_small: "value_wf v \<Longrightarrow> getType v < 0x80"
  by (cases v) (auto intro: le_less_trans)

lemma size_one: "put_word 2 (1 :: uint16) = put_size 2 1"
  by (simp add: put_word_def put_size_def)

lemma get_byte: "get_word (Suc 0) (c # rest) = Inr (c :: uint8, rest)"
  by (simp add: get_word_def raw_read_def andThen_def return_def)

lemma no_string_type: "\<not> (TAGTYPE_STR1 \<le> TAGTYPE_HASH16)"
  by (simp add: word_le_nat_alt)

lemma header_round:
  assumes "tag_wf t"
  shows "tag_header_load (base_tag_save t @ rest) =
    Inr ((getType (m_value t), m_strName (norm_tag t), m_nNameId (norm_tag t)), rest)"
proof -
  have ty: "getType (m_value t) < 0x80" using assms type_small by (simp add: tag_wf_def)
  note f = flag [OF ty]
  consider "m_strName t = []" | c where "m_strName t = [c]" | "2 \<le> length (m_strName t)"
    by (cases "m_strName t"; cases "tl (m_strName t)") auto
  then show ?thesis
  proof cases
    case 1
    then show ?thesis
      by (simp add: tag_header_load_def base_tag_save_def Let_def reader_simps f size_one norm_tag_def split del: if_split split: if_split)
  next
    case 2
    then show ?thesis using assms
      by (simp add: tag_header_load_def base_tag_save_def Let_def reader_simps f norm_tag_def tag_wf_def get_byte)
  next
    case 3
    then show ?thesis using assms
      by (auto simp: tag_header_load_def base_tag_save_def Let_def reader_simps f norm_tag_def tag_wf_def split: list.split)
  qed
qed

lemma string_round:
  assumes "value_wf (Str ty s)"
  shows "string_tag_load ty (value_save (Str ty s) @ rest) = Inr (norm_value (Str ty s), rest)"
  using assms by (auto simp: string_tag_load_def reader_simps)

lemma blob_round: "length v \<le> 2 ^ 31 \<Longrightarrow> array_tag_load (value_save (Blob v) @ rest) = Inr (Blob v, rest)"
  by (simp add: array_tag_load_def reader_simps)

lemma value_round:
  assumes "value_wf v"
  shows "value_load (getType v) (value_save v @ rest) = Inr (norm_value v, rest)"
proof (cases v)
  case (Str ty s)
  then show ?thesis using assms string_round [of ty s rest] by (auto simp: value_load_def no_string_type)
next
  case (Blob b)
  then show ?thesis using assms blob_round [of b rest] by (simp add: value_load_def)
next
  case (Hash h)
  then show ?thesis using assms md4.round [of h rest] by (simp add: value_load_def reader_simps hash_wf_def)
qed (simp_all add: value_load_def reader_simps)

lemma tag_round:
  assumes "tag_wf t"
  shows "tag_load (tag_save t @ rest) = Inr (Some (norm_tag t), rest)"
proof -
  have v: "value_wf (m_value t)" using assms by (simp add: tag_wf_def)
  have "getType (m_value t) \<noteq> TAGTYPE_BOOLARRAY" "getType (m_value t) \<noteq> TAGTYPE_BSOB"
    using v by (cases "m_value t"; auto)+
  moreover have "\<lparr>m_strName = m_strName (norm_tag t), m_nNameId = m_nNameId (norm_tag t), m_bNewED2K = False,
      m_value = norm_value (m_value t)\<rparr> = norm_tag t"
    by (auto simp: norm_tag_def split: list.split)
  ultimately show ?thesis
    by (simp add: tag_load_def tag_save_def reader_simps header_round [OF assms] value_round [OF v])
qed

lemma tags_round: "\<forall>t \<in> set ts. tag_wf t \<Longrightarrow>
  get_many tag_load (length ts) (put_many tag_save ts @ rest) = Inr (map (\<lambda>t. Some (norm_tag t)) ts, rest)"
  by (induction ts) (simp_all add: put_many_def reader_simps tag_round)

lemma local_array_tag: "local_reader array_tag_load"
proof -
  have "local_reader (\<lambda>bs. if nSize = 0 then Inr (Blob [], bs)
    else if MAX_ED2K_PACKET_LEN < nSize then
      (if nSize \<le> length bs then
         (if nSize \<le> 2 ^ 31 then andThen (raw_read nSize) (\<lambda>v. return (Blob v)) bs
          else andThen (seek unexpected_istream_error (2 ^ 32)) (\<lambda>u. andThen (raw_read nSize) (\<lambda>v. return (Blob v))) bs)
       else Inl blob_tag_too_long)
    else andThen (raw_read nSize) (\<lambda>v. return (Blob v)) bs)" for nSize
    using local_readerD [OF local_andThen [OF local_raw_read local_return], of nSize Blob]
      local_readerD [OF local_andThen [OF local_seek local_andThen [OF local_raw_read local_return]],
        of unexpected_istream_error "2 ^ 32" "\<lambda>u. nSize" "\<lambda>u. Blob"]
    by (auto simp: local_reader_def)
  then show ?thesis unfolding array_tag_load_def by (intro local_andThen local_get_size)
qed

lemma local_tag_load: "local_reader tag_load"
proof -
  have "local_reader tag_header_load" unfolding tag_header_load_def by (intro local_intros)
  moreover have "local_reader (value_load ty)" for ty
    unfolding value_load_def string_tag_load_def get_hash_def by (intro local_intros local_array_tag)
  ultimately show ?thesis unfolding tag_load_def split_beta by (intro local_intros)
qed

definition tag_list_wf :: "nat \<Rightarrow> tag list \<Rightarrow> bool" where
  "tag_list_wf width ts \<longleftrightarrow> length ts < 2 ^ (8 * width) \<and> list_all tag_wf ts"

lemma tag_list_codec: "w \<le> 8 \<Longrightarrow> codec (tag_list_save w) (tag_list_load w) (tag_list_wf w) (map norm_tag)"
proof (rule codecI)
  fix ts rest
  assume "w \<le> 8" "tag_list_wf w ts"
  then show "tag_list_load w (tag_list_save w ts @ rest) = Inr (map norm_tag ts, rest)"
    by (simp add: tag_list_load_def tag_list_save_def tag_list_wf_def reader_simps tags_round list_all_iff comp_def)
qed (simp add: tag_list_load_def local_intros local_tag_load)

interpretation tags8: codec "tag_list_save 1" "tag_list_load 1" "tag_list_wf 1" "map norm_tag"
  by (rule tag_list_codec) simp

interpretation tags16: codec "tag_list_save 2" "tag_list_load 2" "tag_list_wf 2" "map norm_tag"
  by (rule tag_list_codec) simp

interpretation tags32: codec "tag_list_save 4" "tag_list_load 4" "tag_list_wf 4" "map norm_tag"
  by (rule tag_list_codec) simp

lemma make_string_tag_wf: "length s < 2 ^ 16 \<Longrightarrow> tag_wf (make_string_tag s nId new)"
proof -
  assume l: "length s < 2 ^ 16"
  have "unat (0x10 + (of_nat (length s) :: uint8)) = 16 + length s" if "length s \<le> 16"
    using that by (simp add: unat_word_ariths unat_of_nat take_bit_nat_eq_self)
  then show ?thesis using l
    by (auto simp: tag_wf_def make_string_tag_def length2type_def word_le_nat_alt unat_sub_if')
qed

section \<open>Properties\<close>

text \<open>A tag that survives the way: no name of a single byte, no byte order mark.\<close>

definition plain_tag :: "tag \<Rightarrow> bool" where
  "plain_tag t \<longleftrightarrow> length (m_strName t) \<noteq> 1 \<and> norm_value (m_value t) = m_value t"

lemma norm_plain: "plain_tag t \<Longrightarrow> norm_tag t = t\<lparr>m_bNewED2K := False\<rparr>"
  by (auto simp: plain_tag_def norm_tag_def split: list.split)

definition demo_tags :: "tag list" where
  "demo_tags = [make_string_tag [0x61, 0x62] 0x01 True, make_named_tag (Uint32 7) [0x78, 0x79] False, make_tag (Blob []) 0x31 True]"

lemma demo_tags_wf: "tag_list_wf 4 demo_tags \<and> list_all plain_tag demo_tags"
  by (simp add: tag_list_wf_def demo_tags_def make_string_tag_def make_named_tag_def make_tag_def tag_wf_def plain_tag_def
      length2type_def bom_filter_def)

text \<open>
  C23. A tag list that is saved and loaded again, in the old or the new header format and whatever
  follows it in the stream, comes back unchanged except for the flag \<open>m_bNewED2K\<close>, which loading
  always clears; it consumes exactly what was saved.
\<close>

theorem tag_list_roundtrip:
  assumes "width \<le> 8" "tag_list_wf width ts" "list_all plain_tag ts"
  shows "tag_list_load width (tag_list_save width ts @ rest) = Inr (map (\<lambda>t. t\<lparr>m_bNewED2K := False\<rparr>) ts, rest)"
proof -
  have n: "map norm_tag ts = map (\<lambda>t. t\<lparr>m_bNewED2K := False\<rparr>) ts"
    using assms(3) by (simp add: list_all_iff norm_plain)
  show ?thesis using codec.round [OF tag_list_codec [OF assms(1)] assms(2)] n by simp
qed

theorem tag_list_roundtrip_witness:
  "tag_list_load 4 (tag_list_save 4 demo_tags @ [0xFF]) = Inr (map (\<lambda>t. t\<lparr>m_bNewED2K := False\<rparr>) demo_tags, [0xFF])"
  using tag_list_roundtrip [of 4 demo_tags] demo_tags_wf by simp

text \<open>A stream that ends within a tag list is refused.\<close>

lemma tag_list_truncated:
  assumes "width \<le> 8" "tag_list_wf width ts" "tag_list_save width ts = u @ s" "s \<noteq> []"
  shows "\<exists>e. tag_list_load width u = Inl e"
  by (rule codec.truncated [OF tag_list_codec [OF assms(1)] assms(2-4)])

text \<open>
  C24. \<open>make_string_tag\<close> chooses a type that \<open>load\<close> undoes: a string of any length below \<open>2\<^sup>1\<^sup>6\<close> without a
  byte order mark, compressed or not, is found under its id with its value.
\<close>

theorem string_tag_roundtrip:
  assumes "length s < 2 ^ 16" "bom_filter s = s" "nId \<noteq> 0"
  shows "\<exists>ts. tag_list_load 4 (tag_list_save 4 [make_string_tag s nId new]) = Inr (ts, []) \<and> getStringTagByNameId nId ts = s"
proof -
  define t where "t = make_string_tag s nId new"
  have w: "tag_list_wf 4 [t]" using make_string_tag_wf [OF assms(1)] by (simp add: tag_list_wf_def t_def)
  have n: "norm_tag t = t\<lparr>m_bNewED2K := False\<rparr>"
    by (rule norm_plain) (simp add: plain_tag_def t_def make_string_tag_def assms(2))
  have "tag_list_load 4 (tag_list_save 4 [t]) = Inr ([t\<lparr>m_bNewED2K := False\<rparr>], [])"
    using tags32.round [OF w, of "[]"] n by simp
  moreover have "getStringTagByNameId nId [t\<lparr>m_bNewED2K := False\<rparr>] = s"
    using assms(3) by (simp add: getStringTagByNameId_def getTagByNameId_def has_id_def value_or_def t_def make_string_tag_def)
  ultimately show ?thesis unfolding t_def by blast
qed

theorem string_tag_roundtrip_witness:
  "\<exists>ts. tag_list_load 4 (tag_list_save 4 [make_string_tag [0x61, 0x62, 0x63] 0x01 True]) = Inr (ts, []) \<and>
     getStringTagByNameId 0x01 ts = [0x61, 0x62, 0x63]"
  using string_tag_roundtrip [of "[0x61, 0x62, 0x63]" "0x01" True] by (simp add: bom_filter_def)


end
