(* ===== verification/Packet_Structs.thy ===== *)
theory Packet_Structs
  imports Ctag
begin

text \<open>
  The structures of \<open>packet_struct.hpp\<close> that messages between clients and servers are made of. Each
  is a record with the two halves of its \<open>serialize\<close>, the values the protocol can carry and what
  arrives of them, and an interpretation of the interface \<open>codec\<close>: what is loaded is what was
  saved, no structure reads beyond its own bytes, and truncated ones are refused.
\<close>

named_theorems wire_rounds \<open>what is loaded is what was saved\<close>
named_theorems wire_locals \<open>readers of structures look at their own bytes only\<close>

lemmas [wire_rounds] = md4.round tags32.round tags8.round str16.round [simplified] str32.round [simplified]
lemmas [wire_locals] = md4.local tags32.local tags8.local str16.local str32.local

section \<open>Servers\<close>

record net_identifier =
  m_nIP :: uint32
  m_nPort :: uint16

definition put_net_identifier :: "net_identifier \<Rightarrow> bytes" where
  "put_net_identifier m = put_word 4 (m_nIP m) @ put_word 2 (m_nPort m)"

definition get_net_identifier :: "net_identifier reader" where
  "get_net_identifier = andThen (get_word 4) (\<lambda>x0. andThen (get_word 2) (\<lambda>x1. return \<lparr>m_nIP = x0, m_nPort = x1\<rparr>))"

interpretation net_identifier_c: codec put_net_identifier get_net_identifier "\<lambda>m. True" "\<lambda>m. m"
  by (rule codecI) (simp_all add: put_net_identifier_def get_net_identifier_def reader_simps wire_rounds local_intros wire_locals)

lemmas [wire_rounds] = net_identifier_c.round
lemmas [wire_locals] = net_identifier_c.local

interpretation nets_c: codec "put_holder 1 put_net_identifier" "get_holder 1 get_net_identifier" "holder_wf 1 (\<lambda>x. True)" "map (\<lambda>x. x)"
  by (rule net_identifier_c.holder) simp

lemmas [wire_rounds] = nets_c.round [simplified]
lemmas [wire_locals] = nets_c.local

record shared_file_entry =
  m_hFile_sfe :: bytes
  m_network_point_sfe :: net_identifier
  m_list_sfe :: "tag list"

definition put_shared_file_entry :: "shared_file_entry \<Rightarrow> bytes" where
  "put_shared_file_entry m = put_hash (m_hFile_sfe m) @ put_net_identifier (m_network_point_sfe m) @ tag_list_save 4 (m_list_sfe m)"

definition get_shared_file_entry :: "shared_file_entry reader" where
  "get_shared_file_entry = andThen get_hash (\<lambda>x0. andThen get_net_identifier (\<lambda>x1. andThen (tag_list_load 4) (\<lambda>x2. return \<lparr>m_hFile_sfe = x0, m_network_point_sfe = x1, m_list_sfe = x2\<rparr>)))"

definition shared_file_entry_wf :: "shared_file_entry \<Rightarrow> bool" where
  "shared_file_entry_wf m \<longleftrightarrow> hash_wf (m_hFile_sfe m) \<and> tag_list_wf 4 (m_list_sfe m)"

definition norm_shared_file_entry :: "shared_file_entry \<Rightarrow> shared_file_entry" where
  "norm_shared_file_entry m = m\<lparr>m_list_sfe := map norm_tag (m_list_sfe m)\<rparr>"

interpretation shared_file_entry_c: codec put_shared_file_entry get_shared_file_entry shared_file_entry_wf norm_shared_file_entry
  by (rule codecI) (simp_all add: put_shared_file_entry_def get_shared_file_entry_def shared_file_entry_wf_def norm_shared_file_entry_def reader_simps wire_rounds local_intros wire_locals)

lemmas [wire_rounds] = shared_file_entry_c.round
lemmas [wire_locals] = shared_file_entry_c.local

text \<open>\<open>shared_files_list\<close>.\<close>

interpretation files_c: codec "put_holder 4 put_shared_file_entry" "get_holder 4 get_shared_file_entry" "holder_wf 4 shared_file_entry_wf" "map norm_shared_file_entry"
  by (rule shared_file_entry_c.holder) simp

lemmas [wire_rounds] = files_c.round
lemmas [wire_locals] = files_c.local

record cs_login_request =
  m_hClient_login :: bytes
  m_network_point_login :: net_identifier
  m_list_login :: "tag list"

definition put_cs_login_request :: "cs_login_request \<Rightarrow> bytes" where
  "put_cs_login_request m = put_hash (m_hClient_login m) @ put_net_identifier (m_network_point_login m) @ tag_list_save 4 (m_list_login m)"

definition get_cs_login_request :: "cs_login_request reader" where
  "get_cs_login_request = andThen get_hash (\<lambda>x0. andThen get_net_identifier (\<lambda>x1. andThen (tag_list_load 4) (\<lambda>x2. return \<lparr>m_hClient_login = x0, m_network_point_login = x1, m_list_login = x2\<rparr>)))"

definition cs_login_request_wf :: "cs_login_request \<Rightarrow> bool" where
  "cs_login_request_wf m \<longleftrightarrow> hash_wf (m_hClient_login m) \<and> tag_list_wf 4 (m_list_login m)"

definition norm_cs_login_request :: "cs_login_request \<Rightarrow> cs_login_request" where
  "norm_cs_login_request m = m\<lparr>m_list_login := map norm_tag (m_list_login m)\<rparr>"

interpretation cs_login_request_c: codec put_cs_login_request get_cs_login_request cs_login_request_wf norm_cs_login_request
  by (rule codecI) (simp_all add: put_cs_login_request_def get_cs_login_request_def cs_login_request_wf_def norm_cs_login_request_def reader_simps wire_rounds local_intros wire_locals)

lemmas [wire_rounds] = cs_login_request_c.round
lemmas [wire_locals] = cs_login_request_c.local

record server_info_entry =
  m_hServer_sie :: bytes
  m_network_point_sie :: net_identifier
  m_list_sie :: "tag list"

definition put_server_info_entry :: "server_info_entry \<Rightarrow> bytes" where
  "put_server_info_entry m = put_hash (m_hServer_sie m) @ put_net_identifier (m_network_point_sie m) @ tag_list_save 4 (m_list_sie m)"

definition get_server_info_entry :: "server_info_entry reader" where
  "get_server_info_entry = andThen get_hash (\<lambda>x0. andThen get_net_identifier (\<lambda>x1. andThen (tag_list_load 4) (\<lambda>x2. return \<lparr>m_hServer_sie = x0, m_network_point_sie = x1, m_list_sie = x2\<rparr>)))"

definition server_info_entry_wf :: "server_info_entry \<Rightarrow> bool" where
  "server_info_entry_wf m \<longleftrightarrow> hash_wf (m_hServer_sie m) \<and> tag_list_wf 4 (m_list_sie m)"

definition norm_server_info_entry :: "server_info_entry \<Rightarrow> server_info_entry" where
  "norm_server_info_entry m = m\<lparr>m_list_sie := map norm_tag (m_list_sie m)\<rparr>"

interpretation server_info_entry_c: codec put_server_info_entry get_server_info_entry server_info_entry_wf norm_server_info_entry
  by (rule codecI) (simp_all add: put_server_info_entry_def get_server_info_entry_def server_info_entry_wf_def norm_server_info_entry_def reader_simps wire_rounds local_intros wire_locals)

lemmas [wire_rounds] = server_info_entry_c.round
lemmas [wire_locals] = server_info_entry_c.local

record server_status =
  m_nUserCount :: uint32
  m_nFilesCount :: uint32

definition put_server_status :: "server_status \<Rightarrow> bytes" where
  "put_server_status m = put_word 4 (m_nUserCount m) @ put_word 4 (m_nFilesCount m)"

definition get_server_status :: "server_status reader" where
  "get_server_status = andThen (get_word 4) (\<lambda>x0. andThen (get_word 4) (\<lambda>x1. return \<lparr>m_nUserCount = x0, m_nFilesCount = x1\<rparr>))"

interpretation server_status_c: codec put_server_status get_server_status "\<lambda>m. True" "\<lambda>m. m"
  by (rule codecI) (simp_all add: put_server_status_def get_server_status_def reader_simps wire_rounds local_intros wire_locals)

lemmas [wire_rounds] = server_status_c.round
lemmas [wire_locals] = server_status_c.local

record found_file_sources =
  m_hFile_ffs :: bytes
  m_sources_ffs :: "net_identifier list"

definition put_found_file_sources :: "found_file_sources \<Rightarrow> bytes" where
  "put_found_file_sources m = put_hash (m_hFile_ffs m) @ put_holder 1 put_net_identifier (m_sources_ffs m)"

definition get_found_file_sources :: "found_file_sources reader" where
  "get_found_file_sources = andThen get_hash (\<lambda>x0. andThen (get_holder 1 get_net_identifier) (\<lambda>x1. return \<lparr>m_hFile_ffs = x0, m_sources_ffs = x1\<rparr>))"

definition found_file_sources_wf :: "found_file_sources \<Rightarrow> bool" where
  "found_file_sources_wf m \<longleftrightarrow> hash_wf (m_hFile_ffs m) \<and> holder_wf 1 (\<lambda>x. True) (m_sources_ffs m)"

interpretation found_file_sources_c: codec put_found_file_sources get_found_file_sources found_file_sources_wf "\<lambda>m. m"
  by (rule codecI) (simp_all add: put_found_file_sources_def get_found_file_sources_def found_file_sources_wf_def reader_simps wire_rounds local_intros wire_locals)

lemmas [wire_rounds] = found_file_sources_c.round
lemmas [wire_locals] = found_file_sources_c.local

section \<open>Clients\<close>

interpretation hashes_c: codec "put_holder 2 put_hash" "get_holder 2 get_hash" "holder_wf 2 hash_wf" "map (\<lambda>x. x)"
  by (rule md4.holder) simp

lemmas [wire_rounds] = hashes_c.round [simplified]
lemmas [wire_locals] = hashes_c.local

interpretation dirs_c: codec "put_holder 4 (put_holder 2 (put_word 1 :: uint8 \<Rightarrow> bytes))" "get_holder 4 (get_holder 2 (get_word 1))"
    "holder_wf 4 (holder_wf 2 (\<lambda>x. True))" "map (map (\<lambda>x. x))"
  by (rule str16.holder) simp

lemmas [wire_rounds] = dirs_c.round [simplified]
lemmas [wire_locals] = dirs_c.local

record client_hello_answer =
  m_hClient_cha :: bytes
  m_network_point_cha :: net_identifier
  m_list_cha :: "tag list"
  m_server_network_point_cha :: net_identifier

definition put_client_hello_answer :: "client_hello_answer \<Rightarrow> bytes" where
  "put_client_hello_answer m = put_hash (m_hClient_cha m) @ put_net_identifier (m_network_point_cha m) @ tag_list_save 4 (m_list_cha m) @ put_net_identifier (m_server_network_point_cha m)"

definition get_client_hello_answer :: "client_hello_answer reader" where
  "get_client_hello_answer = andThen get_hash (\<lambda>x0. andThen get_net_identifier (\<lambda>x1. andThen (tag_list_load 4) (\<lambda>x2. andThen get_net_identifier (\<lambda>x3. return \<lparr>m_hClient_cha = x0, m_network_point_cha = x1, m_list_cha = x2, m_server_network_point_cha = x3\<rparr>))))"

definition client_hello_answer_wf :: "client_hello_answer \<Rightarrow> bool" where
  "client_hello_answer_wf m \<longleftrightarrow> hash_wf (m_hClient_cha m) \<and> tag_list_wf 4 (m_list_cha m)"

definition norm_client_hello_answer :: "client_hello_answer \<Rightarrow> client_hello_answer" where
  "norm_client_hello_answer m = m\<lparr>m_list_cha := map norm_tag (m_list_cha m)\<rparr>"

interpretation client_hello_answer_c: codec put_client_hello_answer get_client_hello_answer client_hello_answer_wf norm_client_hello_answer
  by (rule codecI) (simp_all add: put_client_hello_answer_def get_client_hello_answer_def client_hello_answer_wf_def norm_client_hello_answer_def reader_simps wire_rounds local_intros wire_locals)

lemmas [wire_rounds] = client_hello_answer_c.round
lemmas [wire_locals] = client_hello_answer_c.local

text \<open>\<open>client_hello\<close> derives from \<open>client_hello_answer\<close>; the base is its second field.\<close>

record client_hello =
  m_nHashLength_ch :: uint8
  hello_answer_ch :: client_hello_answer

definition put_client_hello :: "client_hello \<Rightarrow> bytes" where
  "put_client_hello m = put_word 1 (m_nHashLength_ch m) @ put_client_hello_answer (hello_answer_ch m)"

definition get_client_hello :: "client_hello reader" where
  "get_client_hello = andThen (get_word 1) (\<lambda>x0. andThen get_client_hello_answer (\<lambda>x1. return \<lparr>m_nHashLength_ch = x0, hello_answer_ch = x1\<rparr>))"

definition client_hello_wf :: "client_hello \<Rightarrow> bool" where
  "client_hello_wf m \<longleftrightarrow> client_hello_answer_wf (hello_answer_ch m)"

definition norm_client_hello :: "client_hello \<Rightarrow> client_hello" where
  "norm_client_hello m = m\<lparr>hello_answer_ch := norm_client_hello_answer (hello_answer_ch m)\<rparr>"

interpretation client_hello_c: codec put_client_hello get_client_hello client_hello_wf norm_client_hello
  by (rule codecI) (simp_all add: put_client_hello_def get_client_hello_def client_hello_wf_def norm_client_hello_def reader_simps wire_rounds local_intros wire_locals)

lemmas [wire_rounds] = client_hello_c.round
lemmas [wire_locals] = client_hello_c.local

text \<open>\<open>client_ext_hello\<close> and \<open>client_ext_hello_answer\<close> have the same fields.\<close>

record client_ext_hello =
  m_nVersion_ceh :: uint16
  m_list_ceh :: "tag list"

definition put_client_ext_hello :: "client_ext_hello \<Rightarrow> bytes" where
  "put_client_ext_hello m = put_word 2 (m_nVersion_ceh m) @ tag_list_save 4 (m_list_ceh m)"

definition get_client_ext_hello :: "client_ext_hello reader" where
  "get_client_ext_hello = andThen (get_word 2) (\<lambda>x0. andThen (tag_list_load 4) (\<lambda>x1. return \<lparr>m_nVersion_ceh = x0, m_list_ceh = x1\<rparr>))"

definition client_ext_hello_wf :: "client_ext_hello \<Rightarrow> bool" where
  "client_ext_hello_wf m \<longleftrightarrow> tag_list_wf 4 (m_list_ceh m)"

definition norm_client_ext_hello :: "client_ext_hello \<Rightarrow> client_ext_hello" where
  "norm_client_ext_hello m = m\<lparr>m_list_ceh := map norm_tag (m_list_ceh m)\<rparr>"

interpretation client_ext_hello_c: codec put_client_ext_hello get_client_ext_hello client_ext_hello_wf norm_client_ext_hello
  by (rule codecI) (simp_all add: put_client_ext_hello_def get_client_ext_hello_def client_ext_hello_wf_def norm_client_ext_hello_def reader_simps wire_rounds local_intros wire_locals)

lemmas [wire_rounds] = client_ext_hello_c.round
lemmas [wire_locals] = client_ext_hello_c.local

record client_shared_directory_files_answer =
  m_directory_csdf :: bytes
  m_list_csdf :: "shared_file_entry list"

definition put_client_shared_directory_files_answer :: "client_shared_directory_files_answer \<Rightarrow> bytes" where
  "put_client_shared_directory_files_answer m = put_holder 2 (put_word 1) (m_directory_csdf m) @ put_holder 4 put_shared_file_entry (m_list_csdf m)"

definition get_client_shared_directory_files_answer :: "client_shared_directory_files_answer reader" where
  "get_client_shared_directory_files_answer = andThen (get_holder 2 (get_word 1)) (\<lambda>x0. andThen (get_holder 4 get_shared_file_entry) (\<lambda>x1. return \<lparr>m_directory_csdf = x0, m_list_csdf = x1\<rparr>))"

definition client_shared_directory_files_answer_wf :: "client_shared_directory_files_answer \<Rightarrow> bool" where
  "client_shared_directory_files_answer_wf m \<longleftrightarrow> holder_wf 2 (\<lambda>x. True) (m_directory_csdf m) \<and> holder_wf 4 shared_file_entry_wf (m_list_csdf m)"

definition norm_client_shared_directory_files_answer :: "client_shared_directory_files_answer \<Rightarrow> client_shared_directory_files_answer" where
  "norm_client_shared_directory_files_answer m = m\<lparr>m_list_csdf := map norm_shared_file_entry (m_list_csdf m)\<rparr>"

interpretation client_shared_directory_files_answer_c: codec put_client_shared_directory_files_answer get_client_shared_directory_files_answer client_shared_directory_files_answer_wf norm_client_shared_directory_files_answer
  by (rule codecI) (simp_all add: put_client_shared_directory_files_answer_def get_client_shared_directory_files_answer_def client_shared_directory_files_answer_wf_def norm_client_shared_directory_files_answer_def reader_simps wire_rounds local_intros wire_locals)

lemmas [wire_rounds] = client_shared_directory_files_answer_c.round
lemmas [wire_locals] = client_shared_directory_files_answer_c.local

record client_file_answer =
  m_hFile_cfa :: bytes
  m_filename_cfa :: bytes

definition put_client_file_answer :: "client_file_answer \<Rightarrow> bytes" where
  "put_client_file_answer m = put_hash (m_hFile_cfa m) @ put_holder 2 (put_word 1) (m_filename_cfa m)"

definition get_client_file_answer :: "client_file_answer reader" where
  "get_client_file_answer = andThen get_hash (\<lambda>x0. andThen (get_holder 2 (get_word 1)) (\<lambda>x1. return \<lparr>m_hFile_cfa = x0, m_filename_cfa = x1\<rparr>))"

definition client_file_answer_wf :: "client_file_answer \<Rightarrow> bool" where
  "client_file_answer_wf m \<longleftrightarrow> hash_wf (m_hFile_cfa m) \<and> holder_wf 2 (\<lambda>x. True) (m_filename_cfa m)"

interpretation client_file_answer_c: codec put_client_file_answer get_client_file_answer client_file_answer_wf "\<lambda>m. m"
  by (rule codecI) (simp_all add: put_client_file_answer_def get_client_file_answer_def client_file_answer_wf_def reader_simps wire_rounds local_intros wire_locals)

lemmas [wire_rounds] = client_file_answer_c.round
lemmas [wire_locals] = client_file_answer_c.local

record client_file_description =
  m_nRating_cfd :: uint8
  m_sComment_cfd :: bytes

definition put_client_file_description :: "client_file_description \<Rightarrow> bytes" where
  "put_client_file_description m = put_word 1 (m_nRating_cfd m) @ put_holder 4 (put_word 1) (m_sComment_cfd m)"

definition get_client_file_description :: "client_file_description reader" where
  "get_client_file_description = andThen (get_word 1) (\<lambda>x0. andThen (get_holder 4 (get_word 1)) (\<lambda>x1. return \<lparr>m_nRating_cfd = x0, m_sComment_cfd = x1\<rparr>))"

definition client_file_description_wf :: "client_file_description \<Rightarrow> bool" where
  "client_file_description_wf m \<longleftrightarrow> holder_wf 4 (\<lambda>x. True) (m_sComment_cfd m)"

interpretation client_file_description_c: codec put_client_file_description get_client_file_description client_file_description_wf "\<lambda>m. m"
  by (rule codecI) (simp_all add: put_client_file_description_def get_client_file_description_def client_file_description_wf_def reader_simps wire_rounds local_intros wire_locals)

lemmas [wire_rounds] = client_file_description_c.round
lemmas [wire_locals] = client_file_description_c.local

record client_hashset_answer =
  m_hFile_chsa :: bytes
  m_vhParts_chsa :: "bytes list"

definition put_client_hashset_answer :: "client_hashset_answer \<Rightarrow> bytes" where
  "put_client_hashset_answer m = put_hash (m_hFile_chsa m) @ put_holder 2 put_hash (m_vhParts_chsa m)"

definition get_client_hashset_answer :: "client_hashset_answer reader" where
  "get_client_hashset_answer = andThen get_hash (\<lambda>x0. andThen (get_holder 2 get_hash) (\<lambda>x1. return \<lparr>m_hFile_chsa = x0, m_vhParts_chsa = x1\<rparr>))"

definition client_hashset_answer_wf :: "client_hashset_answer \<Rightarrow> bool" where
  "client_hashset_answer_wf m \<longleftrightarrow> hash_wf (m_hFile_chsa m) \<and> holder_wf 2 hash_wf (m_vhParts_chsa m)"

interpretation client_hashset_answer_c: codec put_client_hashset_answer get_client_hashset_answer client_hashset_answer_wf "\<lambda>m. m"
  by (rule codecI) (simp_all add: put_client_hashset_answer_def get_client_hashset_answer_def client_hashset_answer_wf_def reader_simps wire_rounds local_intros wire_locals)

lemmas [wire_rounds] = client_hashset_answer_c.round
lemmas [wire_locals] = client_hashset_answer_c.local

record client_directory_content_result =
  m_hdirectory_cdcr :: bytes
  m_files_cdcr :: "shared_file_entry list"

definition put_client_directory_content_result :: "client_directory_content_result \<Rightarrow> bytes" where
  "put_client_directory_content_result m = put_hash (m_hdirectory_cdcr m) @ put_holder 4 put_shared_file_entry (m_files_cdcr m)"

definition get_client_directory_content_result :: "client_directory_content_result reader" where
  "get_client_directory_content_result = andThen get_hash (\<lambda>x0. andThen (get_holder 4 get_shared_file_entry) (\<lambda>x1. return \<lparr>m_hdirectory_cdcr = x0, m_files_cdcr = x1\<rparr>))"

definition client_directory_content_result_wf :: "client_directory_content_result \<Rightarrow> bool" where
  "client_directory_content_result_wf m \<longleftrightarrow> hash_wf (m_hdirectory_cdcr m) \<and> holder_wf 4 shared_file_entry_wf (m_files_cdcr m)"

definition norm_client_directory_content_result :: "client_directory_content_result \<Rightarrow> client_directory_content_result" where
  "norm_client_directory_content_result m = m\<lparr>m_files_cdcr := map norm_shared_file_entry (m_files_cdcr m)\<rparr>"

interpretation client_directory_content_result_c: codec put_client_directory_content_result get_client_directory_content_result client_directory_content_result_wf norm_client_directory_content_result
  by (rule codecI) (simp_all add: put_client_directory_content_result_def get_client_directory_content_result_def client_directory_content_result_wf_def norm_client_directory_content_result_def reader_simps wire_rounds local_intros wire_locals)

lemmas [wire_rounds] = client_directory_content_result_c.round
lemmas [wire_locals] = client_directory_content_result_c.local

end
