(* ===== verification/Packet_Special.thy ===== *)
theory Packet_Special
  imports Packet_Structs Bitfield
begin

text \<open>
  The structures of \<open>packet_struct.hpp\<close> whose two halves differ, look at the bytes left, or exist in
  one direction only, the structures parametrised by the width of file offsets, and the option
  words of the hello messages.
\<close>

section \<open>Offsets of 32 or 64 bits\<close>

record 'a client_request_parts =
  m_hFile_crp :: bytes
  m_begin_offset :: "'a list"
  m_end_offset :: "'a list"
  m_parts :: nat

definition client_request_parts_new :: "bytes \<Rightarrow> ('a::len word) client_request_parts" where
  "client_request_parts_new h = \<lparr>m_hFile_crp = h, m_begin_offset = [0, 0, 0], m_end_offset = [0, 0, 0], m_parts = 0\<rparr>"

definition parts_reset :: "('a::len word) client_request_parts \<Rightarrow> ('a word) client_request_parts" where
  "parts_reset m = m\<lparr>m_parts := 0, m_begin_offset := [0, 0, 0], m_end_offset := [0, 0, 0]\<rparr>"

definition parts_full :: "'a client_request_parts \<Rightarrow> bool" where
  "parts_full m \<longleftrightarrow> 2 < m_parts m"

definition parts_empty :: "'a client_request_parts \<Rightarrow> bool" where
  "parts_empty m \<longleftrightarrow> m_parts m = 0"

definition parts_append :: "'a \<times> 'a \<Rightarrow> 'a client_request_parts \<Rightarrow> 'a client_request_parts" where
  "parts_append rg m = m\<lparr>m_begin_offset := (m_begin_offset m)[m_parts m := fst rg],
     m_end_offset := (m_end_offset m)[m_parts m := snd rg], m_parts := m_parts m + 1\<rparr>"

definition put_request_parts :: "nat \<Rightarrow> ('a::len word) client_request_parts \<Rightarrow> bytes" where
  "put_request_parts w m = put_hash (m_hFile_crp m) @
     put_word w (m_begin_offset m ! 0) @ put_word w (m_begin_offset m ! 1) @ put_word w (m_begin_offset m ! 2) @
     put_word w (m_end_offset m ! 0) @ put_word w (m_end_offset m ! 1) @ put_word w (m_end_offset m ! 2)"

text \<open>A loaded structure has \<open>m_parts\<close> as the default constructor leaves it.\<close>

definition get_request_parts :: "nat \<Rightarrow> ('a::len word) client_request_parts reader" where
  "get_request_parts w = andThen get_hash (\<lambda>h.
     andThen (get_word w) (\<lambda>b0. andThen (get_word w) (\<lambda>b1. andThen (get_word w) (\<lambda>b2.
     andThen (get_word w) (\<lambda>e0. andThen (get_word w) (\<lambda>e1. andThen (get_word w) (\<lambda>e2.
       return \<lparr>m_hFile_crp = h, m_begin_offset = [b0, b1, b2], m_end_offset = [e0, e1, e2], m_parts = 0\<rparr>)))))))"

definition request_parts_wf :: "'a client_request_parts \<Rightarrow> bool" where
  "request_parts_wf m \<longleftrightarrow> hash_wf (m_hFile_crp m) \<and> length (m_begin_offset m) = 3 \<and> length (m_end_offset m) = 3"

record 'a client_sending_part =
  m_hFile_csp :: bytes
  m_begin_offset_csp :: 'a
  m_end_offset_csp :: 'a

definition put_sending_part :: "nat \<Rightarrow> ('a::len word) client_sending_part \<Rightarrow> bytes" where
  "put_sending_part w m = put_hash (m_hFile_csp m) @ put_word w (m_begin_offset_csp m) @ put_word w (m_end_offset_csp m)"

definition get_sending_part :: "nat \<Rightarrow> ('a::len word) client_sending_part reader" where
  "get_sending_part w = andThen get_hash (\<lambda>h. andThen (get_word w) (\<lambda>b. andThen (get_word w) (\<lambda>e.
     return \<lparr>m_hFile_csp = h, m_begin_offset_csp = b, m_end_offset_csp = e\<rparr>)))"

record 'a client_compressed_part =
  m_hFile_ccp :: bytes
  m_begin_offset_ccp :: 'a
  m_compressed_size :: uint32

definition put_compressed_part :: "nat \<Rightarrow> ('a::len word) client_compressed_part \<Rightarrow> bytes" where
  "put_compressed_part w m = put_hash (m_hFile_ccp m) @ put_word w (m_begin_offset_ccp m) @ put_word 4 (m_compressed_size m)"

definition get_compressed_part :: "nat \<Rightarrow> ('a::len word) client_compressed_part reader" where
  "get_compressed_part w = andThen get_hash (\<lambda>h. andThen (get_word w) (\<lambda>b. andThen (get_word 4) (\<lambda>s.
     return \<lparr>m_hFile_ccp = h, m_begin_offset_ccp = b, m_compressed_size = s\<rparr>)))"

lemma three: "length xs = 3 \<Longrightarrow> [xs ! 0, xs ! 1, xs ! 2] = xs"
  by (rule nth_equalityI) (auto simp: less_Suc_eq numeral_eq_Suc)

lemma request_parts_codec:
  assumes "8 * w = LENGTH('a::len)"
  shows "codec (put_request_parts w :: ('a word) client_request_parts \<Rightarrow> bytes) (get_request_parts w) request_parts_wf (\<lambda>m. m\<lparr>m_parts := 0\<rparr>)"
proof (rule codecI)
  fix m :: "('a word) client_request_parts" and rest
  assume "request_parts_wf m"
  then show "get_request_parts w (put_request_parts w m @ rest) = Inr (m\<lparr>m_parts := 0\<rparr>, rest)"
    using assms three [of "m_begin_offset m"] three [of "m_end_offset m"]
    by (simp add: put_request_parts_def get_request_parts_def request_parts_wf_def reader_simps wire_rounds)
qed (simp add: get_request_parts_def local_intros wire_locals)

interpretation parts32: codec "put_request_parts 4 :: uint32 client_request_parts \<Rightarrow> bytes" "get_request_parts 4" request_parts_wf "\<lambda>m. m\<lparr>m_parts := 0\<rparr>"
  by (rule request_parts_codec) simp

interpretation parts64: codec "put_request_parts 8 :: (64 word) client_request_parts \<Rightarrow> bytes" "get_request_parts 8" request_parts_wf "\<lambda>m. m\<lparr>m_parts := 0\<rparr>"
  by (rule request_parts_codec) simp

lemma sending_part_codec:
  "8 * w = LENGTH('a::len) \<Longrightarrow> codec (put_sending_part w :: ('a word) client_sending_part \<Rightarrow> bytes) (get_sending_part w)
     (\<lambda>m. hash_wf (m_hFile_csp m)) (\<lambda>m. m)"
  by (rule codecI) (simp_all add: put_sending_part_def get_sending_part_def reader_simps wire_rounds local_intros wire_locals)

interpretation sending32: codec "put_sending_part 4 :: uint32 client_sending_part \<Rightarrow> bytes" "get_sending_part 4" "\<lambda>m. hash_wf (m_hFile_csp m)" "\<lambda>m. m"
  by (rule sending_part_codec) simp

interpretation sending64: codec "put_sending_part 8 :: (64 word) client_sending_part \<Rightarrow> bytes" "get_sending_part 8" "\<lambda>m. hash_wf (m_hFile_csp m)" "\<lambda>m. m"
  by (rule sending_part_codec) simp

lemma compressed_part_codec:
  "8 * w = LENGTH('a::len) \<Longrightarrow> codec (put_compressed_part w :: ('a word) client_compressed_part \<Rightarrow> bytes) (get_compressed_part w)
     (\<lambda>m. hash_wf (m_hFile_ccp m)) (\<lambda>m. m)"
  by (rule codecI) (simp_all add: put_compressed_part_def get_compressed_part_def reader_simps wire_rounds local_intros wire_locals)

interpretation compressed32: codec "put_compressed_part 4 :: uint32 client_compressed_part \<Rightarrow> bytes" "get_compressed_part 4" "\<lambda>m. hash_wf (m_hFile_ccp m)" "\<lambda>m. m"
  by (rule compressed_part_codec) simp

interpretation compressed64: codec "put_compressed_part 8 :: (64 word) client_compressed_part \<Rightarrow> bytes" "get_compressed_part 8" "\<lambda>m. hash_wf (m_hFile_ccp m)" "\<lambda>m. m"
  by (rule compressed_part_codec) simp

section \<open>Messages of text\<close>

record server_message =
  m_nLength :: uint16
  m_strMessage_sm :: bytes

text \<open>The one \<open>serialize\<close> adjusts the string to the length before it writes it as well.\<close>

definition put_server_message :: "server_message \<Rightarrow> bytes" where
  "put_server_message m = put_word 2 (m_nLength m) @ resize (unat (m_nLength m)) 0 (m_strMessage_sm m)"

definition get_server_message :: "server_message reader" where
  "get_server_message = andThen (get_word 2) (\<lambda>n. andThen (get_string (unat n)) (\<lambda>s.
     return \<lparr>m_nLength = n, m_strMessage_sm = s\<rparr>))"

interpretation server_message_c: codec put_server_message get_server_message "\<lambda>m. length (m_strMessage_sm m) = unat (m_nLength m)" "\<lambda>m. m"
  by (rule codecI) (simp_all add: put_server_message_def get_server_message_def reader_simps local_intros resize_def)

record client_message =
  m_nMsgLength :: uint16
  m_strMessage :: bytes

definition CLIENT_MAX_MESSAGE_LENGTH :: uint16 where
  "CLIENT_MAX_MESSAGE_LENGTH = 450"

definition client_message_new :: "bytes \<Rightarrow> client_message" where
  "client_message_new strMessage =
    (let n = (of_nat (length strMessage) :: uint16);
         n = (if CLIENT_MAX_MESSAGE_LENGTH < n then CLIENT_MAX_MESSAGE_LENGTH else n)
     in \<lparr>m_nMsgLength = n, m_strMessage = take (unat n) strMessage\<rparr>)"

definition put_client_message :: "client_message \<Rightarrow> bytes" where
  "put_client_message m = put_word 2 (m_nMsgLength m) @ m_strMessage m"

definition get_client_message :: "client_message reader" where
  "get_client_message = andThen (get_word 2) (\<lambda>n.
     let n = (if CLIENT_MAX_MESSAGE_LENGTH < n then CLIENT_MAX_MESSAGE_LENGTH else n)
     in andThen (get_string (unat n)) (\<lambda>s. return \<lparr>m_nMsgLength = n, m_strMessage = s\<rparr>))"

definition client_message_wf :: "client_message \<Rightarrow> bool" where
  "client_message_wf m \<longleftrightarrow> m_nMsgLength m \<le> CLIENT_MAX_MESSAGE_LENGTH \<and> length (m_strMessage m) = unat (m_nMsgLength m)"

interpretation client_message_c: codec put_client_message get_client_message client_message_wf "\<lambda>m. m"
  by (rule codecI)
    (auto simp: put_client_message_def get_client_message_def client_message_wf_def Let_def reader_simps local_intros dest: leD)

record client_captcha_request =
  m_list_ccr :: "tag list"
  m_captcha :: bytes

definition put_captcha_request :: "client_captcha_request \<Rightarrow> bytes" where
  "put_captcha_request m = tag_list_save 1 (m_list_ccr m) @ put_many (put_word 1) (m_captcha m)"

text \<open>The picture is all that is left in the packet.\<close>

definition get_captcha_request :: "client_captcha_request reader" where
  "get_captcha_request = andThen (tag_list_load 1) (\<lambda>ts bs.
     andThen (get_many (get_word 1) (length bs)) (\<lambda>c. return \<lparr>m_list_ccr = ts, m_captcha = c\<rparr>) bs)"

section \<open>Messages with optional ends\<close>

text \<open>
  \<open>DECREMENT_READ\<close> reads a field if the given count is at least its size and ends the function
  otherwise; it does not decrement anything.
\<close>

definition DECREMENT_READ :: "nat \<Rightarrow> nat \<Rightarrow> 'a reader \<Rightarrow> ('a \<Rightarrow> 'b reader) \<Rightarrow> 'b \<Rightarrow> 'b reader" where
  "DECREMENT_READ n x g k r = (if x \<le> n then andThen g k else return r)"

record id_change =
  m_client_id :: uint32
  m_tcp_flags :: uint32
  m_aux_port :: uint32

text \<open>\<open>bytes_left()\<close> of an output archive is 0, so only the id is saved.\<close>

definition put_id_change :: "id_change \<Rightarrow> bytes" where
  "put_id_change m = put_word 4 (m_client_id m)"

definition get_id_change :: "id_change reader" where
  "get_id_change = andThen (get_word 4) (\<lambda>i bs.
     let r = \<lparr>m_client_id = i, m_tcp_flags = 0, m_aux_port = 0\<rparr>
     in DECREMENT_READ (length bs) 4 (get_word 4) (\<lambda>f bs.
          let r = r\<lparr>m_tcp_flags := f\<rparr>
          in DECREMENT_READ (length bs) 4 (get_word 4) (\<lambda>a. return (r\<lparr>m_aux_port := a\<rparr>)) r bs) r bs)"

record search_result =
  m_files_sr :: "shared_file_entry list"
  m_more_results_avaliable :: uint8

definition get_search_result :: "search_result reader" where
  "get_search_result = andThen (get_holder 4 get_shared_file_entry) (\<lambda>fs bs.
     if length bs = 1 then andThen (get_word 1) (\<lambda>c. return \<lparr>m_files_sr = fs, m_more_results_avaliable = c\<rparr>) bs
     else Inr (\<lparr>m_files_sr = fs, m_more_results_avaliable = 0\<rparr>, bs))"

record global_server_state_res =
  m_nChallenge :: uint32
  m_nUsersCount :: uint32
  m_nFilesCount_gs :: uint32
  m_nCurrentMaxUsers :: uint32
  m_nSoftFiles :: uint32
  m_nHardFiles :: uint32
  m_nUDPFlags :: uint32
  m_nLowIdUsers :: uint32
  m_nUDPObfuscationPort :: uint16
  m_nTCPObfuscationPort :: uint16
  m_nServerUDPKey :: uint32

text \<open>
  \<open>nCounter -= sizeof(a) - sizeof(b) - sizeof(c)\<close> on \<open>size_t\<close> subtracts \<open>4 - 4 - 4\<close>, that is, adds 4.
\<close>

definition state_counter :: "nat \<Rightarrow> nat" where
  "state_counter nMaxSize = unat ((of_nat nMaxSize :: 64 word) - (4 - 4 - 4))"

definition get_state_res :: "nat \<Rightarrow> global_server_state_res reader" where
  "get_state_res nMaxSize =
    andThen (get_word 4) (\<lambda>a. andThen (get_word 4) (\<lambda>b. andThen (get_word 4) (\<lambda>c.
      let nCounter = state_counter nMaxSize;
          r = \<lparr>m_nChallenge = a, m_nUsersCount = b, m_nFilesCount_gs = c, m_nCurrentMaxUsers = 0, m_nSoftFiles = 0,
               m_nHardFiles = 0, m_nUDPFlags = 0, m_nLowIdUsers = 0, m_nUDPObfuscationPort = 0, m_nTCPObfuscationPort = 0,
               m_nServerUDPKey = 0\<rparr>
      in DECREMENT_READ nCounter 4 (get_word 4) (\<lambda>x. let r = r\<lparr>m_nCurrentMaxUsers := x\<rparr>
      in DECREMENT_READ nCounter 4 (get_word 4) (\<lambda>x. let r = r\<lparr>m_nSoftFiles := x\<rparr>
      in DECREMENT_READ nCounter 4 (get_word 4) (\<lambda>x. let r = r\<lparr>m_nHardFiles := x\<rparr>
      in DECREMENT_READ nCounter 4 (get_word 4) (\<lambda>x. let r = r\<lparr>m_nUDPFlags := x\<rparr>
      in DECREMENT_READ nCounter 4 (get_word 4) (\<lambda>x. let r = r\<lparr>m_nLowIdUsers := x\<rparr>
      in DECREMENT_READ nCounter 2 (get_word 2) (\<lambda>x. let r = r\<lparr>m_nUDPObfuscationPort := x\<rparr>
      in DECREMENT_READ nCounter 2 (get_word 2) (\<lambda>x. let r = r\<lparr>m_nTCPObfuscationPort := x\<rparr>
      in DECREMENT_READ nCounter 4 (get_word 4) (\<lambda>x. return (r\<lparr>m_nServerUDPKey := x\<rparr>))
      r) r) r) r) r) r) r) r)))"

section \<open>Requests for sources\<close>

text \<open>
  \<open>get_file_sources\<close> is saved only; \<open>nQuadPart\<close> overlays the two halves of the size.
\<close>

record get_file_sources =
  m_hFile_gfs :: bytes
  m_file_size :: "64 word"

definition nLowPart :: "64 word \<Rightarrow> uint32" where
  "nLowPart q = ucast q"

definition nHighPart :: "64 word \<Rightarrow> uint32" where
  "nHighPart q = ucast (drop_bit 32 q)"

definition put_file_size :: "64 word \<Rightarrow> bytes" where
  "put_file_size q = put_word 4 (nLowPart q) @ (if 0 < nHighPart q then put_word 4 (nHighPart q) else [])"

definition put_get_file_sources :: "get_file_sources \<Rightarrow> bytes" where
  "put_get_file_sources m = put_hash (m_hFile_gfs m) @
     (if 0 < nHighPart (m_file_size m) then put_word 4 (0 :: uint32) else []) @ put_file_size (m_file_size m)"

record sources_answer_element =
  client_id_sae :: net_identifier
  server_id_sae :: net_identifier
  client_hash_sae :: bytes
  flag_sae :: uint8

definition put_sources_element :: "int \<Rightarrow> sources_answer_element \<Rightarrow> bytes" where
  "put_sources_element sx_version m = put_net_identifier (client_id_sae m) @ put_net_identifier (server_id_sae m) @
     (if 1 < sx_version then put_hash (client_hash_sae m) else []) @ (if 3 < sx_version then put_word 1 (flag_sae m) else [])"

definition get_sources_element :: "int \<Rightarrow> sources_answer_element reader" where
  "get_sources_element sx_version = andThen get_net_identifier (\<lambda>c. andThen get_net_identifier (\<lambda>s.
     andThen (if 1 < sx_version then get_hash else return (replicate 16 0)) (\<lambda>h.
     andThen (if 3 < sx_version then get_word 1 else return 0) (\<lambda>f.
       return \<lparr>client_id_sae = c, server_id_sae = s, client_hash_sae = h, flag_sae = f\<rparr>))))"

record sources_answer_base =
  file_hash :: bytes
  size_sab :: uint16
  elems :: "sources_answer_element list"

text \<open>The saving half sets \<open>size\<close> and does not write it.\<close>

definition put_sources_answer :: "int \<Rightarrow> sources_answer_base \<Rightarrow> bytes" where
  "put_sources_answer sx_version m = put_hash (file_hash m) @ put_many (put_sources_element sx_version) (elems m)"

definition get_sources_answer :: "int \<Rightarrow> sources_answer_base reader" where
  "get_sources_answer sx_version = andThen get_hash (\<lambda>h. andThen (get_word 2) (\<lambda>n.
     andThen (get_many (get_sources_element sx_version) (unat n)) (\<lambda>es. return \<lparr>file_hash = h, size_sab = n, elems = es\<rparr>)))"

section \<open>The status of a file\<close>

record client_file_status =
  m_hFile_cfs :: bytes
  m_status :: bitfield

definition bits2bytes :: "nat \<Rightarrow> nat" where
  "bits2bytes n = (n + 8 - 1) div 8"

definition put_file_status :: "client_file_status \<Rightarrow> bytes" where
  "put_file_status m =
    (let n = (of_nat (m_size (m_status m)) :: uint16)
     in put_hash (m_hFile_cfs m) @
       (if unat n < bitfield_count (m_status m)
        then put_word 2 n @ take (bits2bytes (unat n)) (contents (m_status m))
        else put_word 2 (0 :: uint16)))"

text \<open>\<open>m_status\<close> of the structure that is loaded is the bitfield it had; fresh memory is \<open>junk\<close>.\<close>

definition get_file_status :: "(nat \<Rightarrow> uint8) \<Rightarrow> bitfield \<Rightarrow> client_file_status reader" where
  "get_file_status junk bf = andThen get_hash (\<lambda>h. andThen (get_word 2) (\<lambda>n :: uint16.
     if 0 < n then andThen (raw_read (bits2bytes (unat n))) (\<lambda>buf.
       return \<lparr>m_hFile_cfs = h, m_status = bitfield_assign junk buf (unat n) bf\<rparr>)
     else return \<lparr>m_hFile_cfs = h, m_status = bf\<rparr>))"

section \<open>Option words\<close>

record misc_options =
  m_nAICHVersion :: uint32
  m_nUnicodeSupport :: uint32
  m_nUDPVer :: uint32
  m_nDataCompVer :: uint32
  m_nSupportSecIdent :: uint32
  m_nSourceExchange1Ver :: uint32
  m_nExtendedRequestsVer :: uint32
  m_nAcceptCommentVer :: uint32
  m_nNoViewSharedFiles :: uint32
  m_nMultiPacket :: uint32
  m_nSupportsPreview :: uint32

definition misc_options_load :: "uint32 \<Rightarrow> misc_options" where
  "misc_options_load opts =
    \<lparr>m_nAICHVersion = drop_bit (4 * 7 + 1) opts AND 0x07,
     m_nUnicodeSupport = drop_bit (4 * 7) opts AND 0x01,
     m_nUDPVer = drop_bit (4 * 6) opts AND 0x0f,
     m_nDataCompVer = drop_bit (4 * 5) opts AND 0x0f,
     m_nSupportSecIdent = drop_bit (4 * 4) opts AND 0x0f,
     m_nSourceExchange1Ver = drop_bit (4 * 3) opts AND 0x0f,
     m_nExtendedRequestsVer = drop_bit (4 * 2) opts AND 0x0f,
     m_nAcceptCommentVer = drop_bit (4 * 1) opts AND 0x0f,
     m_nNoViewSharedFiles = drop_bit (1 * 2) opts AND 0x01,
     m_nMultiPacket = drop_bit (1 * 1) opts AND 0x01,
     m_nSupportsPreview = drop_bit (1 * 0) opts AND 0x01\<rparr>"

definition misc_options_generate :: "misc_options \<Rightarrow> uint32" where
  "misc_options_generate m =
     push_bit (4 * 7 + 1) (m_nAICHVersion m) OR push_bit (4 * 7) (m_nUnicodeSupport m) OR
     push_bit (4 * 6) (m_nUDPVer m) OR push_bit (4 * 5) (m_nDataCompVer m) OR
     push_bit (4 * 4) (m_nSupportSecIdent m) OR push_bit (4 * 3) (m_nSourceExchange1Ver m) OR
     push_bit (4 * 2) (m_nExtendedRequestsVer m) OR push_bit (4 * 1) (m_nAcceptCommentVer m) OR
     push_bit (1 * 2) (m_nNoViewSharedFiles m) OR push_bit (1 * 1) (m_nMultiPacket m) OR
     push_bit (1 * 0) (m_nSupportsPreview m)"

definition misc_options_wf :: "misc_options \<Rightarrow> bool" where
  "misc_options_wf m \<longleftrightarrow> m_nAICHVersion m \<le> 7 \<and> m_nUnicodeSupport m \<le> 1 \<and> m_nUDPVer m \<le> 15 \<and> m_nDataCompVer m \<le> 15 \<and>
     m_nSupportSecIdent m \<le> 15 \<and> m_nSourceExchange1Ver m \<le> 15 \<and> m_nExtendedRequestsVer m \<le> 15 \<and>
     m_nAcceptCommentVer m \<le> 15 \<and> m_nNoViewSharedFiles m \<le> 1 \<and> m_nMultiPacket m \<le> 1 \<and> m_nSupportsPreview m \<le> 1"

text \<open>\<open>misc_options2\<close> keeps the word itself.\<close>

definition LARGE_FILE_OFFSET :: nat where "LARGE_FILE_OFFSET = 4"
definition MULTIP_OFFSET :: nat where "MULTIP_OFFSET = 5"
definition SRC_EXT_OFFSET :: nat where "SRC_EXT_OFFSET = 10"
definition CAPTHA_OFFSET :: nat where "CAPTHA_OFFSET = 11"

definition support_option :: "nat \<Rightarrow> uint32 \<Rightarrow> bool" where
  "support_option offset m_options \<longleftrightarrow> drop_bit offset m_options AND 0x01 \<noteq> 0"

definition set_option :: "nat \<Rightarrow> uint32 \<Rightarrow> uint32" where
  "set_option offset m_options = m_options OR push_bit offset 1"

definition support_captcha :: "uint32 \<Rightarrow> bool" where "support_captcha = support_option CAPTHA_OFFSET"
definition support_source_ext2 :: "uint32 \<Rightarrow> bool" where "support_source_ext2 = support_option SRC_EXT_OFFSET"
definition support_ext_multipacket :: "uint32 \<Rightarrow> bool" where "support_ext_multipacket = support_option MULTIP_OFFSET"
definition support_large_files :: "uint32 \<Rightarrow> bool" where "support_large_files = support_option LARGE_FILE_OFFSET"
definition set_captcha :: "uint32 \<Rightarrow> uint32" where "set_captcha = set_option CAPTHA_OFFSET"
definition set_source_ext2 :: "uint32 \<Rightarrow> uint32" where "set_source_ext2 = set_option SRC_EXT_OFFSET"
definition set_ext_multipacket :: "uint32 \<Rightarrow> uint32" where "set_ext_multipacket = set_option MULTIP_OFFSET"
definition set_large_files :: "uint32 \<Rightarrow> uint32" where "set_large_files = set_option LARGE_FILE_OFFSET"

lemma support_option_bit: "support_option k w \<longleftrightarrow> bit w k"
  by (simp add: support_option_def and_one_eq mod_2_eq_odd bit_iff_odd_drop_bit)

lemma set_option_bit: "k < 32 \<Longrightarrow> bit (set_option k w) n \<longleftrightarrow> n = k \<or> bit w n"
  by (auto simp: set_option_def bit_or_iff bit_push_bit_iff bit_1_iff simp del: push_bit_of_1)

lemma low_masks: "(0x07 :: uint32) = mask 3" "(0x01 :: uint32) = mask 1" "(0x0f :: uint32) = mask 4"
  by (simp_all add: mask_eq_exp_minus_1)

lemma bits_bounded: "unat (w :: uint32) < 2 ^ k \<Longrightarrow> k \<le> n \<Longrightarrow> bit w n \<longleftrightarrow> False"
proof -
  assume "unat w < 2 ^ k" "k \<le> n"
  then have "unat w < 2 ^ n" by (meson less_le_trans power_increasing one_le_numeral)
  then have "\<not> bit (unat w) n" by (simp add: bit_iff_odd)
  then show ?thesis by (auto simp: bit_unsigned_iff dest: bit_imp_le_length)
qed

lemma field_bit:
  "bit (push_bit k (drop_bit k w AND mask l)) n \<longleftrightarrow> k \<le> n \<and> n < k + l \<and> bit w n" for w :: uint32
  by (auto simp: bit_push_bit_iff bit_and_iff bit_drop_bit_eq bit_mask_iff dest: bit_imp_le_length)

lemma misc_options_generate_bit:
  "bit (misc_options_generate (misc_options_load opts)) n \<longleftrightarrow> n \<noteq> 3 \<and> bit opts n"
proof (cases "bit opts n")
  case True
  then have "n < 32" using bit_imp_le_length [of opts n] by simp
  then have "n \<in> set [0, 1, 2, 3, 4, 5, 6, 7, 8, 9, 10, 11, 12, 13, 14, 15, 16, 17, 18, 19, 20, 21, 22, 23, 24, 25, 26, 27, 28, 29, 30, 31]"
    by (simp only: list.set insert_iff empty_iff) presburger
  then show ?thesis using True
    unfolding misc_options_generate_def misc_options_load_def misc_options.simps low_masks bit_or_iff field_bit list.set
    by (elim insertE) simp_all
next
  case False
  then show ?thesis
    unfolding misc_options_generate_def misc_options_load_def misc_options.simps low_masks bit_or_iff field_bit by simp
qed

lemma misc_options_load_generate:
  assumes "misc_options_wf m"
  shows "misc_options_load (misc_options_generate m) = m"
proof -
  have b: "unat (m_nAICHVersion m) < 2 ^ 3" "unat (m_nUnicodeSupport m) < 2 ^ 1" "unat (m_nUDPVer m) < 2 ^ 4"
    "unat (m_nDataCompVer m) < 2 ^ 4" "unat (m_nSupportSecIdent m) < 2 ^ 4" "unat (m_nSourceExchange1Ver m) < 2 ^ 4"
    "unat (m_nExtendedRequestsVer m) < 2 ^ 4" "unat (m_nAcceptCommentVer m) < 2 ^ 4" "unat (m_nNoViewSharedFiles m) < 2 ^ 1"
    "unat (m_nMultiPacket m) < 2 ^ 1" "unat (m_nSupportsPreview m) < 2 ^ 1"
    using assms by (simp_all add: misc_options_wf_def word_le_nat_alt)
  note z = b [THEN bits_bounded]
  define g where "g = misc_options_generate m"
  have g: "bit g n \<longleftrightarrow> n < 32 \<and> (29 \<le> n \<and> bit (m_nAICHVersion m) (n - 29) \<or> 28 \<le> n \<and> bit (m_nUnicodeSupport m) (n - 28) \<or>
      24 \<le> n \<and> bit (m_nUDPVer m) (n - 24) \<or> 20 \<le> n \<and> bit (m_nDataCompVer m) (n - 20) \<or>
      16 \<le> n \<and> bit (m_nSupportSecIdent m) (n - 16) \<or> 12 \<le> n \<and> bit (m_nSourceExchange1Ver m) (n - 12) \<or>
      8 \<le> n \<and> bit (m_nExtendedRequestsVer m) (n - 8) \<or> 4 \<le> n \<and> bit (m_nAcceptCommentVer m) (n - 4) \<or>
      2 \<le> n \<and> bit (m_nNoViewSharedFiles m) (n - 2) \<or> 1 \<le> n \<and> bit (m_nMultiPacket m) (n - 1) \<or> bit (m_nSupportsPreview m) n)" for n
    unfolding g_def misc_options_generate_def bit_or_iff bit_push_bit_iff by auto
  have f: "drop_bit k g AND mask l = x" if "\<And>n. n < l \<Longrightarrow> bit g (k + n) = bit x n" "unat x < 2 ^ l" for k l and x :: uint32
  proof (rule bit_eqI)
    fix n
    show "bit (drop_bit k g AND mask l) n = bit x n"
      using that(1) [of n] bits_bounded [OF that(2), of n]
      by (cases "n < l") (auto simp: bit_and_iff bit_drop_bit_eq bit_mask_iff dest: bit_imp_le_length)
  qed
  have f1: "drop_bit k g AND 1 = x" if "bit g k = bit x 0" "unat x < 2" for k and x :: uint32
    using f [of 1 k x] that by (simp flip: low_masks(2))
  have f0: "g AND 1 = m_nSupportsPreview m" using f1 [of 0] b(11) by (simp add: g z)
  show ?thesis unfolding g_def [symmetric] misc_options_load_def low_masks
    using b by (intro misc_options.equality) (simp_all add: f f1 f0 g z)
qed

end
