(* ===== verification/Packets.thy ===== *)
theory Packets
  imports Packet_Special
begin

text \<open>
  The messages themselves: the opcodes of \<open>packet_type\<close>, the choice of the structure that is
  loaded for an opcode, the header with its checks, and the framing by \<open>make_message\<close> and
  \<open>extract_message\<close>.
\<close>

lemmas [wire_rounds] = parts32.round parts64.round sending32.round sending64.round compressed32.round compressed64.round
  client_message_c.round server_message_c.round
lemmas [wire_locals] = parts32.local parts64.local sending32.local sending64.local compressed32.local compressed64.local
  client_message_c.local server_message_c.local u8.local u16.local u32.local

section \<open>Messages between clients\<close>

text \<open>
  The pair of opcode and protocol selects the structure; a message with another pair is ignored,
  and the reader returns \<open>None\<close>.
\<close>

datatype client_packet =
    Hello client_hello
  | Hello_Answer client_hello_answer
  | Ext_Hello client_ext_hello
  | Ext_Hello_Answer client_ext_hello
  | Shared_Files_Request
  | Shared_Directories_Request
  | Shared_Directory_Files_Request bytes
  | Shared_Files_Answer "shared_file_entry list"
  | Shared_Directories_Answer "bytes list"
  | Shared_Directory_Files_Answer client_shared_directory_files_answer
  | File_Request bytes
  | File_Answer client_file_answer
  | Shared_Files_Denied
  | File_Description client_file_description
  | Filestatus_Request bytes
  | No_File bytes
  | Hashset_Request bytes
  | Hashset_Answer client_hashset_answer
  | Start_Upload bytes
  | Queue_Ranking uint16
  | Accept_Upload
  | Out_Parts
  | Cancel_Transfer
  | Request_Parts_32 "uint32 client_request_parts"
  | Request_Parts_64 "64 word client_request_parts"
  | Sending_Part_32 "uint32 client_sending_part"
  | Sending_Part_64 "64 word client_sending_part"
  | Compressed_Part_32 "uint32 client_compressed_part"
  | Compressed_Part_64 "64 word client_compressed_part"
  | End_Download bytes
  | Message client_message
  | Captcha_Result uint8
  | Public_Ip_Request
  | Public_Ip_Answer uint32
  | Directory_Content_Request bytes
  | Directory_Content_Result client_directory_content_result

primrec client_packet_type :: "client_packet \<Rightarrow> uint8 \<times> uint8" where
  "client_packet_type (Hello m) = (0x01, 0xE3)"
| "client_packet_type (Hello_Answer m) = (0x4C, 0xE3)"
| "client_packet_type (Ext_Hello m) = (0x01, 0xC5)"
| "client_packet_type (Ext_Hello_Answer m) = (0x02, 0xC5)"
| "client_packet_type Shared_Files_Request = (0x4A, 0xE3)"
| "client_packet_type Shared_Directories_Request = (0x5D, 0xE3)"
| "client_packet_type (Shared_Directory_Files_Request m) = (0x5E, 0xE3)"
| "client_packet_type (Shared_Files_Answer m) = (0x4B, 0xE3)"
| "client_packet_type (Shared_Directories_Answer m) = (0x5F, 0xE3)"
| "client_packet_type (Shared_Directory_Files_Answer m) = (0x60, 0xE3)"
| "client_packet_type (File_Request m) = (0x58, 0xE3)"
| "client_packet_type (File_Answer m) = (0x59, 0xE3)"
| "client_packet_type Shared_Files_Denied = (0x61, 0xE3)"
| "client_packet_type (File_Description m) = (0x61, 0xC5)"
| "client_packet_type (Filestatus_Request m) = (0x4F, 0xE3)"
| "client_packet_type (No_File m) = (0x48, 0xE3)"
| "client_packet_type (Hashset_Request m) = (0x51, 0xE3)"
| "client_packet_type (Hashset_Answer m) = (0x52, 0xE3)"
| "client_packet_type (Start_Upload m) = (0x54, 0xE3)"
| "client_packet_type (Queue_Ranking m) = (0x60, 0xC5)"
| "client_packet_type Accept_Upload = (0x55, 0xE3)"
| "client_packet_type Out_Parts = (0x57, 0xE3)"
| "client_packet_type Cancel_Transfer = (0x56, 0xE3)"
| "client_packet_type (Request_Parts_32 m) = (0x47, 0xE3)"
| "client_packet_type (Request_Parts_64 m) = (0xA3, 0xC5)"
| "client_packet_type (Sending_Part_32 m) = (0x46, 0xE3)"
| "client_packet_type (Sending_Part_64 m) = (0xA2, 0xC5)"
| "client_packet_type (Compressed_Part_32 m) = (0x40, 0xC5)"
| "client_packet_type (Compressed_Part_64 m) = (0xA1, 0xC5)"
| "client_packet_type (End_Download m) = (0x49, 0xE3)"
| "client_packet_type (Message m) = (0x4E, 0xE3)"
| "client_packet_type (Captcha_Result m) = (0xA6, 0xC5)"
| "client_packet_type Public_Ip_Request = (0x97, 0xC5)"
| "client_packet_type (Public_Ip_Answer m) = (0x98, 0xC5)"
| "client_packet_type (Directory_Content_Request m) = (0xB2, 0xE3)"
| "client_packet_type (Directory_Content_Result m) = (0xB3, 0xE3)"

primrec put_client_packet :: "client_packet \<Rightarrow> bytes" where
  "put_client_packet (Hello m) = put_client_hello m"
| "put_client_packet (Hello_Answer m) = put_client_hello_answer m"
| "put_client_packet (Ext_Hello m) = put_client_ext_hello m"
| "put_client_packet (Ext_Hello_Answer m) = put_client_ext_hello m"
| "put_client_packet Shared_Files_Request = []"
| "put_client_packet Shared_Directories_Request = []"
| "put_client_packet (Shared_Directory_Files_Request m) = put_holder 2 (put_word 1) m"
| "put_client_packet (Shared_Files_Answer m) = put_holder 4 put_shared_file_entry m"
| "put_client_packet (Shared_Directories_Answer m) = put_holder 4 (put_holder 2 (put_word 1)) m"
| "put_client_packet (Shared_Directory_Files_Answer m) = put_client_shared_directory_files_answer m"
| "put_client_packet (File_Request m) = put_hash m"
| "put_client_packet (File_Answer m) = put_client_file_answer m"
| "put_client_packet Shared_Files_Denied = []"
| "put_client_packet (File_Description m) = put_client_file_description m"
| "put_client_packet (Filestatus_Request m) = put_hash m"
| "put_client_packet (No_File m) = put_hash m"
| "put_client_packet (Hashset_Request m) = put_hash m"
| "put_client_packet (Hashset_Answer m) = put_client_hashset_answer m"
| "put_client_packet (Start_Upload m) = put_hash m"
| "put_client_packet (Queue_Ranking m) = put_word 2 m"
| "put_client_packet Accept_Upload = []"
| "put_client_packet Out_Parts = []"
| "put_client_packet Cancel_Transfer = []"
| "put_client_packet (Request_Parts_32 m) = put_request_parts 4 m"
| "put_client_packet (Request_Parts_64 m) = put_request_parts 8 m"
| "put_client_packet (Sending_Part_32 m) = put_sending_part 4 m"
| "put_client_packet (Sending_Part_64 m) = put_sending_part 8 m"
| "put_client_packet (Compressed_Part_32 m) = put_compressed_part 4 m"
| "put_client_packet (Compressed_Part_64 m) = put_compressed_part 8 m"
| "put_client_packet (End_Download m) = put_hash m"
| "put_client_packet (Message m) = put_client_message m"
| "put_client_packet (Captcha_Result m) = put_word 1 m"
| "put_client_packet Public_Ip_Request = []"
| "put_client_packet (Public_Ip_Answer m) = put_word 4 m"
| "put_client_packet (Directory_Content_Request m) = put_hash m"
| "put_client_packet (Directory_Content_Result m) = put_client_directory_content_result m"

definition get_client_packet :: "uint8 \<times> uint8 \<Rightarrow> client_packet option reader" where
  "get_client_packet t =
    (if t = (0x01, 0xE3) then andThen get_client_hello (\<lambda>m. return (Some (Hello m)))
     else if t = (0x4C, 0xE3) then andThen get_client_hello_answer (\<lambda>m. return (Some (Hello_Answer m)))
     else if t = (0x01, 0xC5) then andThen get_client_ext_hello (\<lambda>m. return (Some (Ext_Hello m)))
     else if t = (0x02, 0xC5) then andThen get_client_ext_hello (\<lambda>m. return (Some (Ext_Hello_Answer m)))
     else if t = (0x4A, 0xE3) then return (Some Shared_Files_Request)
     else if t = (0x5D, 0xE3) then return (Some Shared_Directories_Request)
     else if t = (0x5E, 0xE3) then andThen (get_holder 2 (get_word 1)) (\<lambda>m. return (Some (Shared_Directory_Files_Request m)))
     else if t = (0x4B, 0xE3) then andThen (get_holder 4 get_shared_file_entry) (\<lambda>m. return (Some (Shared_Files_Answer m)))
     else if t = (0x5F, 0xE3) then andThen (get_holder 4 (get_holder 2 (get_word 1))) (\<lambda>m. return (Some (Shared_Directories_Answer m)))
     else if t = (0x60, 0xE3) then andThen get_client_shared_directory_files_answer (\<lambda>m. return (Some (Shared_Directory_Files_Answer m)))
     else if t = (0x58, 0xE3) then andThen get_hash (\<lambda>m. return (Some (File_Request m)))
     else if t = (0x59, 0xE3) then andThen get_client_file_answer (\<lambda>m. return (Some (File_Answer m)))
     else if t = (0x61, 0xE3) then return (Some Shared_Files_Denied)
     else if t = (0x61, 0xC5) then andThen get_client_file_description (\<lambda>m. return (Some (File_Description m)))
     else if t = (0x4F, 0xE3) then andThen get_hash (\<lambda>m. return (Some (Filestatus_Request m)))
     else if t = (0x48, 0xE3) then andThen get_hash (\<lambda>m. return (Some (No_File m)))
     else if t = (0x51, 0xE3) then andThen get_hash (\<lambda>m. return (Some (Hashset_Request m)))
     else if t = (0x52, 0xE3) then andThen get_client_hashset_answer (\<lambda>m. return (Some (Hashset_Answer m)))
     else if t = (0x54, 0xE3) then andThen get_hash (\<lambda>m. return (Some (Start_Upload m)))
     else if t = (0x60, 0xC5) then andThen (get_word 2) (\<lambda>m. return (Some (Queue_Ranking m)))
     else if t = (0x55, 0xE3) then return (Some Accept_Upload)
     else if t = (0x57, 0xE3) then return (Some Out_Parts)
     else if t = (0x56, 0xE3) then return (Some Cancel_Transfer)
     else if t = (0x47, 0xE3) then andThen (get_request_parts 4) (\<lambda>m. return (Some (Request_Parts_32 m)))
     else if t = (0xA3, 0xC5) then andThen (get_request_parts 8) (\<lambda>m. return (Some (Request_Parts_64 m)))
     else if t = (0x46, 0xE3) then andThen (get_sending_part 4) (\<lambda>m. return (Some (Sending_Part_32 m)))
     else if t = (0xA2, 0xC5) then andThen (get_sending_part 8) (\<lambda>m. return (Some (Sending_Part_64 m)))
     else if t = (0x40, 0xC5) then andThen (get_compressed_part 4) (\<lambda>m. return (Some (Compressed_Part_32 m)))
     else if t = (0xA1, 0xC5) then andThen (get_compressed_part 8) (\<lambda>m. return (Some (Compressed_Part_64 m)))
     else if t = (0x49, 0xE3) then andThen get_hash (\<lambda>m. return (Some (End_Download m)))
     else if t = (0x4E, 0xE3) then andThen get_client_message (\<lambda>m. return (Some (Message m)))
     else if t = (0xA6, 0xC5) then andThen (get_word 1) (\<lambda>m. return (Some (Captcha_Result m)))
     else if t = (0x97, 0xC5) then return (Some Public_Ip_Request)
     else if t = (0x98, 0xC5) then andThen (get_word 4) (\<lambda>m. return (Some (Public_Ip_Answer m)))
     else if t = (0xB2, 0xE3) then andThen get_hash (\<lambda>m. return (Some (Directory_Content_Request m)))
     else if t = (0xB3, 0xE3) then andThen get_client_directory_content_result (\<lambda>m. return (Some (Directory_Content_Result m)))
     else return None)"

primrec client_packet_wf :: "client_packet \<Rightarrow> bool" where
  "client_packet_wf (Hello m) \<longleftrightarrow> client_hello_wf m"
| "client_packet_wf (Hello_Answer m) \<longleftrightarrow> client_hello_answer_wf m"
| "client_packet_wf (Ext_Hello m) \<longleftrightarrow> client_ext_hello_wf m"
| "client_packet_wf (Ext_Hello_Answer m) \<longleftrightarrow> client_ext_hello_wf m"
| "client_packet_wf Shared_Files_Request \<longleftrightarrow> True"
| "client_packet_wf Shared_Directories_Request \<longleftrightarrow> True"
| "client_packet_wf (Shared_Directory_Files_Request m) \<longleftrightarrow> holder_wf 2 (\<lambda>x. True) m"
| "client_packet_wf (Shared_Files_Answer m) \<longleftrightarrow> holder_wf 4 shared_file_entry_wf m"
| "client_packet_wf (Shared_Directories_Answer m) \<longleftrightarrow> holder_wf 4 (holder_wf 2 (\<lambda>x. True)) m"
| "client_packet_wf (Shared_Directory_Files_Answer m) \<longleftrightarrow> client_shared_directory_files_answer_wf m"
| "client_packet_wf (File_Request m) \<longleftrightarrow> hash_wf m"
| "client_packet_wf (File_Answer m) \<longleftrightarrow> client_file_answer_wf m"
| "client_packet_wf Shared_Files_Denied \<longleftrightarrow> True"
| "client_packet_wf (File_Description m) \<longleftrightarrow> client_file_description_wf m"
| "client_packet_wf (Filestatus_Request m) \<longleftrightarrow> hash_wf m"
| "client_packet_wf (No_File m) \<longleftrightarrow> hash_wf m"
| "client_packet_wf (Hashset_Request m) \<longleftrightarrow> hash_wf m"
| "client_packet_wf (Hashset_Answer m) \<longleftrightarrow> client_hashset_answer_wf m"
| "client_packet_wf (Start_Upload m) \<longleftrightarrow> hash_wf m"
| "client_packet_wf (Queue_Ranking m) \<longleftrightarrow> True"
| "client_packet_wf Accept_Upload \<longleftrightarrow> True"
| "client_packet_wf Out_Parts \<longleftrightarrow> True"
| "client_packet_wf Cancel_Transfer \<longleftrightarrow> True"
| "client_packet_wf (Request_Parts_32 m) \<longleftrightarrow> request_parts_wf m"
| "client_packet_wf (Request_Parts_64 m) \<longleftrightarrow> request_parts_wf m"
| "client_packet_wf (Sending_Part_32 m) \<longleftrightarrow> (\<lambda>m. hash_wf (m_hFile_csp m)) m"
| "client_packet_wf (Sending_Part_64 m) \<longleftrightarrow> (\<lambda>m. hash_wf (m_hFile_csp m)) m"
| "client_packet_wf (Compressed_Part_32 m) \<longleftrightarrow> (\<lambda>m. hash_wf (m_hFile_ccp m)) m"
| "client_packet_wf (Compressed_Part_64 m) \<longleftrightarrow> (\<lambda>m. hash_wf (m_hFile_ccp m)) m"
| "client_packet_wf (End_Download m) \<longleftrightarrow> hash_wf m"
| "client_packet_wf (Message m) \<longleftrightarrow> client_message_wf m"
| "client_packet_wf (Captcha_Result m) \<longleftrightarrow> True"
| "client_packet_wf Public_Ip_Request \<longleftrightarrow> True"
| "client_packet_wf (Public_Ip_Answer m) \<longleftrightarrow> True"
| "client_packet_wf (Directory_Content_Request m) \<longleftrightarrow> hash_wf m"
| "client_packet_wf (Directory_Content_Result m) \<longleftrightarrow> client_directory_content_result_wf m"

primrec norm_client_packet :: "client_packet \<Rightarrow> client_packet" where
  "norm_client_packet (Hello m) = Hello (norm_client_hello m)"
| "norm_client_packet (Hello_Answer m) = Hello_Answer (norm_client_hello_answer m)"
| "norm_client_packet (Ext_Hello m) = Ext_Hello (norm_client_ext_hello m)"
| "norm_client_packet (Ext_Hello_Answer m) = Ext_Hello_Answer (norm_client_ext_hello m)"
| "norm_client_packet Shared_Files_Request = Shared_Files_Request"
| "norm_client_packet Shared_Directories_Request = Shared_Directories_Request"
| "norm_client_packet (Shared_Directory_Files_Request m) = Shared_Directory_Files_Request m"
| "norm_client_packet (Shared_Files_Answer m) = Shared_Files_Answer (map norm_shared_file_entry m)"
| "norm_client_packet (Shared_Directories_Answer m) = Shared_Directories_Answer m"
| "norm_client_packet (Shared_Directory_Files_Answer m) = Shared_Directory_Files_Answer (norm_client_shared_directory_files_answer m)"
| "norm_client_packet (File_Request m) = File_Request m"
| "norm_client_packet (File_Answer m) = File_Answer m"
| "norm_client_packet Shared_Files_Denied = Shared_Files_Denied"
| "norm_client_packet (File_Description m) = File_Description m"
| "norm_client_packet (Filestatus_Request m) = Filestatus_Request m"
| "norm_client_packet (No_File m) = No_File m"
| "norm_client_packet (Hashset_Request m) = Hashset_Request m"
| "norm_client_packet (Hashset_Answer m) = Hashset_Answer m"
| "norm_client_packet (Start_Upload m) = Start_Upload m"
| "norm_client_packet (Queue_Ranking m) = Queue_Ranking m"
| "norm_client_packet Accept_Upload = Accept_Upload"
| "norm_client_packet Out_Parts = Out_Parts"
| "norm_client_packet Cancel_Transfer = Cancel_Transfer"
| "norm_client_packet (Request_Parts_32 m) = Request_Parts_32 (m_parts_update (\<lambda>n. 0) m)"
| "norm_client_packet (Request_Parts_64 m) = Request_Parts_64 (m_parts_update (\<lambda>n. 0) m)"
| "norm_client_packet (Sending_Part_32 m) = Sending_Part_32 m"
| "norm_client_packet (Sending_Part_64 m) = Sending_Part_64 m"
| "norm_client_packet (Compressed_Part_32 m) = Compressed_Part_32 m"
| "norm_client_packet (Compressed_Part_64 m) = Compressed_Part_64 m"
| "norm_client_packet (End_Download m) = End_Download m"
| "norm_client_packet (Message m) = Message m"
| "norm_client_packet (Captcha_Result m) = Captcha_Result m"
| "norm_client_packet Public_Ip_Request = Public_Ip_Request"
| "norm_client_packet (Public_Ip_Answer m) = Public_Ip_Answer m"
| "norm_client_packet (Directory_Content_Request m) = Directory_Content_Request m"
| "norm_client_packet (Directory_Content_Result m) = Directory_Content_Result (norm_client_directory_content_result m)"

lemma client_packet_round: "client_packet_wf p \<Longrightarrow> get_client_packet (client_packet_type p) (put_client_packet p @ rest) = Inr (Some (norm_client_packet p), rest)"
  by (cases p) (simp_all add: get_client_packet_def reader_simps wire_rounds)

lemma local_client_packet: "local_reader (get_client_packet t)"
  unfolding get_client_packet_def by (intro local_intros wire_locals)

section \<open>Messages between client and server\<close>

datatype server_packet =
    Login_Request cs_login_request
  | Offer_Files "shared_file_entry list"
  | Query_More_Result
  | Found_Sources found_file_sources
  | Callback_Request uint32
  | Callback_Requested net_identifier
  | Callback_Fail
  | Get_Server_List
  | Server_List "net_identifier list"
  | Server_Status server_status
  | Server_Message server_message
  | Server_Ident server_info_entry

primrec server_packet_type :: "server_packet \<Rightarrow> uint8 \<times> uint8" where
  "server_packet_type (Login_Request m) = (0x01, 0xE3)"
| "server_packet_type (Offer_Files m) = (0x15, 0xE3)"
| "server_packet_type Query_More_Result = (0x21, 0xE3)"
| "server_packet_type (Found_Sources m) = (0x42, 0xE3)"
| "server_packet_type (Callback_Request m) = (0x1C, 0xE3)"
| "server_packet_type (Callback_Requested m) = (0x35, 0xE3)"
| "server_packet_type Callback_Fail = (0x36, 0xE3)"
| "server_packet_type Get_Server_List = (0x14, 0xE3)"
| "server_packet_type (Server_List m) = (0x32, 0xE3)"
| "server_packet_type (Server_Status m) = (0x34, 0xE3)"
| "server_packet_type (Server_Message m) = (0x38, 0xE3)"
| "server_packet_type (Server_Ident m) = (0x41, 0xE3)"

primrec put_server_packet :: "server_packet \<Rightarrow> bytes" where
  "put_server_packet (Login_Request m) = put_cs_login_request m"
| "put_server_packet (Offer_Files m) = put_holder 4 put_shared_file_entry m"
| "put_server_packet Query_More_Result = []"
| "put_server_packet (Found_Sources m) = put_found_file_sources m"
| "put_server_packet (Callback_Request m) = put_word 4 m"
| "put_server_packet (Callback_Requested m) = put_net_identifier m"
| "put_server_packet Callback_Fail = []"
| "put_server_packet Get_Server_List = []"
| "put_server_packet (Server_List m) = put_holder 1 put_net_identifier m"
| "put_server_packet (Server_Status m) = put_server_status m"
| "put_server_packet (Server_Message m) = put_server_message m"
| "put_server_packet (Server_Ident m) = put_server_info_entry m"

definition get_server_packet :: "uint8 \<times> uint8 \<Rightarrow> server_packet option reader" where
  "get_server_packet t =
    (if t = (0x01, 0xE3) then andThen get_cs_login_request (\<lambda>m. return (Some (Login_Request m)))
     else if t = (0x15, 0xE3) then andThen (get_holder 4 get_shared_file_entry) (\<lambda>m. return (Some (Offer_Files m)))
     else if t = (0x21, 0xE3) then return (Some Query_More_Result)
     else if t = (0x42, 0xE3) then andThen get_found_file_sources (\<lambda>m. return (Some (Found_Sources m)))
     else if t = (0x1C, 0xE3) then andThen (get_word 4) (\<lambda>m. return (Some (Callback_Request m)))
     else if t = (0x35, 0xE3) then andThen get_net_identifier (\<lambda>m. return (Some (Callback_Requested m)))
     else if t = (0x36, 0xE3) then return (Some Callback_Fail)
     else if t = (0x14, 0xE3) then return (Some Get_Server_List)
     else if t = (0x32, 0xE3) then andThen (get_holder 1 get_net_identifier) (\<lambda>m. return (Some (Server_List m)))
     else if t = (0x34, 0xE3) then andThen get_server_status (\<lambda>m. return (Some (Server_Status m)))
     else if t = (0x38, 0xE3) then andThen get_server_message (\<lambda>m. return (Some (Server_Message m)))
     else if t = (0x41, 0xE3) then andThen get_server_info_entry (\<lambda>m. return (Some (Server_Ident m)))
     else return None)"

primrec server_packet_wf :: "server_packet \<Rightarrow> bool" where
  "server_packet_wf (Login_Request m) \<longleftrightarrow> cs_login_request_wf m"
| "server_packet_wf (Offer_Files m) \<longleftrightarrow> holder_wf 4 shared_file_entry_wf m"
| "server_packet_wf Query_More_Result \<longleftrightarrow> True"
| "server_packet_wf (Found_Sources m) \<longleftrightarrow> found_file_sources_wf m"
| "server_packet_wf (Callback_Request m) \<longleftrightarrow> True"
| "server_packet_wf (Callback_Requested m) \<longleftrightarrow> True"
| "server_packet_wf Callback_Fail \<longleftrightarrow> True"
| "server_packet_wf Get_Server_List \<longleftrightarrow> True"
| "server_packet_wf (Server_List m) \<longleftrightarrow> holder_wf 1 (\<lambda>x. True) m"
| "server_packet_wf (Server_Status m) \<longleftrightarrow> True"
| "server_packet_wf (Server_Message m) \<longleftrightarrow> (\<lambda>m. length (m_strMessage_sm m) = unat (m_nLength m)) m"
| "server_packet_wf (Server_Ident m) \<longleftrightarrow> server_info_entry_wf m"

primrec norm_server_packet :: "server_packet \<Rightarrow> server_packet" where
  "norm_server_packet (Login_Request m) = Login_Request (norm_cs_login_request m)"
| "norm_server_packet (Offer_Files m) = Offer_Files (map norm_shared_file_entry m)"
| "norm_server_packet Query_More_Result = Query_More_Result"
| "norm_server_packet (Found_Sources m) = Found_Sources m"
| "norm_server_packet (Callback_Request m) = Callback_Request m"
| "norm_server_packet (Callback_Requested m) = Callback_Requested m"
| "norm_server_packet Callback_Fail = Callback_Fail"
| "norm_server_packet Get_Server_List = Get_Server_List"
| "norm_server_packet (Server_List m) = Server_List m"
| "norm_server_packet (Server_Status m) = Server_Status m"
| "norm_server_packet (Server_Message m) = Server_Message m"
| "norm_server_packet (Server_Ident m) = Server_Ident (norm_server_info_entry m)"

lemma server_packet_round: "server_packet_wf p \<Longrightarrow> get_server_packet (server_packet_type p) (put_server_packet p @ rest) = Inr (Some (norm_server_packet p), rest)"
  by (cases p) (simp_all add: get_server_packet_def reader_simps wire_rounds)

lemma local_server_packet: "local_reader (get_server_packet t)"
  unfolding get_server_packet_def by (intro local_intros wire_locals)

section \<open>Headers\<close>

record libed2k_header =
  m_protocol :: uint8
  m_size_h :: uint32
  m_type :: uint8

abbreviation (input) OP_EDONKEYPROT :: uint8 where "OP_EDONKEYPROT \<equiv> 0xE3"
abbreviation (input) OP_PACKEDPROT :: uint8 where "OP_PACKEDPROT \<equiv> 0xD4"
abbreviation (input) OP_EMULEPROT :: uint8 where "OP_EMULEPROT \<equiv> 0xC5"
abbreviation (input) OP_UDPRESERVEDPROT1 :: uint8 where "OP_UDPRESERVEDPROT1 \<equiv> 0xA3"
abbreviation (input) OP_UDPRESERVEDPROT2 :: uint8 where "OP_UDPRESERVEDPROT2 \<equiv> 0xB2"
abbreviation (input) OP_KADEMLIAHEADER :: uint8 where "OP_KADEMLIAHEADER \<equiv> 0xE4"
abbreviation (input) OP_KADEMLIAPACKEDPROT :: uint8 where "OP_KADEMLIAPACKEDPROT \<equiv> 0xE5"
abbreviation (input) OP_SENDINGPART :: uint8 where "OP_SENDINGPART \<equiv> 0x46"
abbreviation (input) OP_SENDINGPART_I64 :: uint8 where "OP_SENDINGPART_I64 \<equiv> 0xA2"
abbreviation (input) OP_COMPRESSEDPART :: uint8 where "OP_COMPRESSEDPART \<equiv> 0x40"
abbreviation (input) OP_COMPRESSEDPART_I64 :: uint8 where "OP_COMPRESSEDPART_I64 \<equiv> 0xA1"

definition libed2k_header_new :: libed2k_header where
  "libed2k_header_new = \<lparr>m_protocol = OP_EDONKEYPROT, m_size_h = 1, m_type = 0\<rparr>"

definition put_header :: "libed2k_header \<Rightarrow> bytes" where
  "put_header h = put_word 1 (m_protocol h) @ put_word 4 (m_size_h h) @ put_word 1 (m_type h)"

definition header_assign :: "bytes \<Rightarrow> libed2k_header" where
  "header_assign buf = \<lparr>m_protocol = buf ! 0, m_size_h = of_bytes (take 4 (drop 1 buf)), m_type = buf ! 5\<rparr>"

definition header_body_size :: "libed2k_header \<Rightarrow> nat" where
  "header_body_size h = unat (m_size_h h - 1)"

definition check_packet :: "libed2k_header \<Rightarrow> wire_error option" where
  "check_packet h =
    (if m_protocol h \<in> {OP_EDONKEYPROT, OP_EMULEPROT, OP_KADEMLIAHEADER, OP_PACKEDPROT} then
       (if m_size_h h < 1 \<or> MAX_ED2K_PACKET_LEN < unat (m_size_h h) then Some invalid_packet_size else None)
     else if m_protocol h = OP_UDPRESERVEDPROT1 then Some unsupported_udp_res1_type
     else if m_protocol h = OP_UDPRESERVEDPROT2 then Some unsupported_udp_res2_type
     else if m_protocol h = OP_KADEMLIAPACKEDPROT then Some unsupported_kad_packed_type
     else Some invalid_protocol_type)"

text \<open>What is read of a packet before its handler runs: the parts of files are read by the handler.\<close>

definition service_size :: "libed2k_header \<Rightarrow> nat" where
  "service_size h =
    (if m_type h = OP_SENDINGPART then 16 + 2 * 4
     else if m_type h = OP_SENDINGPART_I64 then 16 + 2 * 8
     else if m_protocol h = OP_EMULEPROT \<and> m_type h = OP_COMPRESSEDPART then 16 + 2 * 4
     else if m_protocol h = OP_EMULEPROT \<and> m_type h = OP_COMPRESSEDPART_I64 then 16 + 8 + 4
     else unat (m_size_h h - 1))"

section \<open>Framing\<close>

text \<open>The part of a file follows its packet, and counts as its body.\<close>

primrec client_body_size :: "client_packet \<Rightarrow> nat \<Rightarrow> 64 word" where
  "client_body_size (Hello m) n = of_nat n"
| "client_body_size (Hello_Answer m) n = of_nat n"
| "client_body_size (Ext_Hello m) n = of_nat n"
| "client_body_size (Ext_Hello_Answer m) n = of_nat n"
| "client_body_size Shared_Files_Request n = of_nat n"
| "client_body_size Shared_Directories_Request n = of_nat n"
| "client_body_size (Shared_Directory_Files_Request m) n = of_nat n"
| "client_body_size (Shared_Files_Answer m) n = of_nat n"
| "client_body_size (Shared_Directories_Answer m) n = of_nat n"
| "client_body_size (Shared_Directory_Files_Answer m) n = of_nat n"
| "client_body_size (File_Request m) n = of_nat n"
| "client_body_size (File_Answer m) n = of_nat n"
| "client_body_size Shared_Files_Denied n = of_nat n"
| "client_body_size (File_Description m) n = of_nat n"
| "client_body_size (Filestatus_Request m) n = of_nat n"
| "client_body_size (No_File m) n = of_nat n"
| "client_body_size (Hashset_Request m) n = of_nat n"
| "client_body_size (Hashset_Answer m) n = of_nat n"
| "client_body_size (Start_Upload m) n = of_nat n"
| "client_body_size (Queue_Ranking m) n = of_nat n"
| "client_body_size Accept_Upload n = of_nat n"
| "client_body_size Out_Parts n = of_nat n"
| "client_body_size Cancel_Transfer n = of_nat n"
| "client_body_size (Request_Parts_32 m) n = of_nat n"
| "client_body_size (Request_Parts_64 m) n = of_nat n"
| "client_body_size (Sending_Part_32 m) n = of_nat n + ucast (m_end_offset_csp m) - ucast (m_begin_offset_csp m)"
| "client_body_size (Sending_Part_64 m) n = of_nat n + m_end_offset_csp m - m_begin_offset_csp m"
| "client_body_size (Compressed_Part_32 m) n = of_nat n"
| "client_body_size (Compressed_Part_64 m) n = of_nat n"
| "client_body_size (End_Download m) n = of_nat n"
| "client_body_size (Message m) n = of_nat n"
| "client_body_size (Captcha_Result m) n = of_nat n"
| "client_body_size Public_Ip_Request n = of_nat n"
| "client_body_size (Public_Ip_Answer m) n = of_nat n"
| "client_body_size (Directory_Content_Request m) n = of_nat n"
| "client_body_size (Directory_Content_Result m) n = of_nat n"

definition make_message :: "client_packet \<Rightarrow> libed2k_header \<times> bytes" where
  "make_message p =
    (let body = put_client_packet p
     in (\<lparr>m_protocol = snd (client_packet_type p), m_size_h = ucast (client_body_size p (length body) + 1),
          m_type = fst (client_packet_type p)\<rparr>, body))"

text \<open>
  \<open>extract_message\<close> gets a buffer; \<open>beyond\<close> is what lies behind it in memory.
\<close>

definition extract_message :: "bytes \<Rightarrow> bytes \<Rightarrow> wire_error + libed2k_header \<times> bytes" where
  "extract_message beyond p =
    (if length p < 6 then Inl invalid_packet_size
     else
       let h = header_assign p
       in case check_packet h of
            Some e \<Rightarrow> Inl e
          | None \<Rightarrow>
              if length p < header_body_size h then Inl invalid_packet_size
              else Inr (h, take (header_body_size h) (drop 6 (p @ beyond))))"

section \<open>Who is on the other side\<close>

datatype EClientSoftware =
    SO_EMULE | SO_CDONKEY | SO_LXMULE | SO_AMULE | SO_SHAREAZA | SO_EMULEPLUS | SO_HYDRANODE
  | SO_NEW2_MLDONKEY | SO_LPHANT | SO_NEW2_SHAREAZA | SO_EDONKEYHYBRID | SO_EDONKEY | SO_MLDONKEY
  | SO_OLDEMULE | SO_UNKNOWN | SO_NEW_SHAREAZA | SO_NEW_MLDONKEY | SO_LIBED2K | SO_QMULE | SO_COMPAT_UNK

definition uagent2csoft :: "bytes \<Rightarrow> EClientSoftware" where
  "uagent2csoft h =
    (if h ! 5 = 13 \<and> h ! 14 = 110 then SO_OLDEMULE
     else if h ! 5 = 14 \<and> h ! 14 = 111 then SO_EMULE
     else if h ! 5 = 0x4D \<and> h ! 14 = 0x4C then SO_MLDONKEY
     else if h ! 5 = 0x4C \<and> h ! 14 = 0x4B then SO_LIBED2K
     else if h ! 5 = 0x51 \<and> h ! 14 = 0x4D then SO_QMULE
     else SO_UNKNOWN)"

abbreviation (input) CT_NAME :: uint8 where "CT_NAME \<equiv> 0x01"
abbreviation (input) CT_VERSION :: uint8 where "CT_VERSION \<equiv> 0x11"
abbreviation (input) ET_MOD_VERSION :: uint8 where "ET_MOD_VERSION \<equiv> 0x55"
abbreviation (input) CT_EMULE_UDPPORTS :: uint8 where "CT_EMULE_UDPPORTS \<equiv> 0xF9"

definition client_hello_answer_new ::
  "bytes \<Rightarrow> net_identifier \<Rightarrow> net_identifier \<Rightarrow> bytes \<Rightarrow> bytes \<Rightarrow> uint32 \<Rightarrow> client_hello_answer" where
  "client_hello_answer_new client_hash np sp client_name program_name version =
    \<lparr>m_hClient_cha = client_hash, m_network_point_cha = np,
     m_list_cha = [make_string_tag client_name CT_NAME True, make_string_tag program_name ET_MOD_VERSION True,
       make_tag (Uint32 version) CT_VERSION True, make_tag (Uint32 0) CT_EMULE_UDPPORTS True],
     m_server_network_point_cha = sp\<rparr>"

definition client_hello_new ::
  "bytes \<Rightarrow> net_identifier \<Rightarrow> net_identifier \<Rightarrow> bytes \<Rightarrow> bytes \<Rightarrow> uint32 \<Rightarrow> client_hello" where
  "client_hello_new client_hash np sp client_name program_name version =
    \<lparr>m_nHashLength_ch = 16, hello_answer_ch = client_hello_answer_new client_hash np sp client_name program_name version\<rparr>"

end
