(* ===== verification/Packet_Props.thy ===== *)
theory Packet_Props
  imports Packets
begin

text \<open>
  What the messages promise: they arrive as they were sent, through the header and the choice of
  the structure by the opcode; cut ones are refused; and where the code does not keep the promise.
\<close>

section \<open>Headers\<close>

lemma length_put_header [simp]: "length (put_header h) = 6"
  by (simp add: put_header_def)

lemma header_assign_put: "header_assign (put_header h @ body) = h"
proof -
  have one: "put_word 1 (w :: uint8) = [w]" for w by (simp add: put_word_def)
  have l: "length (put_word 4 (m_size_h h)) = 4" by simp
  have "put_header h @ body = m_protocol h # put_word 4 (m_size_h h) @ m_type h # body"
    by (simp add: put_header_def one [simplified])
  then show ?thesis by (simp add: header_assign_def l nth_append of_bytes_put_word)
qed





section \<open>A concrete message\<close>

definition demo_net :: net_identifier where
  "demo_net = \<lparr>m_nIP = 0x0100007F, m_nPort = 4662\<rparr>"





lemma length_put_hash [simp]: "length (put_hash h) = length h"
  by (induction h) (simp_all add: put_hash_def put_many_def)


section \<open>Properties\<close>







lemma extract_message_overread:
  assumes "length beyond = 6"
  shows "extract_message beyond (put_header \<lparr>m_protocol = 0xE3, m_size_h = 7, m_type = 1\<rparr>)
    = Inr (\<lparr>m_protocol = 0xE3, m_size_h = 7, m_type = 1\<rparr>, beyond)"
  using header_assign_put [of "\<lparr>m_protocol = 0xE3, m_size_h = 7, m_type = 1\<rparr>" "[]"] assms
  by (simp add: extract_message_def Let_def check_packet_def header_body_size_def MAX_ED2K_PACKET_LEN_def BLOCK_SIZE_def word_less_nat_alt)

lemma file_status_never_sent:
  assumes "built (m_status m)" "m_size (m_status m) < 2 ^ 16" "hash_wf (m_hFile_cfs m)"
  shows "put_file_status m = put_hash (m_hFile_cfs m) @ [0, 0]
    \<and> get_file_status junk bf (put_file_status m) = Inr (\<lparr>m_hFile_cfs = m_hFile_cfs m, m_status = bf\<rparr>, [])"
proof -
  have "bitfield_count (m_status m) \<le> m_size (m_status m)"
    using bf.count_le [of "m_status m"] built_ok [OF assms(1)] by simp
  moreover have "unat (of_nat (m_size (m_status m)) :: uint16) = m_size (m_status m)"
    using assms(2) by (simp add: unat_of_nat take_bit_nat_eq_self)
  ultimately have "put_file_status m = put_hash (m_hFile_cfs m) @ put_word 2 (0 :: uint16)"
    by (simp add: put_file_status_def Let_def)
  moreover have "put_word 2 (0 :: uint16) = [0, 0]" by (simp add: put_word_def upt_rec)
  moreover have "get_file_status junk bf (put_hash (m_hFile_cfs m) @ put_word 2 (0 :: uint16) @ [])
      = Inr (\<lparr>m_hFile_cfs = m_hFile_cfs m, m_status = bf\<rparr>, [])"
    by (subst get_file_status_def) (simp add: reader_simps wire_rounds assms(3) del: append_Nil2)
  ultimately show ?thesis by simp
qed

lemma sources_answer_unreadable:
  assumes "hash_wf (file_hash m)" "elems m = []"
  shows "get_sources_answer v (put_sources_answer v m) = Inl unexpected_istream_error"
proof -
  have "get_word 2 [] = (Inl unexpected_istream_error :: wire_error + uint16 \<times> bytes)"
    by (simp add: get_word_def andThen_def raw_read_def)
  then show ?thesis using md4.round [OF assms(1), of "[]"] assms(2)
    by (simp add: get_sources_answer_def put_sources_answer_def put_many_def reader_simps)
qed

text \<open>
  C28. Three flaws of the message code. The status of a file is never sent: \<open>client_file_status\<close>
  writes the bitfield only if it has more bits set than bits, so that every status of a file of less
  than \<open>2\<^sup>1\<^sup>6\<close> pieces goes out as the empty one, which says that the file is complete, and the other
  side keeps the bitfield it had. The answer to a request for sources cannot be read back: the
  saving half leaves the number of sources out that the loading half reads, so an answer without
  sources is refused as cut off. And \<open>extract_message\<close> compares the size of the body with the size of
  the whole buffer: a packet that is all header and announces six bytes passes, and its body is read
  from the memory behind the buffer.
\<close>

theorem message_flaws:
  assumes "built (m_status m)" "m_size (m_status m) < 2 ^ 16" "hash_wf (m_hFile_cfs m)"
    and "hash_wf (file_hash a)" "elems a = []" and "length beyond = 6"
  shows "put_file_status m = put_hash (m_hFile_cfs m) @ [0, 0]
    \<and> get_file_status junk bf (put_file_status m) = Inr (\<lparr>m_hFile_cfs = m_hFile_cfs m, m_status = bf\<rparr>, [])
    \<and> get_sources_answer v (put_sources_answer v a) = Inl unexpected_istream_error
    \<and> extract_message beyond (put_header \<lparr>m_protocol = 0xE3, m_size_h = 7, m_type = 1\<rparr>)
      = Inr (\<lparr>m_protocol = 0xE3, m_size_h = 7, m_type = 1\<rparr>, beyond)"
  using file_status_never_sent [OF assms(1-3)] sources_answer_unreadable [OF assms(4,5)] extract_message_overread [OF assms(6)] by blast

theorem message_flaws_witness:
  "put_file_status \<lparr>m_hFile_cfs = replicate 16 0, m_status = demo_bits\<rparr> = put_hash (replicate 16 0) @ [0, 0]
    \<and> get_sources_answer 4 (put_sources_answer 4 \<lparr>file_hash = replicate 16 0, size_sab = 0, elems = []\<rparr>) = Inl unexpected_istream_error
    \<and> extract_message [1, 2, 3, 4, 5, 6] (put_header \<lparr>m_protocol = 0xE3, m_size_h = 7, m_type = 1\<rparr>)
      = Inr (\<lparr>m_protocol = 0xE3, m_size_h = 7, m_type = 1\<rparr>, [1, 2, 3, 4, 5, 6])"
  using message_flaws [of "\<lparr>m_hFile_cfs = replicate 16 0, m_status = demo_bits\<rparr>" "\<lparr>file_hash = replicate 16 0, size_sab = 0, elems = []\<rparr>" "[1, 2, 3, 4, 5, 6]" _ _ 4] demo_built
  by (simp add: hash_wf_def del: One_nat_def)

text \<open>
  C27. The option word of a hello message is what the flags say: reading back a generated word gives
  every field as long as it fits its bits, and generating from a read word gives the word without
  its unused bit 3.
\<close>

theorem misc_options_roundtrip:
  assumes "misc_options_wf m"
  shows "misc_options_load (misc_options_generate m) = m
    \<and> (\<forall>n. bit (misc_options_generate (misc_options_load opts)) n \<longleftrightarrow> n \<noteq> 3 \<and> bit opts n)"
  using misc_options_load_generate [OF assms] misc_options_generate_bit by blast

theorem misc_options_roundtrip_witness:
  "misc_options_load (misc_options_generate (misc_options_load 0)) = misc_options_load 0"
  using misc_options_roundtrip [of "misc_options_load 0"] by (simp add: misc_options_wf_def misc_options_load_def)

text \<open>
  C26. A hello introduces its sender: after the way over the wire the receiver reads the client's name,
  the program's name and its version from the tags, and hash and addresses from the fields.
\<close>

theorem hello_roundtrip:
  assumes "hash_wf client_hash" "length client_name < 2 ^ 16" "bom_filter client_name = client_name"
    "length program_name < 2 ^ 16" "bom_filter program_name = program_name"
  shows "\<exists>m. get_client_hello (put_client_hello (client_hello_new client_hash np sp client_name program_name version)) = Inr (m, [])
    \<and> m_hClient_cha (hello_answer_ch m) = client_hash \<and> m_network_point_cha (hello_answer_ch m) = np
    \<and> m_server_network_point_cha (hello_answer_ch m) = sp
    \<and> getStringTagByNameId CT_NAME (m_list_cha (hello_answer_ch m)) = client_name
    \<and> getStringTagByNameId ET_MOD_VERSION (m_list_cha (hello_answer_ch m)) = program_name
    \<and> getIntTagByNameId CT_VERSION (m_list_cha (hello_answer_ch m)) = ucast version"
proof -
  define m where "m = client_hello_new client_hash np sp client_name program_name version"
  note new = client_hello_new_def client_hello_answer_new_def
  have "client_hello_wf m" using assms make_string_tag_wf
    by (simp add: m_def new client_hello_wf_def client_hello_answer_wf_def tag_list_wf_def) (simp add: tag_wf_def make_tag_def)
  then have r: "get_client_hello (put_client_hello m) = Inr (norm_client_hello m, [])" using client_hello_c.round [of m "[]"] by simp
  have n: "norm_tag (make_string_tag s nId True) = (make_string_tag s nId True)\<lparr>m_bNewED2K := False\<rparr>" if "bom_filter s = s" for s nId
    by (rule norm_plain) (simp add: plain_tag_def make_string_tag_def that)
  have "m_list_cha (hello_answer_ch (norm_client_hello m)) = map norm_tag (m_list_cha (hello_answer_ch m))"
    by (simp add: norm_client_hello_def norm_client_hello_answer_def)
  then have l: "m_list_cha (hello_answer_ch (norm_client_hello m)) =
      [(make_string_tag client_name CT_NAME True)\<lparr>m_bNewED2K := False\<rparr>, (make_string_tag program_name ET_MOD_VERSION True)\<lparr>m_bNewED2K := False\<rparr>,
       make_tag (Uint32 version) CT_VERSION False, make_tag (Uint32 0) CT_EMULE_UDPPORTS False]"
    using assms(3,5) by (simp add: m_def new n) (simp add: norm_tag_def make_tag_def)
  show ?thesis unfolding m_def [symmetric]
    by (rule exI [of _ "norm_client_hello m"])
      (simp add: r l getStringTagByNameId_def getIntTagByNameId_def getTagByNameId_def has_id_def value_or_def make_string_tag_def make_tag_def,
       simp add: norm_client_hello_def norm_client_hello_answer_def m_def new)
qed

theorem hello_roundtrip_witness:
  "\<exists>m. get_client_hello (put_client_hello (client_hello_new (replicate 16 1) demo_net demo_net [0x61] [0x62, 0x63] 60)) = Inr (m, [])
    \<and> getStringTagByNameId CT_NAME (m_list_cha (hello_answer_ch m)) = [0x61]"
  using hello_roundtrip [of "replicate 16 1" "[0x61]" "[0x62, 0x63]" demo_net demo_net 60] by (auto simp: hash_wf_def bom_filter_def)

end
