(* ===== verification/Search.thy ===== *)
theory Search
  imports Wire
begin

text \<open>
  The search expressions of \<open>search.cpp\<close> and the entries of a search request of
  \<open>packet_struct.cpp\<close>: the query string and the filters become a list of entries in the order of the query,
  which is turned into the prefix order the servers expect and saved. Characters are the bytes of
  the strings; no encoding is assumed.
\<close>

section \<open>Entries of a request\<close>

type_synonym sre_operation = uint8

definition SRE_AND :: sre_operation where "SRE_AND = 0"
definition SRE_OR :: sre_operation where "SRE_OR = 1"
definition SRE_NOT :: sre_operation where "SRE_NOT = 2"
definition SRE_OBR :: sre_operation where "SRE_OBR = 3"
definition SRE_CBR :: sre_operation where "SRE_CBR = 4"
definition SRE_END :: sre_operation where "SRE_END = 5"

lemmas sre_defs = SRE_AND_def SRE_OR_def SRE_NOT_def SRE_OBR_def SRE_CBR_def SRE_END_def

definition SEARCH_TYPE_BOOL :: uint8 where "SEARCH_TYPE_BOOL = 0"
definition SEARCH_TYPE_STR :: uint8 where "SEARCH_TYPE_STR = 1"
definition SEARCH_TYPE_STR_TAG :: uint8 where "SEARCH_TYPE_STR_TAG = 2"
definition SEARCH_TYPE_UINT32 :: uint8 where "SEARCH_TYPE_UINT32 = 3"
definition SEARCH_TYPE_UINT64 :: uint8 where "SEARCH_TYPE_UINT64 = 8"

lemmas search_type_defs = SEARCH_TYPE_BOOL_def SEARCH_TYPE_STR_def SEARCH_TYPE_STR_TAG_def
  SEARCH_TYPE_UINT32_def SEARCH_TYPE_UINT64_def

text \<open>The union of the two numeric values, with the member that was stored last, if any.\<close>

datatype numeric_value = No_Value | nValue32 uint32 | nValue64 "64 word"

record search_request_entry =
  m_type :: uint8
  m_operator :: uint8
  m_strValue :: string
  m_nValue :: numeric_value
  m_meta_type :: "uint8 option"
  m_strMetaName :: "string option"

type_synonym search_request = "search_request_entry list"

definition sre_bool :: "sre_operation \<Rightarrow> search_request_entry" where
  "sre_bool soper = \<lparr>m_type = SEARCH_TYPE_BOOL, m_operator = soper, m_strValue = [], m_nValue = No_Value,
    m_meta_type = None, m_strMetaName = None\<rparr>"

definition sre_string :: "string \<Rightarrow> search_request_entry" where
  "sre_string strValue = \<lparr>m_type = SEARCH_TYPE_STR, m_operator = SRE_END, m_strValue = strValue, m_nValue = No_Value,
    m_meta_type = None, m_strMetaName = None\<rparr>"

definition sre_meta_string :: "uint8 \<Rightarrow> string \<Rightarrow> search_request_entry" where
  "sre_meta_string nMetaTagId strValue = \<lparr>m_type = SEARCH_TYPE_STR_TAG, m_operator = SRE_END, m_strValue = strValue,
    m_nValue = No_Value, m_meta_type = Some nMetaTagId, m_strMetaName = None\<rparr>"

definition sre_named_string :: "string \<Rightarrow> string \<Rightarrow> search_request_entry" where
  "sre_named_string strMetaTagName strValue = \<lparr>m_type = SEARCH_TYPE_STR_TAG, m_operator = SRE_END, m_strValue = strValue,
    m_nValue = No_Value, m_meta_type = None, m_strMetaName = Some strMetaTagName\<rparr>"

definition sre_meta_number :: "uint8 \<Rightarrow> uint8 \<Rightarrow> 64 word \<Rightarrow> search_request_entry" where
  "sre_meta_number nMetaTagId nOperator nValue =
    (if 0xFFFFFFFF < nValue
     then \<lparr>m_type = SEARCH_TYPE_UINT64, m_operator = nOperator, m_strValue = [], m_nValue = nValue64 nValue,
       m_meta_type = Some nMetaTagId, m_strMetaName = None\<rparr>
     else \<lparr>m_type = SEARCH_TYPE_UINT32, m_operator = nOperator, m_strValue = [], m_nValue = nValue32 (ucast nValue),
       m_meta_type = Some nMetaTagId, m_strMetaName = None\<rparr>)"

text \<open>The name of the tag goes to \<open>m_strValue\<close> here, as in the code.\<close>

definition sre_named_number :: "string \<Rightarrow> uint8 \<Rightarrow> 64 word \<Rightarrow> search_request_entry" where
  "sre_named_number strMetaTagName nOperator nValue =
    (if 0xFFFFFFFF < nValue
     then \<lparr>m_type = SEARCH_TYPE_UINT64, m_operator = nOperator, m_strValue = strMetaTagName, m_nValue = nValue64 nValue,
       m_meta_type = None, m_strMetaName = None\<rparr>
     else \<lparr>m_type = SEARCH_TYPE_UINT32, m_operator = nOperator, m_strValue = strMetaTagName, m_nValue = nValue32 (ucast nValue),
       m_meta_type = None, m_strMetaName = None\<rparr>)"

definition isLogic :: "search_request_entry \<Rightarrow> bool" where
  "isLogic e \<longleftrightarrow> m_type e = SEARCH_TYPE_BOOL \<and> m_operator e \<le> SRE_NOT"

definition isOperator :: "search_request_entry \<Rightarrow> bool" where
  "isOperator e \<longleftrightarrow> m_type e = SEARCH_TYPE_BOOL"

section \<open>Saving\<close>

definition put_chars :: "string \<Rightarrow> bytes" where
  "put_chars = map of_char"

definition put_meta :: "search_request_entry \<Rightarrow> bytes" where
  "put_meta e = (case m_strMetaName e of
      Some s \<Rightarrow> put_word 2 (word_of_nat (length s) :: uint16) @ put_chars s
    | None \<Rightarrow> (case m_meta_type e of
        Some t \<Rightarrow> put_word 2 (1 :: uint16) @ put_word 1 t
      | None \<Rightarrow> []))"

text \<open>
  \<open>save\<close> reads the member of the union that \<open>m_type\<close> names; it is the one the constructors stored.
\<close>

definition put_number :: "numeric_value \<Rightarrow> bytes" where
  "put_number v = (case v of No_Value \<Rightarrow> [] | nValue32 n \<Rightarrow> put_word 4 n | nValue64 n \<Rightarrow> put_word 8 n)"

definition put_entry :: "search_request_entry \<Rightarrow> bytes" where
  "put_entry e = put_word 1 (m_type e) @
    (if m_type e = SEARCH_TYPE_BOOL then put_word 1 (m_operator e)
     else if m_type e = SEARCH_TYPE_STR \<or> m_type e = SEARCH_TYPE_STR_TAG
     then put_word 2 (word_of_nat (length (m_strValue e)) :: uint16) @ put_chars (m_strValue e) @ put_meta e
     else if m_type e = SEARCH_TYPE_UINT32 \<or> m_type e = SEARCH_TYPE_UINT64
     then put_number (m_nValue e) @ put_word 1 (m_operator e) @ put_meta e
     else [])"

definition put_search_request :: "search_request \<Rightarrow> bytes" where
  "put_search_request m_order = put_many put_entry m_order"

section \<open>From the query to entries\<close>

datatype search_error =
    input_string_too_large
  | empty_brackets
  | operator_incorrect_place
  | unclosed_quotation_mark
  | search_expression_too_complex
  | incorrect_brackets_count

definition string2OperType :: "string \<Rightarrow> sre_operation" where
  "string2OperType strMark =
    (if strMark = ''AND'' then SRE_AND else if strMark = ''OR'' then SRE_OR
     else if strMark = ''NOT'' then SRE_NOT else SRE_END)"

definition is_quote :: "char \<Rightarrow> bool" where
  "is_quote c \<longleftrightarrow> c = CHR 0x22"

definition item_append :: "search_request \<Rightarrow> search_request_entry \<Rightarrow> search_error + search_request" where
  "item_append dst sre =
    (if \<not> isLogic sre \<and> dst \<noteq> []
     then let back = last dst;
              dst' = (if (\<not> isOperator back \<and> \<not> isOperator sre)
                  \<or> (\<not> isOperator back \<and> m_operator sre = SRE_OBR)
                  \<or> (m_operator back = SRE_CBR \<and> \<not> isOperator sre)
                  \<or> (m_operator back = SRE_CBR \<and> m_operator sre = SRE_OBR)
                then dst @ [sre_bool SRE_AND] else dst)
          in if m_operator (last dst') = SRE_OBR \<and> m_operator sre = SRE_CBR then Inl empty_brackets
             else Inr (dst' @ [sre])
     else Inr (dst @ [sre]))"

definition bind_r :: "search_error + 'a \<Rightarrow> ('a \<Rightarrow> search_error + 'b) \<Rightarrow> search_error + 'b" where
  "bind_r r f = (case r of Inl e \<Rightarrow> Inl e | Inr x \<Rightarrow> f x)"

primrec append_all :: "search_request_entry list \<Rightarrow> search_request \<Rightarrow> search_error + search_request" where
  "append_all [] dst = Inr dst"
| "append_all (e # es) dst = bind_r (item_append dst e) (append_all es)"

record search_params =
  nMinSize :: "64 word"
  nMaxSize :: "64 word"
  nSourcesCount :: uint32
  nCompleteSourcesCount :: uint32
  strFileType :: string
  strFileExtension :: string
  strCodec :: string
  nMediaLength :: uint32
  nMediaBitrate :: uint32

definition type_entries :: "string \<Rightarrow> search_request_entry list" where
  "type_entries ftype =
    (if ftype = [] then []
     else if ftype = ''Arc'' \<or> ftype = ''Iso'' then [sre_meta_string 0x03 ''Pro'']
     else [sre_meta_string 0x03 ftype])"

definition file_entries :: "search_params \<Rightarrow> search_request_entry list" where
  "file_entries p =
    (if nMinSize p \<noteq> 0 then [sre_meta_number 0x02 1 (nMinSize p)] else []) @
    (if nMaxSize p \<noteq> 0 then [sre_meta_number 0x02 2 (nMaxSize p)] else []) @
    (if nSourcesCount p \<noteq> 0 then [sre_meta_number 0x15 1 (ucast (nSourcesCount p))] else []) @
    (if nCompleteSourcesCount p \<noteq> 0 then [sre_meta_number 0x30 1 (ucast (nCompleteSourcesCount p))] else []) @
    (if strFileExtension p \<noteq> [] then [sre_meta_string 0x04 (strFileExtension p)] else []) @
    (if strCodec p \<noteq> [] then [sre_meta_string 0xD5 (strCodec p)] else []) @
    (if nMediaLength p \<noteq> 0 then [sre_meta_number 0xD3 3 (ucast (nMediaLength p))] else []) @
    (if nMediaBitrate p \<noteq> 0 then [sre_meta_number 0xD4 3 (ucast (nMediaBitrate p))] else [])"

text \<open>The calls of \<open>item_append\<close> for the parameters, in their order.\<close>

definition param_entries :: "search_params \<Rightarrow> search_request_entry list" where
  "param_entries p =
    (if strFileType p = ''User'' then [sre_string [CHR 0x27, CHR ''+'', CHR ''+'', CHR ''+'', CHR ''U'', CHR ''S'', CHR ''E'', CHR ''R'', CHR ''N'', CHR ''I'', CHR ''C'', CHR ''K'', CHR ''+'', CHR ''+'', CHR ''+'', CHR 0x27]]
     else if strFileType p = ''Folder''
     then [sre_bool SRE_OBR, sre_meta_string 0x03 ''EmuleCollection'', sre_bool SRE_NOT,
       sre_string [CHR ''E'', CHR ''D'', CHR ''2'', CHR ''K'', CHR 0x3A, CHR 0x5C], sre_bool SRE_CBR]
     else type_entries (strFileType p) @ (if strFileType p \<noteq> ''EmuleCollection'' then file_entries p else []))"

text \<open>
  The tokenizer. Its state is \<open>vResult\<close>, \<open>bVerbatim\<close> and \<open>strItem\<close>; \<open>take_item\<close> is what a space or a
  bracket does to a pending item, \<open>scan_char\<close> one round of the loop.
\<close>

definition take_item :: "char \<Rightarrow> search_request \<Rightarrow> string \<Rightarrow> search_error + search_request" where
  "take_item c vResult strItem =
    (let so = string2OperType strItem in
     if so \<noteq> SRE_END
     then if vResult = [] \<or> isLogic (last vResult) \<or> c = CHR '')'' then Inl operator_incorrect_place
          else item_append vResult (sre_bool so)
     else item_append vResult (sre_string (filter (\<lambda>c. \<not> is_quote c) strItem)))"

definition add_bracket :: "char \<Rightarrow> search_request \<Rightarrow> search_error + search_request" where
  "add_bracket c vResult =
    (if c = CHR ''('' then item_append vResult (sre_bool SRE_OBR)
     else if c = CHR '')'' then item_append vResult (sre_bool SRE_CBR)
     else Inr vResult)"

definition scan_char :: "char \<Rightarrow> search_request \<times> bool \<times> string \<Rightarrow> search_error + search_request \<times> bool \<times> string" where
  "scan_char c = (\<lambda>(vResult, bVerbatim, strItem).
    if c = CHR '' '' \<or> c = CHR ''('' \<or> c = CHR '')''
    then bind_r (if bVerbatim then Inr (vResult, strItem @ [c])
                 else if strItem \<noteq> [] then bind_r (take_item c vResult strItem) (\<lambda>v. Inr (v, []))
                 else Inr (vResult, strItem))
      (\<lambda>(v, item). bind_r (add_bracket c v) (\<lambda>v'. Inr (v', bVerbatim, item)))
    else if c = CHR 0x22 then Inr (vResult, \<not> bVerbatim, strItem @ [c])
    else Inr (vResult, bVerbatim, strItem @ [c]))"

primrec scan :: "string \<Rightarrow> search_request \<times> bool \<times> string \<Rightarrow> search_error + search_request \<times> bool \<times> string" where
  "scan [] st = Inr st"
| "scan (c # cs) st = bind_r (scan_char c st) (scan cs)"

definition last_item :: "search_request \<times> bool \<times> string \<Rightarrow> search_error + search_request" where
  "last_item = (\<lambda>(vResult, bVerbatim, strItem).
    if bVerbatim then Inl unclosed_quotation_mark
    else if strItem \<noteq> []
    then if string2OperType strItem \<noteq> SRE_END then Inl operator_incorrect_place
         else item_append vResult (sre_string (filter (\<lambda>c. \<not> is_quote c) strItem))
    else Inr vResult)"

section \<open>From the order of the query to prefix order\<close>

text \<open>The result and the stack of operators, its top first; the entries come from the last one.\<close>

fun roll_up :: "search_request \<Rightarrow> search_request \<Rightarrow> search_error + search_request \<times> search_request" where
  "roll_up vPrefResult [] = Inl incorrect_brackets_count"
| "roll_up vPrefResult (t # operators_stack) =
    (if m_operator t = SRE_CBR then Inr (vPrefResult, operators_stack) else roll_up (t # vPrefResult) operators_stack)"

definition to_prefix_step :: "search_request_entry \<Rightarrow> search_request \<times> search_request \<Rightarrow> search_error + search_request \<times> search_request" where
  "to_prefix_step e = (\<lambda>(vPrefResult, operators_stack).
    if isOperator e
    then if m_operator e = SRE_OBR then roll_up vPrefResult operators_stack
         else if m_operator e \<le> SRE_NOT \<and> operators_stack \<noteq> [] \<and> m_operator (hd operators_stack) \<le> SRE_NOT
         then Inr (hd operators_stack # vPrefResult, e # tl operators_stack)
         else Inr (vPrefResult, e # operators_stack)
    else Inr (e # vPrefResult, operators_stack))"

primrec to_prefix_loop :: "search_request \<Rightarrow> search_request \<times> search_request \<Rightarrow> search_error + search_request \<times> search_request" where
  "to_prefix_loop [] st = Inr st"
| "to_prefix_loop (e # es) st = bind_r (to_prefix_step e st) (to_prefix_loop es)"

definition flush_operators :: "search_request \<times> search_request \<Rightarrow> search_error + search_request" where
  "flush_operators = (\<lambda>(vPrefResult, operators_stack).
    if operators_stack \<noteq> []
    then if SRE_NOT < m_operator (hd operators_stack) then Inl incorrect_brackets_count
         else Inr (hd operators_stack # vPrefResult)
    else Inr vPrefResult)"

definition to_prefix :: "search_request \<Rightarrow> search_error + search_request" where
  "to_prefix vResult = bind_r (to_prefix_loop (rev vResult) ([], [])) flush_operators"

definition generateSearchRequest :: "search_params \<Rightarrow> string \<Rightarrow> search_error + search_request" where
  "generateSearchRequest p strQuery =
    (if 20 < length (strFileType p) \<or> 20 < length (strFileExtension p) \<or> 20 < length (strCodec p) \<or> 450 < length strQuery
     then Inl input_string_too_large
     else if strQuery = [] then Inr []
     else bind_r (append_all (param_entries p) []) (\<lambda>v0.
       bind_r (scan strQuery (v0, False, [])) (\<lambda>st.
       bind_r (last_item st) (\<lambda>vResult.
       if 30 < length vResult - length v0 then Inl search_expression_too_complex
       else to_prefix vResult))))"

text \<open>The request for files related to a file.\<close>

definition hex_digit :: "uint8 \<Rightarrow> char" where
  "hex_digit d = ''0123456789ABCDEF'' ! unat d"

definition hash_to_string :: "bytes \<Rightarrow> string" where
  "hash_to_string h = concat (map (\<lambda>b. [hex_digit (drop_bit 4 b), hex_digit (b AND 0x0F)]) h)"

definition generateRelatedRequest :: "bytes \<Rightarrow> search_request" where
  "generateRelatedRequest hFile = [sre_string (''related::'' @ hash_to_string hFile)]"

end
