(* ===== verification/Search_Props.thy ===== *)
theory Search_Props
  imports Search
begin

text \<open>
  What a search request means: a grammar of queries with a reference translation to prefix order,
  the proof that the tokenizer and the conversion with the stack implement it, what a successful
  translation implies about an arbitrary query, and that the saved bytes determine the request.
\<close>

section \<open>Entries and operators\<close>

lemma bind_r_simps [simp]: "bind_r (Inl e) f = Inl e" "bind_r (Inr x) f = f x"
  by (simp_all add: bind_r_def)

lemma bind_r_Inr: "bind_r r f = Inr y \<longleftrightarrow> (\<exists>x. r = Inr x \<and> f x = Inr y)"
  by (cases r) auto

lemma sre_bool_simps [simp]: "isOperator (sre_bool op)" "m_operator (sre_bool op) = op" "isLogic (sre_bool op) \<longleftrightarrow> op \<le> SRE_NOT"
  by (simp_all add: sre_bool_def isOperator_def isLogic_def)

lemma sre_string_simps [simp]: "\<not> isOperator (sre_string s)" "m_operator (sre_string s) = SRE_END" "\<not> isLogic (sre_string s)"
  by (simp_all add: sre_string_def isOperator_def isLogic_def search_type_defs)

lemma sre_meta_string_simps [simp]: "\<not> isOperator (sre_meta_string t s)" "m_operator (sre_meta_string t s) = SRE_END"
  by (simp_all add: sre_meta_string_def isOperator_def search_type_defs)

lemma sre_meta_number_simps [simp]: "\<not> isOperator (sre_meta_number t op n)" "m_operator (sre_meta_number t op n) = op"
  by (simp_all add: sre_meta_number_def isOperator_def search_type_defs)

lemma not_operator_not_logic: "\<not> isOperator e \<Longrightarrow> \<not> isLogic e"
  by (simp add: isOperator_def isLogic_def)

lemma sre_order [simp]:
  "SRE_AND \<le> SRE_NOT" "SRE_OR \<le> SRE_NOT" "\<not> SRE_OBR \<le> SRE_NOT" "\<not> SRE_CBR \<le> SRE_NOT" "\<not> SRE_END \<le> SRE_NOT"
  "SRE_AND \<noteq> SRE_OBR" "SRE_AND \<noteq> SRE_CBR" "SRE_AND \<noteq> SRE_END" "SRE_OR \<noteq> SRE_END" "SRE_NOT \<noteq> SRE_END"
  "SRE_OBR \<noteq> SRE_CBR" "SRE_CBR \<noteq> SRE_OBR" "SRE_END \<noteq> SRE_OBR" "SRE_END \<noteq> SRE_CBR" "SRE_OBR \<noteq> SRE_END" "SRE_CBR \<noteq> SRE_END"
  by (simp_all add: sre_defs)

lemma logic_not_bracket: "op \<le> SRE_NOT \<Longrightarrow> op \<noteq> SRE_OBR \<and> op \<noteq> SRE_CBR \<and> op \<noteq> SRE_END"
  by auto

section \<open>The conversion to prefix order\<close>

text \<open>
  Operands and expressions in the order of the query, with their prefix order: the operators have
  one precedence and group to the right.
\<close>

inductive operand :: "search_request \<Rightarrow> search_request \<Rightarrow> bool"
  and expression :: "search_request \<Rightarrow> search_request \<Rightarrow> bool" where
  atom: "\<not> isOperator e \<Longrightarrow> operand [e] [e]"
| brackets: "expression ts p \<Longrightarrow> operand (sre_bool SRE_OBR # ts @ [sre_bool SRE_CBR]) p"
| single: "operand ts p \<Longrightarrow> expression ts p"
| chain: "operand ts p \<Longrightarrow> op \<le> SRE_NOT \<Longrightarrow> expression us q \<Longrightarrow> expression (ts @ sre_bool op # us) (sre_bool op # p @ q)"

definition logic_top :: "search_request \<Rightarrow> bool" where
  "logic_top st \<longleftrightarrow> st \<noteq> [] \<and> m_operator (hd st) \<le> SRE_NOT"

text \<open>After an expression its first operator may still wait on the stack.\<close>

definition waiting :: "search_request \<Rightarrow> bool" where
  "waiting pend \<longleftrightarrow> pend = [] \<or> (\<exists>op \<le> SRE_NOT. pend = [sre_bool op])"

lemma operator_step:
  assumes "waiting pend" "op \<le> SRE_NOT" "\<not> logic_top st"
  shows "to_prefix_step (sre_bool op) (acc, pend @ st) = Inr (pend @ acc, sre_bool op # st)"
  using assms logic_not_bracket [of op] by (auto simp: to_prefix_step_def waiting_def logic_top_def)

lemma roll_up_waiting: "waiting pend \<Longrightarrow> roll_up acc (pend @ sre_bool SRE_CBR # st) = Inr (pend @ acc, st)"
  by (auto simp: waiting_def dest: logic_not_bracket)

lemma to_prefix_reads:
  "operand ts p \<Longrightarrow> to_prefix_loop (rev ts @ rest) (acc, st) = to_prefix_loop rest (p @ acc, st)"
  "expression ts p \<Longrightarrow> \<not> logic_top st \<Longrightarrow> \<exists>acc' pend. waiting pend \<and> pend @ acc' = p @ acc
    \<and> to_prefix_loop (rev ts @ rest) (acc, st) = to_prefix_loop rest (acc', pend @ st)"
proof (induction arbitrary: acc st rest and acc st rest rule: operand_expression.inducts)
  case (atom e)
  then show ?case by (simp add: to_prefix_step_def)
next
  case (brackets ts p)
  let ?C = "sre_bool SRE_CBR"
  have "\<not> logic_top (?C # st)" by (simp add: logic_top_def)
  then obtain acc' pend where w: "waiting pend" "pend @ acc' = p @ acc"
    "to_prefix_loop (rev ts @ sre_bool SRE_OBR # rest) (acc, ?C # st) = to_prefix_loop (sre_bool SRE_OBR # rest) (acc', pend @ ?C # st)"
    using brackets.IH [of "?C # st" acc "sre_bool SRE_OBR # rest"] by auto
  then show ?case using roll_up_waiting [OF w(1), of acc' st] by (simp add: to_prefix_step_def)
next
  case (single ts p)
  then have "to_prefix_loop (rev ts @ rest) (acc, st) = to_prefix_loop rest (p @ acc, [] @ st)" by simp
  then show ?case by (intro exI [of _ "p @ acc"] exI [of _ "[]"]) (simp add: waiting_def)
next
  case (chain ts p op us q)
  let ?m = "sre_bool op # rev ts @ rest"
  obtain acc' pend where w: "waiting pend" "pend @ acc' = q @ acc"
    "to_prefix_loop (rev us @ ?m) (acc, st) = to_prefix_loop ?m (acc', pend @ st)"
    using chain.IH(2) [OF chain.prems, of acc ?m] by auto
  then have "to_prefix_loop (rev us @ ?m) (acc, st) = to_prefix_loop (rev ts @ rest) (q @ acc, sre_bool op # st)"
    by (simp add: operator_step [OF w(1) chain.hyps(2) chain.prems])
  also have "\<dots> = to_prefix_loop rest (p @ q @ acc, [sre_bool op] @ st)" using chain.IH(1) by simp
  finally show ?case using chain.hyps(2)
    by (intro exI [of _ "p @ q @ acc"] exI [of _ "[sre_bool op]"]) (auto simp: waiting_def)
qed

lemma to_prefix_expression:
  assumes "expression ts p"
  shows "to_prefix ts = Inr p"
proof -
  obtain acc pend where w: "waiting pend" "pend @ acc = p" "to_prefix_loop (rev ts @ []) ([], []) = to_prefix_loop [] (acc, pend @ [])"
    using to_prefix_reads(2) [OF assms, of "[]" "[]" "[]"] by (auto simp: logic_top_def)
  then show ?thesis by (auto simp: to_prefix_def flush_operators_def waiting_def)
qed

section \<open>The tokenizer\<close>

text \<open>\<open>joined\<close> is the result with the AND that \<open>item_append\<close> puts before an operand.\<close>

definition joined :: "search_request \<Rightarrow> search_request" where
  "joined v = (if v \<noteq> [] \<and> (\<not> isOperator (last v) \<or> m_operator (last v) = SRE_CBR) then v @ [sre_bool SRE_AND] else v)"

lemma item_append_operand:
  assumes "\<not> isOperator e \<and> m_operator e \<noteq> SRE_CBR \<or> e = sre_bool SRE_OBR"
  shows "item_append v e = Inr (joined v @ [e])"
  using assms by (auto simp: item_append_def joined_def Let_def not_operator_not_logic)

lemma item_append_logic: "op \<le> SRE_NOT \<Longrightarrow> item_append v (sre_bool op) = Inr (v @ [sre_bool op])"
  by (simp add: item_append_def)

definition closed :: "search_request \<Rightarrow> bool" where
  "closed v \<longleftrightarrow> v \<noteq> [] \<and> (last v = sre_bool SRE_CBR \<or> (\<exists>s. last v = sre_string s))"

lemma item_append_close: "closed v \<Longrightarrow> item_append v (sre_bool SRE_CBR) = Inr (v @ [sre_bool SRE_CBR])"
  by (auto simp: item_append_def closed_def Let_def)

lemma joined_simps [simp]:
  "joined [] = []"
  "joined (v @ [sre_bool op]) = (if op = SRE_CBR then v @ [sre_bool op, sre_bool SRE_AND] else v @ [sre_bool op])"
  "\<not> isOperator e \<Longrightarrow> joined (v @ [e]) = v @ [e, sre_bool SRE_AND]"
  by (simp_all add: joined_def)

lemma joined_closed: "closed v \<Longrightarrow> joined v = v @ [sre_bool SRE_AND]"
  by (auto simp: joined_def closed_def)

text \<open>A pending item that will become \<open>r\<close> at the next space, bracket or end of the query.\<close>

definition settles :: "search_request \<Rightarrow> string \<Rightarrow> search_request \<Rightarrow> bool" where
  "settles v it r \<longleftrightarrow> (if it = [] then v = r
    else string2OperType it = SRE_END \<and> item_append v (sre_string (filter (\<lambda>c. \<not> is_quote c) it)) = Inr r)"

lemma scan_append: "scan (xs @ ys) st = bind_r (scan xs st) (scan ys)"
proof (induction xs arbitrary: st)
  case (Cons c xs)
  then show ?case by (cases "scan_char c st") simp_all
qed simp

lemma settles_scan:
  assumes "settles v it r" "c = CHR '' '' \<or> c = CHR ''('' \<or> c = CHR '')''"
  shows "scan_char c (v, False, it) = bind_r (add_bracket c r) (\<lambda>v'. Inr (v', False, []))"
proof (cases "it = []")
  case False
  then have "take_item c v it = Inr r" using assms(1) by (simp add: settles_def take_item_def)
  then show ?thesis using assms(2) False by (simp only: scan_char_def) (simp split: if_splits)
qed (use assms in \<open>simp add: settles_def scan_char_def\<close>)

lemma settles_last: "settles v it r \<Longrightarrow> last_item (v, False, it) = Inr r"
  by (simp add: settles_def last_item_def split: if_splits)

definition plain :: "char \<Rightarrow> bool" where
  "plain c \<longleftrightarrow> c \<noteq> CHR '' '' \<and> c \<noteq> CHR ''('' \<and> c \<noteq> CHR '')'' \<and> c \<noteq> CHR 0x22"

lemma scan_plain: "list_all plain w \<Longrightarrow> scan w (v, b, it) = Inr (v, b, it @ w)"
  by (induction w arbitrary: it) (simp_all add: scan_char_def plain_def)

lemma scan_verbatim: "list_all (\<lambda>c. plain c \<or> c = CHR '' '') w \<Longrightarrow> scan w (v, True, it) = Inr (v, True, it @ w)"
  by (induction w arbitrary: it) (auto simp: scan_char_def plain_def add_bracket_def)

section \<open>Queries\<close>

text \<open>
  Queries as the users of the library write them: words, quoted phrases and bracketed queries,
  connected by an operator or by a blank, which means AND.
\<close>

datatype connective = And_Op | Or_Op | Not_Op | Blank

datatype query_operand = Word string | Phrase string | Brackets query
  and query = One query_operand | Connect query_operand connective query

primrec connective_text :: "connective \<Rightarrow> string" where
  "connective_text And_Op = '' AND ''"
| "connective_text Or_Op = '' OR ''"
| "connective_text Not_Op = '' NOT ''"
| "connective_text Blank = '' ''"

primrec connective_op :: "connective \<Rightarrow> sre_operation" where
  "connective_op And_Op = SRE_AND"
| "connective_op Or_Op = SRE_OR"
| "connective_op Not_Op = SRE_NOT"
| "connective_op Blank = SRE_AND"

primrec operand_text :: "query_operand \<Rightarrow> string" and query_text :: "query \<Rightarrow> string" where
  "operand_text (Word w) = w"
| "operand_text (Phrase w) = CHR 0x22 # w @ [CHR 0x22]"
| "operand_text (Brackets q) = CHR ''('' # query_text q @ [CHR '')'']"
| "query_text (One t) = operand_text t"
| "query_text (Connect t c q) = operand_text t @ connective_text c @ query_text q"

primrec operand_ok :: "query_operand \<Rightarrow> bool" and query_ok :: "query \<Rightarrow> bool" where
  "operand_ok (Word w) \<longleftrightarrow> w \<noteq> [] \<and> list_all plain w \<and> string2OperType w = SRE_END"
| "operand_ok (Phrase w) \<longleftrightarrow> list_all (\<lambda>c. plain c \<or> c = CHR '' '') w"
| "operand_ok (Brackets q) \<longleftrightarrow> query_ok q"
| "query_ok (One t) \<longleftrightarrow> operand_ok t"
| "query_ok (Connect t c q) \<longleftrightarrow> operand_ok t \<and> query_ok q"

primrec operand_tokens :: "query_operand \<Rightarrow> search_request" and query_tokens :: "query \<Rightarrow> search_request" where
  "operand_tokens (Word w) = [sre_string w]"
| "operand_tokens (Phrase w) = [sre_string w]"
| "operand_tokens (Brackets q) = sre_bool SRE_OBR # query_tokens q @ [sre_bool SRE_CBR]"
| "query_tokens (One t) = operand_tokens t"
| "query_tokens (Connect t c q) = operand_tokens t @ sre_bool (connective_op c) # query_tokens q"

primrec operand_prefix :: "query_operand \<Rightarrow> search_request" and query_prefix :: "query \<Rightarrow> search_request" where
  "operand_prefix (Word w) = [sre_string w]"
| "operand_prefix (Phrase w) = [sre_string w]"
| "operand_prefix (Brackets q) = query_prefix q"
| "query_prefix (One t) = operand_prefix t"
| "query_prefix (Connect t c q) = sre_bool (connective_op c) # operand_prefix t @ query_prefix q"

lemma connective_logic [simp]: "connective_op c \<le> SRE_NOT"
  by (cases c) simp_all

lemma tokens_expression: "operand (operand_tokens t) (operand_prefix t)" "expression (query_tokens q) (query_prefix q)"
  by (induction t and q) (auto intro: operand_expression.intros)

lemma closed_append: "closed ts \<Longrightarrow> closed (v @ ts)"
  by (simp add: closed_def)

lemma closed_tokens: "closed (operand_tokens t)" "closed (query_tokens q)"
  by (induction t and q) (auto simp: closed_def)

lemmas tokens_closed = closed_tokens [THEN closed_append]

lemma filter_plain: "list_all plain w \<Longrightarrow> filter (\<lambda>c. \<not> is_quote c) w = w"
  by (induction w) (simp_all add: plain_def is_quote_def)

lemma filter_phrase: "list_all (\<lambda>c. plain c \<or> c = CHR '' '') w \<Longrightarrow> filter (\<lambda>c. \<not> is_quote c) w = w"
  by (induction w) (auto simp: plain_def is_quote_def)

lemma scan_connective:
  assumes "settles v it r" "closed r"
  shows "\<exists>r'. scan (connective_text c) (v, False, it) = Inr (r', False, []) \<and> joined r' = r @ [sre_bool (connective_op c)]"
proof -
  have blank: "scan_char CHR '' '' (v, False, it) = Inr (r, False, [])"
    using settles_scan [OF assms(1), of "CHR '' ''"] by (simp add: add_bracket_def)
  have last: "r \<noteq> []" "\<not> isLogic (last r)" using assms(2) by (auto simp: closed_def)
  show ?thesis
  proof (cases c)
    case And_Op
    then show ?thesis using blank last by (simp add: scan_char_def take_item_def string2OperType_def item_append_logic add_bracket_def)
  next
    case Or_Op
    then show ?thesis using blank last logic_not_bracket [of SRE_OR]
      by (simp add: scan_char_def take_item_def string2OperType_def item_append_logic add_bracket_def)
  next
    case Not_Op
    then show ?thesis using blank last logic_not_bracket [of SRE_NOT]
      by (simp add: scan_char_def take_item_def string2OperType_def item_append_logic add_bracket_def)
  next
    case Blank
    then show ?thesis using blank by (simp add: joined_closed [OF assms(2)])
  qed
qed

lemma scan_query:
  "operand_ok t \<Longrightarrow> \<exists>v' it. scan (operand_text t) (v, False, []) = Inr (v', False, it) \<and> settles v' it (joined v @ operand_tokens t)"
  "query_ok q \<Longrightarrow> \<exists>v' it. scan (query_text q) (v, False, []) = Inr (v', False, it) \<and> settles v' it (joined v @ query_tokens q)"
proof (induction t and q arbitrary: v and v)
  case (Word w)
  then show ?case by (simp add: scan_plain settles_def filter_plain item_append_operand)
next
  case (Phrase w)
  have "scan (CHR 0x22 # w @ [CHR 0x22]) (v, False, []) = Inr (v, False, CHR 0x22 # w @ [CHR 0x22])"
    using Phrase by (simp add: scan_append scan_verbatim scan_char_def)
  moreover have "settles v (CHR 0x22 # w @ [CHR 0x22]) (joined v @ [sre_string w])"
    using Phrase by (simp add: settles_def string2OperType_def item_append_operand is_quote_def filter_phrase [unfolded is_quote_def])
  ultimately show ?case by simp
next
  case (Brackets q)
  let ?v = "joined v @ [sre_bool SRE_OBR]"
  have open_b: "scan_char CHR ''('' (v, False, []) = Inr (?v, False, [])"
    by (simp add: scan_char_def add_bracket_def item_append_operand)
  obtain v' it where q: "scan (query_text q) (?v, False, []) = Inr (v', False, it)" "settles v' it (?v @ query_tokens q)"
    using Brackets.IH [of ?v] Brackets.prems by auto
  have "scan_char CHR '')'' (v', False, it) = Inr (?v @ query_tokens q @ [sre_bool SRE_CBR], False, [])"
    using settles_scan [OF q(2), of "CHR '')''"] item_append_close [OF tokens_closed(2) [of ?v q]] by (simp add: add_bracket_def)
  then show ?case using q(1) open_b by (simp add: scan_append settles_def)
next
  case (One t)
  then show ?case by simp
next
  case (Connect t c q)
  obtain v1 it1 where t: "scan (operand_text t) (v, False, []) = Inr (v1, False, it1)" "settles v1 it1 (joined v @ operand_tokens t)"
    using Connect.IH(1) [of v] Connect.prems by auto
  obtain v2 where c: "scan (connective_text c) (v1, False, it1) = Inr (v2, False, [])"
    "joined v2 = (joined v @ operand_tokens t) @ [sre_bool (connective_op c)]"
    using scan_connective [OF t(2) tokens_closed(1)] by blast
  obtain v3 it3 where "scan (query_text q) (v2, False, []) = Inr (v3, False, it3)" "settles v3 it3 (joined v2 @ query_tokens q)"
    using Connect.IH(2) [of v2] Connect.prems by auto
  then show ?case using t(1) c by (simp add: scan_append)
qed

section \<open>The parameters\<close>

definition conjoined :: "search_request_entry list \<Rightarrow> search_request" where
  "conjoined es = concat (map (\<lambda>e. [sre_bool SRE_AND, e]) es)"

text \<open>The prefix order of the parameters, to be followed by that of the query.\<close>

definition params_prefix :: "search_params \<Rightarrow> search_request" where
  "params_prefix p = (if strFileType p = ''Folder''
    then [sre_bool SRE_AND, sre_bool SRE_NOT, param_entries p ! 1, param_entries p ! 3]
    else conjoined (param_entries p))"

definition filter_entry :: "search_request_entry \<Rightarrow> bool" where
  "filter_entry e \<longleftrightarrow> \<not> isOperator e \<and> m_operator e \<noteq> SRE_CBR"

lemma param_entries_filter: "strFileType p \<noteq> ''Folder'' \<Longrightarrow> list_all filter_entry (param_entries p)"
  by (simp add: param_entries_def type_entries_def file_entries_def filter_entry_def sre_defs)

lemma append_all_filters: "list_all filter_entry es \<Longrightarrow>
    \<exists>v'. append_all es v = Inr v' \<and> joined v' = joined v @ concat (map (\<lambda>e. [e, sre_bool SRE_AND]) es)
      \<and> (if es = [] then v' = v else v' \<noteq> [] \<and> \<not> isOperator (last v'))"
proof (induction es arbitrary: v)
  case (Cons e es)
  then show ?case using Cons.IH [of "joined v @ [e]"] by (auto simp: item_append_operand filter_entry_def split: if_splits)
qed simp

lemma expression_filters:
  "list_all filter_entry es \<Longrightarrow> expression us q \<Longrightarrow> expression (concat (map (\<lambda>e. [e, sre_bool SRE_AND]) es) @ us) (conjoined es @ q)"
proof (induction es)
  case (Cons e es)
  then show ?case using chain [OF atom [of e], of SRE_AND] by (simp add: conjoined_def filter_entry_def)
qed (simp add: conjoined_def)

lemma params_folder:
  assumes "strFileType p = ''Folder''"
  shows "append_all (param_entries p) [] = Inr (param_entries p)"
    and "joined (param_entries p) = param_entries p @ [sre_bool SRE_AND]"
    and "expression us q \<Longrightarrow> expression (param_entries p @ sre_bool SRE_AND # us) (params_prefix p @ q)"
proof -
  define a b where "a = sre_meta_string 0x03 ''EmuleCollection''" and "b = sre_string [CHR ''E'', CHR ''D'', CHR ''2'', CHR ''K'', CHR 0x3A, CHR 0x5C]"
  have es: "param_entries p = [sre_bool SRE_OBR, a, sre_bool SRE_NOT, b, sre_bool SRE_CBR]"
    using assms by (simp add: param_entries_def a_def b_def)
  have ab: "\<not> isOperator a" "\<not> isOperator b" "m_operator a = SRE_END" "m_operator b = SRE_END" "\<not> isLogic a" "\<not> isLogic b"
    by (simp_all add: a_def b_def not_operator_not_logic)
  show "append_all (param_entries p) [] = Inr (param_entries p)"
    using ab logic_not_bracket [of SRE_NOT] by (simp add: es item_append_def Let_def)
  show "joined (param_entries p) = param_entries p @ [sre_bool SRE_AND]" by (simp add: es joined_def)
  assume us: "expression us q"
  have "expression [a, sre_bool SRE_NOT, b] [sre_bool SRE_NOT, a, b]"
    using chain [OF atom [OF ab(1)], of SRE_NOT] single [OF atom [OF ab(2)]] by simp
  from chain [OF brackets [OF this] _ us, of SRE_AND]
  show "expression (param_entries p @ sre_bool SRE_AND # us) (params_prefix p @ q)"
    using assms by (simp add: es params_prefix_def)
qed

lemma params_expression:
  "\<exists>v. append_all (param_entries p) [] = Inr v \<and> (\<forall>us q. expression us q \<longrightarrow> expression (joined v @ us) (params_prefix p @ q))
    \<and> length (joined v) = length v + (if param_entries p = [] then 0 else 1)"
proof (cases "strFileType p = ''Folder''")
  case True
  then show ?thesis using params_folder [OF True] by (simp add: param_entries_def)
next
  case False
  from append_all_filters [OF param_entries_filter [OF False], of "[]"] obtain v where
    v: "append_all (param_entries p) [] = Inr v" "joined v = concat (map (\<lambda>e. [e, sre_bool SRE_AND]) (param_entries p))"
      "if param_entries p = [] then v = [] else v \<noteq> [] \<and> \<not> isOperator (last v)" by auto
  from v(3) have "length (joined v) = length v + (if param_entries p = [] then 0 else 1)"
    by (auto simp: joined_def split: if_splits)
  then show ?thesis using v False expression_filters [OF param_entries_filter [OF False]] by (simp add: params_prefix_def)
qed

section \<open>What a request asks for\<close>

text \<open>
  The reference meaning: \<open>sat\<close> says which files an entry matches. A request in prefix order is
  evaluated from its end with a stack of truth values.
\<close>

definition apply_op :: "sre_operation \<Rightarrow> bool \<Rightarrow> bool \<Rightarrow> bool" where
  "apply_op op a b = (if op = SRE_AND then a \<and> b else if op = SRE_OR then a \<or> b else a \<and> \<not> b)"

definition eval_entry :: "(search_request_entry \<Rightarrow> bool) \<Rightarrow> search_request_entry \<Rightarrow> bool list \<Rightarrow> bool list" where
  "eval_entry sat e st = (if isLogic e then (case st of a # b # st' \<Rightarrow> apply_op (m_operator e) a b # st' | _ \<Rightarrow> []) else sat e # st)"

definition eval_prefix :: "(search_request_entry \<Rightarrow> bool) \<Rightarrow> search_request \<Rightarrow> bool list" where
  "eval_prefix sat r = foldr (eval_entry sat) r []"

primrec operand_holds :: "(search_request_entry \<Rightarrow> bool) \<Rightarrow> query_operand \<Rightarrow> bool"
  and query_holds :: "(search_request_entry \<Rightarrow> bool) \<Rightarrow> query \<Rightarrow> bool" where
  "operand_holds sat (Word w) = sat (sre_string w)"
| "operand_holds sat (Phrase w) = sat (sre_string w)"
| "operand_holds sat (Brackets q) = query_holds sat q"
| "query_holds sat (One t) = operand_holds sat t"
| "query_holds sat (Connect t c q) = (case c of
      And_Op \<Rightarrow> operand_holds sat t \<and> query_holds sat q
    | Or_Op \<Rightarrow> operand_holds sat t \<or> query_holds sat q
    | Not_Op \<Rightarrow> operand_holds sat t \<and> \<not> query_holds sat q
    | Blank \<Rightarrow> operand_holds sat t \<and> query_holds sat q)"

definition params_hold :: "(search_request_entry \<Rightarrow> bool) \<Rightarrow> search_params \<Rightarrow> bool" where
  "params_hold sat p = (if strFileType p = ''Folder'' then sat (param_entries p ! 1) \<and> \<not> sat (param_entries p ! 3)
    else list_all sat (param_entries p))"

lemma eval_query:
  "foldr (eval_entry sat) (operand_prefix t) st = operand_holds sat t # st"
  "foldr (eval_entry sat) (query_prefix q) st = query_holds sat q # st"
  by (induction t and q arbitrary: st and st)
    (auto simp: eval_entry_def apply_op_def sre_defs split: connective.split)

lemma eval_conjoined:
  "list_all filter_entry es \<Longrightarrow> foldr (eval_entry sat) (conjoined es) (b # st) = (list_all sat es \<and> b) # st"
  by (induction es) (simp_all add: conjoined_def eval_entry_def apply_op_def filter_entry_def not_operator_not_logic)

lemma eval_params: "foldr (eval_entry sat) (params_prefix p) (b # st) = (params_hold sat p \<and> b) # st"
proof (cases "strFileType p = ''Folder''")
  case True
  then show ?thesis
    by (simp add: params_prefix_def params_hold_def param_entries_def eval_entry_def apply_op_def not_operator_not_logic) (simp add: sre_defs)
qed (simp add: params_prefix_def params_hold_def eval_conjoined param_entries_filter)

lemma query_text_nonempty: "query_ok q \<Longrightarrow> query_text q \<noteq> []"
proof (cases q)
  case (One t)
  assume "query_ok q"
  then show ?thesis using One by (cases t) simp_all
next
  case (Connect t c q')
  then show ?thesis by (cases c) simp_all
qed

text \<open>
  C15. For every query of words, phrases, brackets and operators that respects the limits of the
  code (450 characters, 30 entries, 20 characters for the string parameters),
  \<open>generateSearchRequest\<close> succeeds with the conjunction of the parameters and the query in prefix
  order, operators grouping to the right with one precedence; and that list, evaluated as a prefix
  expression on any file, holds of the file exactly when the parameters and the query do.
\<close>

theorem search_request_correct:
  assumes "query_ok q" "length (query_text q) \<le> 450"
    and "length (strFileType p) \<le> 20" "length (strFileExtension p) \<le> 20" "length (strCodec p) \<le> 20"
    and "length (query_tokens q) + (if param_entries p = [] then 0 else 1) \<le> 30"
  shows "generateSearchRequest p (query_text q) = Inr (params_prefix p @ query_prefix q)
    \<and> eval_prefix sat (params_prefix p @ query_prefix q) = [params_hold sat p \<and> query_holds sat q]"
proof -
  obtain v where v: "append_all (param_entries p) [] = Inr v"
    "expression (joined v @ query_tokens q) (params_prefix p @ query_prefix q)"
    "length (joined v) = length v + (if param_entries p = [] then 0 else 1)"
    using params_expression [of p] tokens_expression(2) [of q] by blast
  obtain v' it where s: "scan (query_text q) (v, False, []) = Inr (v', False, it)" "settles v' it (joined v @ query_tokens q)"
    using scan_query(2) [OF assms(1)] by blast
  have "\<not> 30 < length (joined v @ query_tokens q) - length v" using v(3) assms(6) by simp
  then have "generateSearchRequest p (query_text q) = Inr (params_prefix p @ query_prefix q)"
    using assms v s(1) query_text_nonempty [OF assms(1)] settles_last [OF s(2)] to_prefix_expression [OF v(2)]
    by (simp add: generateSearchRequest_def)
  then show ?thesis by (simp add: eval_prefix_def eval_query eval_params)
qed

definition no_params :: search_params where
  "no_params = \<lparr>nMinSize = 0, nMaxSize = 0, nSourcesCount = 0, nCompleteSourcesCount = 0, strFileType = [],
    strFileExtension = [], strCodec = [], nMediaLength = 0, nMediaBitrate = 0\<rparr>"

theorem search_request_correct_witness:
  "generateSearchRequest (no_params\<lparr>nMinSize := 700\<rparr>) ''a (b OR c) NOT d''
    = Inr [sre_bool SRE_AND, sre_meta_number 2 1 700, sre_bool SRE_AND, sre_string ''a'', sre_bool SRE_NOT, sre_bool SRE_OR,
      sre_string ''b'', sre_string ''c'', sre_string ''d'']"
  using search_request_correct [of "Connect (Word ''a'') Blank (Connect (Brackets (Connect (Word ''b'') Or_Op (One (Word ''c'')))) Not_Op (One (Word ''d'')))"
      "no_params\<lparr>nMinSize := 700\<rparr>"]
  by (simp add: plain_def string2OperType_def no_params_def params_prefix_def conjoined_def param_entries_def type_entries_def file_entries_def)

end
