(* ===== verification/Search_Wire.thy ===== *)
theory Search_Wire
  imports Search_Props
begin

text \<open>
  Arbitrary queries: what holds of the query and of the entries whenever a request is generated,
  and that the bytes of a generated request determine it. Also the queries and entries on which the
  code does not do what it means to.
\<close>

section \<open>Brackets and quotation marks\<close>

definition brackets_of :: "sre_operation \<Rightarrow> search_request \<Rightarrow> nat" where
  "brackets_of b v = length (filter (\<lambda>e. isOperator e \<and> m_operator e = b) v)"

lemma brackets_of_simps [simp]:
  "brackets_of b [] = 0"
  "brackets_of b (e # v) = (if isOperator e \<and> m_operator e = b then 1 else 0) + brackets_of b v"
  "brackets_of b (v @ w) = brackets_of b v + brackets_of b w"
  "brackets_of b (rev v) = brackets_of b v"
  by (simp_all add: brackets_of_def rev_filter [symmetric])













lemma generate_cases:
  assumes "generateSearchRequest p s = Inr r"
  shows "length s \<le> 450" "length (strFileType p) \<le> 20" "length (strFileExtension p) \<le> 20" "length (strCodec p) \<le> 20"
    and "s = [] \<and> r = [] \<or> (\<exists>v v' b it ts. append_all (param_entries p) [] = Inr v \<and> scan s (v, False, []) = Inr (v', b, it)
      \<and> last_item (v', b, it) = Inr ts \<and> length ts - length v \<le> 30 \<and> to_prefix ts = Inr r)"
  using assms by (auto simp: generateSearchRequest_def bind_r_Inr split: if_splits)



section \<open>The entries of a generated request\<close>

inductive sendable :: "nat \<Rightarrow> search_request_entry \<Rightarrow> bool" for n where
  logic: "op \<le> SRE_NOT \<Longrightarrow> sendable n (sre_bool op)"
| string: "length s \<le> n \<Longrightarrow> sendable n (sre_string s)"
| meta_string: "length s \<le> n \<Longrightarrow> sendable n (sre_meta_string t s)"
| meta_number: "sendable n (sre_meta_number t op k)"

inductive_simps sendable_bool: "sendable n (sre_bool op)"

definition token_ok :: "nat \<Rightarrow> search_request_entry \<Rightarrow> bool" where
  "token_ok n e \<longleftrightarrow> e = sre_bool SRE_OBR \<or> e = sre_bool SRE_CBR \<or> sendable n e"

lemma token_ok_and: "token_ok n (sre_bool SRE_AND)"
  by (simp add: token_ok_def sendable.logic)

lemma item_append_ok: "item_append v e = Inr v' \<Longrightarrow> list_all (token_ok n) v \<Longrightarrow> token_ok n e \<Longrightarrow> list_all (token_ok n) v'"
  by (auto simp: item_append_def Let_def token_ok_and split: if_splits)

lemma append_all_ok: "append_all es w = Inr v \<Longrightarrow> list_all (token_ok n) w \<Longrightarrow> list_all (token_ok n) es \<Longrightarrow> list_all (token_ok n) v"
proof (induction es arbitrary: w)
  case (Cons e es)
  then obtain w' where "item_append w e = Inr w'" "append_all es w' = Inr v" by (auto simp: bind_r_Inr)
  then show ?case using Cons item_append_ok [of w e w' n] by simp
qed simp

lemma params_ok:
  "length (strFileType p) \<le> 20 \<Longrightarrow> length (strFileExtension p) \<le> 20 \<Longrightarrow> length (strCodec p) \<le> 20 \<Longrightarrow> list_all (token_ok 450) (param_entries p)"
  by (simp add: param_entries_def type_entries_def file_entries_def token_ok_def sendable.intros)

lemma unquoted_ok: "length it \<le> n \<Longrightarrow> token_ok n (sre_string (filter (\<lambda>c. \<not> is_quote c) it))"
  unfolding token_ok_def by (intro disjI2 sendable.string) (rule le_trans [OF length_filter_le])

lemma take_item_ok:
  assumes "take_item c v it = Inr v'" "list_all (token_ok n) v" "length it \<le> n"
  shows "list_all (token_ok n) v'"
proof -
  have "string2OperType it \<noteq> SRE_END \<Longrightarrow> token_ok n (sre_bool (string2OperType it))"
    by (auto simp: string2OperType_def token_ok_def intro: sendable.logic)
  then show ?thesis using assms unquoted_ok [OF assms(3)] item_append_ok by (auto simp: take_item_def Let_def split: if_splits)
qed

lemma add_bracket_ok: "add_bracket c v = Inr v' \<Longrightarrow> list_all (token_ok n) v \<Longrightarrow> list_all (token_ok n) v'"
  using item_append_ok [of v _ v' n] by (auto simp: add_bracket_def token_ok_def split: if_splits)

lemma scan_char_ok:
  assumes "scan_char c (v, b, it) = Inr (v', b', it')" "list_all (token_ok n) v" "length it < n"
  shows "list_all (token_ok n) v' \<and> length it' \<le> Suc (length it)"
  using assms take_item_ok [of c v it _ n] add_bracket_ok [of c _ v' n]
  by (auto simp: scan_char_def bind_r_Inr split: if_splits)

lemma scan_ok:
  "scan s (v, b, it) = Inr (v', b', it') \<Longrightarrow> list_all (token_ok n) v \<Longrightarrow> length it + length s \<le> n \<Longrightarrow> list_all (token_ok n) v' \<and> length it' \<le> n"
proof (induction s arbitrary: v b it)
  case (Cons c s)
  then obtain w d jt where "scan_char c (v, b, it) = Inr (w, d, jt)" "scan s (w, d, jt) = Inr (v', b', it')"
    by (auto simp: bind_r_Inr)
  then show ?case using Cons.IH [of w d jt] Cons.prems scan_char_ok [of c v b it w d jt n] by auto
qed simp

definition stacked :: "search_request_entry \<Rightarrow> bool" where
  "stacked e \<longleftrightarrow> e = sre_bool SRE_CBR \<or> (\<exists>op \<le> SRE_NOT. e = sre_bool op)"

lemma token_cases: "token_ok n e \<Longrightarrow> (if isOperator e then m_operator e = SRE_OBR \<or> stacked e else sendable n e)"
  by (auto simp: token_ok_def stacked_def elim: sendable.cases)

lemma stacked_sendable: "stacked e \<Longrightarrow> m_operator e \<noteq> SRE_CBR \<Longrightarrow> sendable n e" "stacked e \<Longrightarrow> m_operator e \<le> SRE_NOT \<Longrightarrow> sendable n e"
  by (auto simp: stacked_def intro: sendable.logic)

lemma roll_up_ok: "roll_up acc st = Inr (acc', st') \<Longrightarrow> list_all (sendable n) acc \<Longrightarrow> list_all stacked st \<Longrightarrow> list_all (sendable n) acc' \<and> list_all stacked st'"
  by (induction acc st rule: roll_up.induct) (auto simp: stacked_sendable split: if_splits)

lemma to_prefix_step_ok:
  assumes "to_prefix_step e (acc, st) = Inr (acc', st')" "token_ok n e" "list_all (sendable n) acc" "list_all stacked st"
  shows "list_all (sendable n) acc' \<and> list_all stacked st'"
  using assms token_cases [OF assms(2)] roll_up_ok [of acc st acc' st' n]
  by (cases st) (auto simp: to_prefix_step_def stacked_sendable split: if_splits)

lemma to_prefix_loop_ok:
  "to_prefix_loop es (acc, st) = Inr (acc', st') \<Longrightarrow> list_all (token_ok n) es \<Longrightarrow> list_all (sendable n) acc \<Longrightarrow> list_all stacked st
    \<Longrightarrow> list_all (sendable n) acc' \<and> list_all stacked st'"
proof (induction es arbitrary: acc st)
  case (Cons e es)
  then obtain a t where "to_prefix_step e (acc, st) = Inr (a, t)" "to_prefix_loop es (a, t) = Inr (acc', st')"
    by (auto simp: bind_r_Inr)
  then show ?case using Cons.IH [of a t] Cons.prems to_prefix_step_ok [of e acc st a t n] by simp
qed simp

lemma to_prefix_ok: "to_prefix ts = Inr r \<Longrightarrow> list_all (token_ok n) ts \<Longrightarrow> list_all (sendable n) r"
proof -
  assume "to_prefix ts = Inr r" and ts: "list_all (token_ok n) ts"
  then obtain acc st where l: "to_prefix_loop (rev ts) ([], []) = Inr (acc, st)" "flush_operators (acc, st) = Inr r"
    by (auto simp: to_prefix_def bind_r_Inr)
  have "list_all (sendable n) acc \<and> list_all stacked st" using to_prefix_loop_ok [OF l(1)] ts by (simp add: list_all_rev)
  then show ?thesis using l(2) by (cases st) (auto simp: flush_operators_def not_less intro!: stacked_sendable split: if_splits)
qed

lemma generated_sendable:
  assumes "generateSearchRequest p s = Inr r"
  shows "list_all (sendable 450) r"
proof (cases "s = []")
  case False
  then obtain v v' b it ts where g: "append_all (param_entries p) [] = Inr v" "scan s (v, False, []) = Inr (v', b, it)"
    "last_item (v', b, it) = Inr ts" "to_prefix ts = Inr r" using generate_cases(5) [OF assms] by auto
  have "list_all (token_ok 450) v" using append_all_ok [OF g(1), of 450] params_ok generate_cases [OF assms] by simp
  then have v': "list_all (token_ok 450) v'" "length it \<le> 450" using scan_ok [OF g(2), of 450] generate_cases(1) [OF assms] by simp_all
  have "list_all (token_ok 450) ts" using g(3) v'(1) unquoted_ok [OF v'(2)] item_append_ok by (auto simp: last_item_def split: if_splits)
  then show ?thesis using to_prefix_ok [OF g(4)] by simp
qed (use assms in \<open>auto simp: generateSearchRequest_def split: if_splits\<close>)

section \<open>The saved bytes\<close>

text \<open>
  The library never loads a request; \<open>get_entry\<close> is the reader a server would use for the entries
  that are sent. It interprets \<open>codec\<close>, whose laws for sequences give that nothing is lost.
\<close>

context codec
begin

lemma unique_many:
  assumes "\<forall>x \<in> set xs. valid x \<and> put x \<noteq> []" "\<forall>y \<in> set ys. valid y \<and> put y \<noteq> []" "put_many put xs = put_many put ys"
  shows "map norm xs = map norm ys"
  using assms
proof (induction xs arbitrary: ys)
  case Nil
  then show ?case by (cases ys) (simp_all add: put_many_def)
next
  case (Cons x xs)
  then obtain y ys' where ys: "ys = y # ys'" by (cases ys) (simp_all add: put_many_def)
  then have "put x @ put_many put xs = put y @ put_many put ys'" using Cons.prems(3) by (simp add: put_many_def)
  then have "norm x = norm y \<and> put_many put xs = put_many put ys'" using unique [of x y] Cons.prems(1,2) ys by auto
  then show ?case using Cons.IH [of ys'] Cons.prems(1,2) ys by simp
qed

end

definition get_chars :: "string reader" where
  "get_chars = andThen (get_word 2) (\<lambda>n :: uint16. andThen (raw_read (unat n)) (\<lambda>bs. return (map (\<lambda>b. char_of (unat b)) bs)))"

definition get_meta :: "uint8 reader" where
  "get_meta = andThen (get_word 2) (\<lambda>n :: uint16. get_word 1)"

definition get_entry :: "search_request_entry reader" where
  "get_entry = andThen (get_word 1) (\<lambda>ty :: uint8.
    if ty = SEARCH_TYPE_BOOL then andThen (get_word 1) (\<lambda>op. return (sre_bool op))
    else if ty = SEARCH_TYPE_STR then andThen get_chars (\<lambda>s. return (sre_string s))
    else if ty = SEARCH_TYPE_STR_TAG then andThen get_chars (\<lambda>s. andThen get_meta (\<lambda>t. return (sre_meta_string t s)))
    else if ty = SEARCH_TYPE_UINT32
    then andThen (get_word 4) (\<lambda>k :: uint32. andThen (get_word 1) (\<lambda>op. andThen get_meta (\<lambda>t. return (sre_meta_number t op (ucast k)))))
    else andThen (get_word 8) (\<lambda>k. andThen (get_word 1) (\<lambda>op. andThen get_meta (\<lambda>t. return (sre_meta_number t op k)))))"

lemma unat_of_char: "unat (of_char c :: uint8) = of_char c"
proof -
  have "(of_char c :: nat) mod 256 = of_char c" by simp
  then show ?thesis by (subst of_nat_of_char [symmetric]) (simp add: unat_of_nat take_bit_eq_mod)
qed

lemma get_chars_put:
  assumes "length s \<le> 450"
  shows "get_chars (put_word 2 (word_of_nat (length s) :: uint16) @ put_chars s @ rest) = Inr (s, rest)"
proof -
  have "unat (word_of_nat (length s) :: uint16) = length s" using assms by (simp add: unat_of_nat take_bit_nat_eq_self)
  moreover have "map (\<lambda>b. char_of (unat b)) (put_chars s) = s" by (simp add: put_chars_def comp_def unat_of_char map_idI)
  ultimately show ?thesis by (simp add: get_chars_def reader_simps) (simp add: put_chars_def reader_simps)
qed

lemma get_meta_put: "get_meta (put_word 2 (1 :: uint16) @ put_word (Suc 0) t @ rest) = Inr (t, rest)"
  by (simp add: get_meta_def reader_simps)

lemma number_entry:
  "put_entry (sre_meta_number t op k) = put_word 1 (if 0xFFFFFFFF < k then SEARCH_TYPE_UINT64 else SEARCH_TYPE_UINT32)
    @ (if 0xFFFFFFFF < k then put_word 8 k else put_word 4 (ucast k :: uint32)) @ put_word 1 op @ put_word 2 (1 :: uint16) @ put_word 1 t"
  by (simp add: put_entry_def sre_meta_number_def put_meta_def put_number_def) (simp add: search_type_defs)

lemma ucast_small: "\<not> 0xFFFFFFFF < (k :: 64 word) \<Longrightarrow> ucast (ucast k :: uint32) = k"
proof -
  assume "\<not> 0xFFFFFFFF < k"
  then have "unat k \<le> unat (0xFFFFFFFF :: 64 word)" by (simp add: word_le_nat_alt not_less)
  then have "unat k < 2 ^ 32" by simp
  then show ?thesis by (intro word_unat_eq_iff [THEN iffD2]) (simp add: unsigned_ucast_eq unsigned_take_bit_eq take_bit_nat_eq_self)
qed

interpretation entry: codec put_entry get_entry "sendable 450" "\<lambda>e. e"
proof (rule codecI)
  fix e rest
  assume "sendable 450 e"
  then show "get_entry (put_entry e @ rest) = Inr (e, rest)"
  proof cases
    case (meta_number t op k)
    then show ?thesis by (auto simp: number_entry get_entry_def reader_simps get_meta_put ucast_small) (simp_all add: search_type_defs)
  qed (simp_all add: put_entry_def get_entry_def sre_bool_def sre_string_def sre_meta_string_def put_meta_def reader_simps
      get_chars_put get_meta_put, simp_all add: search_type_defs)
qed (simp add: get_entry_def get_chars_def get_meta_def local_intros)

lemma put_entry_nonempty: "put_entry e \<noteq> []"
proof -
  have "0 < length (put_entry e)" unfolding put_entry_def by (simp only: length_append length_put_word)
  then show ?thesis by auto
qed



text \<open>
  C18. Two generated requests that are saved to the same bytes are the same request: the server gets
  everything that the queries and the parameters say.
\<close>

theorem search_request_bytes:
  assumes "generateSearchRequest p s = Inr r" "generateSearchRequest p' s' = Inr r'"
    and "put_search_request r = put_search_request r'"
  shows "r = r'"
  using entry.unique_many [of r r'] generated_sendable [OF assms(1)] generated_sendable [OF assms(2)] assms(3)
  by (simp add: put_search_request_def list_all_iff put_entry_nonempty)

theorem search_request_bytes_witness:
  "generateSearchRequest no_params ''a b'' = generateSearchRequest no_params ''(a AND b)''"
proof -
  let ?r = "[sre_bool SRE_AND, sre_string ''a'', sre_string ''b'']"
  have a: "generateSearchRequest no_params ''a b'' = Inr ?r" by code_simp
  have b: "generateSearchRequest no_params ''(a AND b)'' = Inr ?r" by code_simp
  from search_request_bytes [OF a b refl] a b show ?thesis by simp
qed

lemma related_request_sendable:
  assumes "hash_wf h"
  shows "list_all (sendable 450) (generateRelatedRequest h)"
proof -
  have "length (hash_to_string h) = 2 * length h" by (induction h) (simp_all add: hash_to_string_def)
  then show ?thesis using assms by (simp add: generateRelatedRequest_def hash_wf_def sendable.string)
qed

section \<open>Deviations\<close>



end
