(* ===== verification/Node_Id.thy ===== *)
theory Node_Id
  imports Ed2k_Prelude
begin

text \<open>
  Identifiers of Kademlia nodes (\<open>kademlia/node_id.cpp\<close>, the bit operations of \<open>md4.cpp\<close>) and the
  distance of addresses (\<open>broadcast_socket.cpp\<close>). An identifier is the list of its sixteen bytes,
  the most significant one first; the theory shows that the byte loops compute the XOR metric on
  the numbers the identifiers stand for.
\<close>

type_synonym node_id = "uint8 list"

definition kad_total_bits :: nat where
  "kad_total_bits = 16 * 8"

section \<open>Operations\<close>

definition hash_not :: "node_id \<Rightarrow> node_id" where
  "hash_not n = map NOT n"

definition hash_and :: "node_id \<Rightarrow> node_id \<Rightarrow> node_id" where
  "hash_and m n = map2 (AND) m n"

definition hash_or :: "node_id \<Rightarrow> node_id \<Rightarrow> node_id" where
  "hash_or m n = map2 (OR) m n"

definition distance :: "node_id \<Rightarrow> node_id \<Rightarrow> node_id" where
  "distance n1 n2 = map2 (XOR) n1 n2"

fun compare_ref :: "node_id \<Rightarrow> node_id \<Rightarrow> node_id \<Rightarrow> bool" where
  "compare_ref (i # n1) (j # n2) (k # ref) =
    (let lhs = i XOR k; rhs = j XOR k
     in if lhs < rhs then True else if rhs < lhs then False else compare_ref n1 n2 ref)"
| "compare_ref _ _ _ = False"

text \<open>The loop over the bits of the first byte that differs, from the given bit downwards.\<close>

fun top_bit :: "nat \<Rightarrow> uint8 \<Rightarrow> nat" where
  "top_bit 0 t = 0"
| "top_bit (Suc b) t = (if push_bit (Suc b) 1 \<le> t then Suc b else top_bit b t)"

text \<open>\<open>byte\<close> of the code is the number of bytes that follow.\<close>

fun distance_exp :: "node_id \<Rightarrow> node_id \<Rightarrow> nat" where
  "distance_exp (i # n1) (j # n2) =
    (let t = i XOR j in if t = 0 then distance_exp n1 n2 else length n1 * 8 + top_bit 7 t)"
| "distance_exp _ _ = 0"

function shifts :: "uint8 \<Rightarrow> nat" where
  "shifts a = (if 0 < a then Suc (shifts (drop_bit 1 a)) else 0)"
  by pat_completeness auto
termination
proof (relation "measure unat")
  fix a :: uint8
  assume "0 < a"
  then have "0 < unat a" by (simp add: word_less_nat_alt)
  then have "unat a div 2 < unat a" by simp
  moreover have "unat (drop_bit 1 a) = unat a div 2" 
    using unsigned_less [of a, where ?'a = nat] by (simp only: unsigned_drop_bit_eq) (simp add: drop_bit_eq_div take_bit_nat_eq_self)
  ultimately show "(drop_bit 1 a, a) \<in> measure unat" by (simp only: in_measure)
qed simp

declare shifts.simps [simp del]

fun common_bits :: "nat \<Rightarrow> uint8 list \<Rightarrow> uint8 list \<Rightarrow> nat" where
  "common_bits i (x # b1) (y # b2) =
    (let a = x XOR y in if a = 0 then common_bits (i + 1) b1 b2 else i * 8 + 8 - shifts a)"
| "common_bits i _ _ = i * 8"

definition cidr_distance :: "uint8 list \<Rightarrow> uint8 list \<Rightarrow> nat" where
  "cidr_distance a1 a2 = 4 * 8 - common_bits 0 a1 a2"

section \<open>Identifiers as numbers\<close>

primrec hash_val :: "node_id \<Rightarrow> nat" where
  "hash_val [] = 0"
| "hash_val (b # bs) = unat b * 256 ^ length bs + hash_val bs"

lemma unat_byte: "unat (b :: uint8) < 256"
  using unsigned_less [of b] by simp

lemma hash_val_less: "hash_val bs < 256 ^ length bs"
proof (induction bs)
  case (Cons b bs)
  have "unat b + 1 \<le> 256" using unat_byte [of b] by simp
  then have "(unat b + 1) * 256 ^ length bs \<le> 256 * 256 ^ length bs" by (rule mult_le_mono1)
  then have "unat b * 256 ^ length bs + 256 ^ length bs \<le> 256 ^ length (b # bs)" by (simp only: distrib_right mult_1 length_Cons power_Suc)
  then show ?case using Cons by (simp only: hash_val.simps)
qed simp

lemma lex_less:
  fixes a b u v m :: nat
  assumes "u < m" "v < m"
  shows "a * m + u < b * m + v \<longleftrightarrow> a < b \<or> a = b \<and> u < v"
proof (cases a b rule: linorder_cases)
  case less
  then have "Suc a * m \<le> b * m" by (intro mult_le_mono1) simp
  then show ?thesis using assms less by simp
next
  case greater
  then have "Suc b * m \<le> a * m" by (intro mult_le_mono1) simp
  then show ?thesis using assms greater by simp
qed simp

lemma length_distance: "length m = length n \<Longrightarrow> length (distance m n) = length n"
  by (simp add: distance_def)

lemma distance_Cons: "distance (i # m) (j # n) = (i XOR j) # distance m n"
  by (simp add: distance_def)

lemma compare_ref_val:
  "length n1 = length ref \<Longrightarrow> length n2 = length ref \<Longrightarrow> compare_ref n1 n2 ref \<longleftrightarrow> hash_val (distance n1 ref) < hash_val (distance n2 ref)"
proof (induction n1 n2 ref rule: compare_ref.induct)
  case (1 i n1 j n2 k ref)
  have "hash_val (distance n1 ref) < 256 ^ length ref" "hash_val (distance n2 ref) < 256 ^ length ref"
    using 1(2,3) hash_val_less [of "distance n1 ref"] hash_val_less [of "distance n2 ref"] by (simp_all add: length_distance)
  note lex = lex_less [OF this, of "unat (i XOR k)" "unat (j XOR k)"]
  show ?case
  proof (cases "i XOR k" "j XOR k" rule: linorder_cases)
    case equal
    then show ?thesis using 1 lex by (simp add: distance_Cons length_distance Let_def)
  qed (use 1(2,3) lex in \<open>simp_all add: distance_Cons length_distance Let_def word_less_nat_alt word_unat_eq_iff\<close>)
qed simp_all

lemma top_bit_val: "0 < t \<Longrightarrow> b \<le> 7 \<Longrightarrow> unat t < 2 ^ (b + 1) \<Longrightarrow> 2 ^ top_bit b t \<le> unat t \<and> unat t < 2 ^ (top_bit b t + 1)"
proof (induction b)
  case 0
  then show ?case by (simp add: word_less_nat_alt)
next
  case (Suc b)
  have "(2::nat) ^ Suc b < 2 ^ 8" using Suc.prems(2) by (intro power_strict_increasing) simp_all
  then have "unat (push_bit (Suc b) 1 :: uint8) = 2 ^ Suc b"
    by (subst unsigned_push_bit_eq) (simp add: push_bit_eq_mult take_bit_nat_eq_self)
  then show ?case using Suc by (simp add: word_le_nat_alt not_le)
qed

lemma distance_exp_val:
  "length m = length n \<Longrightarrow> m \<noteq> n \<Longrightarrow> 2 ^ distance_exp m n \<le> hash_val (distance m n) \<and> hash_val (distance m n) < 2 ^ (distance_exp m n + 1)"
proof (induction m n rule: distance_exp.induct)
  case (1 i m j n)
  show ?case
  proof (cases "i XOR j = 0")
    case True
    then have "i = j" by (metis xor.right_neutral xor.assoc xor_self_eq xor.commute)
    then show ?thesis using 1 by (simp add: distance_Cons Let_def)
  next
    case False
    let ?t = "i XOR j" and ?e = "length m * 8"
    have t: "2 ^ top_bit 7 ?t \<le> unat ?t" "unat ?t + 1 \<le> 2 ^ (top_bit 7 ?t + 1)"
      using top_bit_val [of ?t 7] False unat_byte [of ?t] by (simp_all add: word_gt_0)
    have p: "(256::nat) ^ length m = 2 ^ ?e" using power_mult [of "2::nat" 8 "length m"] by (simp add: mult.commute)
    have v: "hash_val (distance m n) < 2 ^ ?e" using hash_val_less [of "distance m n"] 1(2) p by (simp add: length_distance)
    have lo: "2 ^ (?e + top_bit 7 ?t) \<le> unat ?t * 2 ^ ?e"
      using mult_le_mono1 [OF t(1), of "2 ^ ?e"] by (simp only: power_add mult.commute)
    have hi: "unat ?t * 2 ^ ?e + 2 ^ ?e \<le> 2 ^ (?e + top_bit 7 ?t + 1)"
      using mult_le_mono1 [OF t(2), of "2 ^ ?e"] by (simp only: distrib_right mult_1 power_add mult.commute mult.left_commute)
    have "distance_exp (i # m) (j # n) = ?e + top_bit 7 ?t" using False by (simp add: Let_def)
    moreover have "hash_val (distance (i # m) (j # n)) = unat ?t * 2 ^ ?e + hash_val (distance m n)"
      using 1(2) p by (simp add: distance_Cons length_distance)
    ultimately show ?thesis using lo hi v by (simp only:) linarith
  qed
qed auto

end
