(* ===== verification/Routing.thy ===== *)
theory Routing
  imports Node_Id
begin

text \<open>
  The routing table of the Kademlia node (\<open>kademlia/routing_table.cpp\<close>, \<open>kademlia/node_entry.hpp\<close>):
  buckets of live nodes and replacements, from the bucket furthest away to the one closest to the
  own identifier. Addresses are IPv4 addresses, as \<open>m_ips\<close> requires; times are seconds since
  \<open>min_time()\<close> and an argument of the operations that ask the clock. The logging variants of the
  code are left out.
\<close>

section \<open>Nodes\<close>

record node_entry =
  addr :: "uint8 list"
  port :: uint16
  timeout_count :: uint16
  entry_id :: node_id

type_synonym endpoint = "uint8 list \<times> uint16"

definition node_entry_new :: "node_id \<Rightarrow> endpoint \<Rightarrow> bool \<Rightarrow> node_entry" where
  "node_entry_new nid ep p = \<lparr>addr = fst ep, port = snd ep, timeout_count = (if p then 0 else 0xffff), entry_id = nid\<rparr>"

definition pinged :: "node_entry \<Rightarrow> bool" where
  "pinged e \<longleftrightarrow> timeout_count e \<noteq> 0xffff"

definition set_pinged :: "node_entry \<Rightarrow> node_entry" where
  "set_pinged e = (if timeout_count e = 0xffff then e\<lparr>timeout_count := 0\<rparr> else e)"

definition timed_out :: "node_entry \<Rightarrow> node_entry" where
  "timed_out e = (if pinged e then e\<lparr>timeout_count := timeout_count e + 1\<rparr> else e)"

definition fail_count :: "node_entry \<Rightarrow> int" where
  "fail_count e = (if pinged e then uint (timeout_count e) else 0)"

definition entry_ep :: "node_entry \<Rightarrow> endpoint" where
  "entry_ep e = (addr e, port e)"

definition confirmed :: "node_entry \<Rightarrow> bool" where
  "confirmed e \<longleftrightarrow> timeout_count e = 0"

definition compare_ip_cidr :: "node_entry \<Rightarrow> node_entry \<Rightarrow> bool" where
  "compare_ip_cidr lhs rhs \<longleftrightarrow> cidr_distance (addr lhs) (addr rhs) \<le> 8"

section \<open>The table\<close>

record routing_table_node =
  replacements :: "node_entry list"
  live_nodes :: "node_entry list"
  last_active :: int

text \<open>
  The members of \<open>dht_settings\<close> that the table reads are fields; \<open>m_ips\<close>, a multiset, is the list of
  its elements.
\<close>

record routing_table =
  m_bucket_size :: nat
  restrict_routing_ips :: bool
  max_fail_count :: int
  m_buckets :: "routing_table_node list"
  m_id :: node_id
  m_last_bootstrap :: int
  m_last_refresh :: int
  m_last_self_refresh :: int
  m_router_nodes :: "endpoint list"
  m_ips :: "uint8 list list"

definition routing_table_new :: "node_id \<Rightarrow> nat \<Rightarrow> bool \<Rightarrow> int \<Rightarrow> routing_table" where
  "routing_table_new nid bucket_size restrict_ips max_fails =
    \<lparr>m_bucket_size = bucket_size, restrict_routing_ips = restrict_ips, max_fail_count = max_fails, m_buckets = [], m_id = nid,
     m_last_bootstrap = 0, m_last_refresh = 0, m_last_self_refresh = 0, m_router_nodes = [], m_ips = []\<rparr>"

definition ips_insert :: "uint8 list \<Rightarrow> routing_table \<Rightarrow> routing_table" where
  "ips_insert a t = t\<lparr>m_ips := a # m_ips t\<rparr>"

text \<open>\<open>std::multiset::erase(key)\<close> removes every copy of the key.\<close>

definition ips_erase :: "uint8 list \<Rightarrow> routing_table \<Rightarrow> routing_table" where
  "ips_erase a t = t\<lparr>m_ips := filter (\<lambda>x. x \<noteq> a) (m_ips t)\<rparr>"

definition set_bucket :: "nat \<Rightarrow> routing_table_node \<Rightarrow> routing_table \<Rightarrow> routing_table" where
  "set_bucket i b t = t\<lparr>m_buckets := (m_buckets t)[i := b]\<rparr>"

definition erase_at :: "nat \<Rightarrow> 'a list \<Rightarrow> 'a list" where
  "erase_at j xs = take j xs @ drop (Suc j) xs"

text \<open>\<open>std::find_if\<close> as a position, the length when nothing is found; \<open>std::max_element\<close>, the first one.\<close>

definition find_pos :: "('a \<Rightarrow> bool) \<Rightarrow> 'a list \<Rightarrow> nat" where
  "find_pos P xs = length (takeWhile (\<lambda>x. \<not> P x) xs)"

definition max_pos :: "('a \<Rightarrow> int) \<Rightarrow> 'a list \<Rightarrow> nat" where
  "max_pos f xs = find_pos (\<lambda>x. list_all (\<lambda>y. f y \<le> f x) xs) xs"

definition table_size :: "routing_table \<Rightarrow> nat \<times> nat" where
  "table_size t = (sum_list (map (\<lambda>b. length (live_nodes b)) (m_buckets t)), sum_list (map (\<lambda>b. length (replacements b)) (m_buckets t)))"

definition replacement_cache :: "routing_table \<Rightarrow> node_entry list" where
  "replacement_cache t = concat (map replacements (m_buckets t))"

text \<open>A bucket behind the last one is reached by advancing an iterator past its end: \<open>None\<close>.\<close>

definition bucket_size_at :: "nat \<Rightarrow> routing_table \<Rightarrow> nat option" where
  "bucket_size_at bucket t =
    (let num_buckets = length (m_buckets t) in
     if num_buckets = 0 then Some 0
     else let bucket = (if bucket < num_buckets then num_buckets - 1 else bucket)
          in if bucket < num_buckets then Some (length (live_nodes (m_buckets t ! bucket))) else None)"

definition find_bucket :: "node_id \<Rightarrow> routing_table \<Rightarrow> nat \<times> routing_table" where
  "find_bucket nid t =
    (let t = (if m_buckets t = [] then t\<lparr>m_buckets := [\<lparr>replacements = [], live_nodes = [], last_active = 160\<rparr>]\<rparr> else t)
     in (min (kad_total_bits - 1 - distance_exp (m_id t) nid) (length (m_buckets t) - 1), t))"

definition touch_bucket :: "int \<Rightarrow> node_id \<Rightarrow> routing_table \<Rightarrow> routing_table" where
  "touch_bucket now target t = (let (i, t) = find_bucket target t in set_bucket i ((m_buckets t ! i)\<lparr>last_active := now\<rparr>) t)"

section \<open>Finding a node by its endpoint\<close>

text \<open>The place of a node: its bucket, whether it is a replacement, and its position.\<close>

type_synonym place = "nat \<times> bool \<times> nat"

fun find_node_from :: "endpoint \<Rightarrow> nat \<Rightarrow> routing_table_node list \<Rightarrow> place option" where
  "find_node_from ep i [] = None"
| "find_node_from ep i (b # bs) =
    (let j = find_pos (\<lambda>e. entry_ep e = ep) (replacements b) in
     if j < length (replacements b) then Some (i, True, j)
     else let j = find_pos (\<lambda>e. entry_ep e = ep) (live_nodes b) in
     if j < length (live_nodes b) then Some (i, False, j)
     else find_node_from ep (i + 1) bs)"

definition find_node_ep :: "endpoint \<Rightarrow> routing_table \<Rightarrow> place option" where
  "find_node_ep ep t = find_node_from ep 0 (m_buckets t)"

definition node_at :: "place \<Rightarrow> routing_table \<Rightarrow> node_entry" where
  "node_at = (\<lambda>(i, r, j) t. if r then replacements (m_buckets t ! i) ! j else live_nodes (m_buckets t ! i) ! j)"

definition set_node_at :: "place \<Rightarrow> node_entry \<Rightarrow> routing_table \<Rightarrow> routing_table" where
  "set_node_at = (\<lambda>(i, r, j) e t. let b = m_buckets t ! i in
    set_bucket i (if r then b\<lparr>replacements := (replacements b)[j := e]\<rparr> else b\<lparr>live_nodes := (live_nodes b)[j := e]\<rparr>) t)"

definition remove_node :: "place \<Rightarrow> routing_table \<Rightarrow> routing_table" where
  "remove_node = (\<lambda>(i, r, j) t. let b = m_buckets t ! i; a = addr (node_at (i, r, j) t) in
    ips_erase a (set_bucket i (if r then b\<lparr>replacements := erase_at j (replacements b)\<rparr> else b\<lparr>live_nodes := erase_at j (live_nodes b)\<rparr>) t))"

section \<open>Adding a node\<close>

definition need_bootstrap :: "int \<Rightarrow> routing_table \<Rightarrow> bool \<times> routing_table" where
  "need_bootstrap now t =
    (if now - m_last_bootstrap t < 30 then (False, t)
     else if list_ex (\<lambda>b. list_ex confirmed (live_nodes b)) (m_buckets t) then (False, t)
     else (True, t\<lparr>m_last_bootstrap := now\<rparr>))"

text \<open>What is done when the address is in the table already; the flag tells whether \<open>add_node\<close> goes on.\<close>

definition known_ip :: "node_entry \<Rightarrow> routing_table \<Rightarrow> bool \<times> routing_table" where
  "known_ip e t =
    (if addr e \<in> set (m_ips t)
     then (case find_node_ep (entry_ep e) t of
         None \<Rightarrow> (\<not> restrict_routing_ips t, t)
       | Some p \<Rightarrow>
           if \<not> pinged e then (\<not> restrict_routing_ips t, t)
           else if entry_id (node_at p t) = entry_id e then (False, set_node_at p ((node_at p t)\<lparr>timeout_count := 0\<rparr>) t)
           else (True, remove_node p t))
     else (True, t))"

text \<open>\<open>b->erase(j); b->push_back(e)\<close> with the bookkeeping of \<open>m_ips\<close>.\<close>

definition replace_live :: "nat \<Rightarrow> nat \<Rightarrow> node_entry \<Rightarrow> routing_table \<Rightarrow> routing_table" where
  "replace_live i j e t = (let b = m_buckets t ! i in
    ips_insert (addr e) (set_bucket i (b\<lparr>live_nodes := erase_at j (live_nodes b) @ [e]\<rparr>) (ips_erase (addr (live_nodes b ! j)) t)))"

definition add_replacement :: "nat \<Rightarrow> node_entry \<Rightarrow> routing_table \<Rightarrow> routing_table" where
  "add_replacement i e t =
    (let b = m_buckets t ! i; rb = replacements b; j = find_pos (\<lambda>x. entry_id x = entry_id e) rb in
     if j < length rb
     then if entry_ep (rb ! j) = entry_ep e then set_bucket i (b\<lparr>replacements := rb[j := set_pinged (rb ! j)]\<rparr>) t else t
     else let (rb, t) =
            (if m_bucket_size t \<le> length rb
             then let j = find_pos (\<lambda>x. \<not> pinged x) rb; j = (if j = length rb then 0 else j)
                  in (erase_at j rb, ips_erase (addr (rb ! j)) t)
             else (rb, t))
          in ips_insert (addr e) (set_bucket i (b\<lparr>replacements := rb @ [e]\<rparr>) t))"

text \<open>The loops of the split. \<open>stays\<close> is the test of both: the node stays in the old bucket.\<close>

definition stays :: "node_id \<Rightarrow> nat \<Rightarrow> node_entry \<Rightarrow> bool" where
  "stays nid bucket_index x \<longleftrightarrow> kad_total_bits - 1 - bucket_index \<le> distance_exp nid (entry_id x)"

fun split_replacements :: "(node_entry \<Rightarrow> bool) \<Rightarrow> nat \<Rightarrow> node_entry list
    \<Rightarrow> node_entry list \<times> node_entry list \<times> node_entry list \<times> node_entry list
    \<Rightarrow> node_entry list \<times> node_entry list \<times> node_entry list \<times> node_entry list" where
  "split_replacements st k [] acc = acc"
| "split_replacements st k (x # xs) (b, rb, nb, nrb) =
    split_replacements st k xs
      (if st x then if k \<le> length b then (b, rb @ [x], nb, nrb) else (b @ [x], rb, nb, nrb)
       else if length nb < k then (b, rb, nb @ [x], nrb) else (b, rb, nb, nrb @ [x]))"

definition split_bucket :: "nat \<Rightarrow> node_entry \<Rightarrow> routing_table \<Rightarrow> routing_table" where
  "split_bucket i e t =
    (let k = m_bucket_size t;
         old = m_buckets t ! i;
         st = stays (m_id t) i;
         (b, rb, nb, nrb) = split_replacements st k (replacements old)
           (filter st (live_nodes old), [], filter (\<lambda>x. \<not> st x) (live_nodes old), []);
         (added, b, rb, nb, nrb) =
           (if st e
            then if length b < k then (True, b @ [e], rb, nb, nrb)
                 else if length rb < k then (True, b, rb @ [e], nb, nrb) else (False, b, rb, nb, nrb)
            else if length nb < k then (True, b, rb, nb @ [e], nrb)
                 else if length nrb < k then (True, b, rb, nb, nrb @ [e]) else (False, b, rb, nb, nrb));
         t' = t\<lparr>m_buckets := (m_buckets t)[i := old\<lparr>live_nodes := b, replacements := rb\<rparr>]
           @ [\<lparr>replacements = nrb, live_nodes = nb, last_active = int kad_total_bits - (int (length (m_buckets t)) + 1)\<rparr>]\<rparr>
     in if added then ips_insert (addr e) t' else t')"

definition full_bucket :: "nat \<Rightarrow> node_entry \<Rightarrow> routing_table \<Rightarrow> routing_table" where
  "full_bucket i e t =
    (let b = live_nodes (m_buckets t ! i);
         alive = pinged e \<and> fail_count e = 0;
         can_split = alive \<and> i + 1 = length (m_buckets t) \<and> length (m_buckets t) < kad_total_bits;
         j = find_pos (\<lambda>x. \<not> pinged x) b;
         m = max_pos fail_count b
     in if alive \<and> j < length b then replace_live i j e t
        else if alive \<and> m < length b \<and> 0 < fail_count (b ! m) then replace_live i m e t
        else if \<not> can_split then add_replacement i e t
        else split_bucket i e t)"

definition insert_node :: "node_entry \<Rightarrow> routing_table \<Rightarrow> routing_table" where
  "insert_node e t =
    (let (i, t) = find_bucket (entry_id e) t;
         bk = m_buckets t ! i; b = live_nodes bk; rb = replacements bk;
         j = find_pos (\<lambda>x. entry_id x = entry_id e) b
     in if j < length b
        then if addr (b ! j) \<noteq> addr e \<or> port (b ! j) \<noteq> port e then t
             else set_bucket i (bk\<lparr>live_nodes := b[j := (b ! j)\<lparr>timeout_count := 0\<rparr>]\<rparr>) t
        else if list_ex (\<lambda>x. entry_id x = entry_id e) rb then t
        else if restrict_routing_ips t \<and> (list_ex (\<lambda>x. compare_ip_cidr x e) b \<or> list_ex (\<lambda>x. compare_ip_cidr x e) rb) then t
        else if length b < m_bucket_size t then ips_insert (addr e) (set_bucket i (bk\<lparr>live_nodes := b @ [e]\<rparr>) t)
        else full_bucket i e t)"

definition add_node :: "int \<Rightarrow> node_entry \<Rightarrow> routing_table \<Rightarrow> bool \<times> routing_table" where
  "add_node now e t =
    (if entry_ep e \<in> set (m_router_nodes t) then (False, t)
     else let (ret, t) = need_bootstrap now t in
       if entry_id e = m_id t then (ret, t)
       else let (go_on, t) = known_ip e t in (ret, if go_on then insert_node e t else t))"

definition heard_about :: "int \<Rightarrow> node_id \<Rightarrow> endpoint \<Rightarrow> routing_table \<Rightarrow> routing_table" where
  "heard_about now nid ep t = snd (add_node now (node_entry_new nid ep False) t)"

definition node_seen :: "int \<Rightarrow> node_id \<Rightarrow> endpoint \<Rightarrow> routing_table \<Rightarrow> bool \<times> routing_table" where
  "node_seen now nid ep t = add_node now (node_entry_new nid ep True) t"

definition add_router_node :: "endpoint \<Rightarrow> routing_table \<Rightarrow> routing_table" where
  "add_router_node router t = t\<lparr>m_router_nodes := List.insert router (m_router_nodes t)\<rparr>"

section \<open>Failing nodes\<close>

definition node_failed :: "node_id \<Rightarrow> endpoint \<Rightarrow> routing_table \<Rightarrow> routing_table" where
  "node_failed nid ep t =
    (if nid = m_id t then t
     else let (i, t) = find_bucket nid t;
              bk = m_buckets t ! i; b = live_nodes bk; rb = replacements bk;
              j = find_pos (\<lambda>x. entry_id x = nid) b
          in if j = length b then t
             else if entry_ep (b ! j) \<noteq> ep then t
             else if rb = []
             then let x = timed_out (b ! j)
                  in if max_fail_count t \<le> fail_count x \<or> \<not> pinged x
                     then ips_erase (addr x) (set_bucket i (bk\<lparr>live_nodes := erase_at j b\<rparr>) t)
                     else set_bucket i (bk\<lparr>live_nodes := b[j := x]\<rparr>) t
             else let r = find_pos pinged rb; r = (if r = length rb then 0 else r)
                  in ips_erase (addr (b ! j))
                       (set_bucket i (bk\<lparr>live_nodes := erase_at j b @ [rb ! r], replacements := erase_at r rb\<rparr>) t))"

section \<open>The nodes nearest to an identifier\<close>

definition copy_if_n :: "('a \<Rightarrow> bool) \<Rightarrow> nat \<Rightarrow> 'a list \<Rightarrow> 'a list" where
  "copy_if_n P n xs = take n (filter P xs)"

text \<open>The loop over closer buckets looks at the first \<open>to_copy\<close> nodes of a bucket only.\<close>

fun closer_buckets :: "bool \<Rightarrow> nat \<Rightarrow> routing_table_node list \<Rightarrow> node_entry list \<Rightarrow> node_entry list" where
  "closer_buckets include_failed cnt [] l = l"
| "closer_buckets include_failed cnt (b # bs) l =
    (if length l < cnt
     then let first = take (min (cnt - length l) (length (live_nodes b))) (live_nodes b)
          in closer_buckets include_failed cnt bs (l @ (if include_failed then first else filter confirmed first))
     else l)"

fun further_buckets :: "bool \<Rightarrow> nat \<Rightarrow> routing_table_node list \<Rightarrow> node_entry list \<Rightarrow> node_entry list" where
  "further_buckets include_failed cnt [] l = l"
| "further_buckets include_failed cnt (b # bs) l =
    (let to_copy = min (cnt - length l) (length (live_nodes b));
         l = l @ (if include_failed then take to_copy (live_nodes b) else copy_if_n confirmed to_copy (live_nodes b))
     in if length l < cnt then further_buckets include_failed cnt bs l else l)"

definition find_node :: "node_id \<Rightarrow> bool \<Rightarrow> nat \<Rightarrow> routing_table \<Rightarrow> node_entry list \<times> routing_table" where
  "find_node target include_failed cnt t =
    (let cnt = (if cnt = 0 then m_bucket_size t else cnt);
         (i, t) = find_bucket target t;
         b = live_nodes (m_buckets t ! i);
         l = (if include_failed then take (min cnt (length b)) b else copy_if_n confirmed (min cnt (length b)) b)
     in if cnt \<le> length l then (l, t)
        else let l = closer_buckets include_failed cnt (drop (i + 1) (m_buckets t)) l
             in if cnt \<le> length l then (l, t)
                else (further_buckets include_failed cnt (rev (take i (m_buckets t))) l, t))"

section \<open>Refreshing\<close>

definition refresh_key :: "routing_table_node \<Rightarrow> int" where
  "refresh_key b = last_active b + int (length (live_nodes b)) * 5"

definition refresh_bucket :: "routing_table \<Rightarrow> nat" where
  "refresh_bucket t = find_pos (\<lambda>b. list_all (\<lambda>b'. refresh_key b \<le> refresh_key b') (m_buckets t)) (m_buckets t)"

definition refresh_mask :: "nat \<Rightarrow> node_id" where
  "refresh_mask num_bits = fold (\<lambda>i mask. mask[i div 8 := mask ! (i div 8) OR drop_bit (i mod 8) 0x80]) [0..<num_bits] (replicate 16 0)"

text \<open>The target for the random identifier \<open>rnd\<close>.\<close>

definition refresh_target :: "node_id \<Rightarrow> nat \<Rightarrow> node_id \<Rightarrow> node_id" where
  "refresh_target self num_bits rnd =
    (let mask = refresh_mask num_bits;
         root = hash_and self mask;
         target = hash_or (hash_and rnd (hash_not mask)) root;
         k = (num_bits - 1) div 8;
         m = drop_bit ((num_bits - 1) mod 8) 0x80;
         target = target[k := target ! k AND NOT m]
     in target[k := target ! k OR (NOT (self ! k) AND m)])"

definition need_refresh :: "int \<Rightarrow> node_id \<Rightarrow> routing_table \<Rightarrow> node_id option \<times> routing_table" where
  "need_refresh now rnd t =
    (if 15 * 60 < now - m_last_self_refresh t then (Some (m_id t), t\<lparr>m_last_self_refresh := now\<rparr>)
     else if m_buckets t = [] then (None, t)
     else let i = refresh_bucket t in
       if now - last_active (m_buckets t ! i) < 15 * 60 then (None, t)
       else if now - m_last_refresh t < 45 then (None, t)
       else (Some (refresh_target (m_id t) (i + 1) rnd), t\<lparr>m_last_refresh := now\<rparr>))"

end
