(* ===== verification/Routing_Props.thy ===== *)
theory Routing_Props
  imports Routing
begin

text \<open>
  The invariant of the routing table: what a bucket holds as a multiset of identifiers with their
  addresses, how every operation changes it, and the states that are reachable by the operations.
\<close>

section \<open>Positions\<close>

lemma find_pos_le: "find_pos P xs \<le> length xs"
  by (simp add: find_pos_def length_takeWhile_le)

lemma find_pos_less: "find_pos P xs < length xs \<Longrightarrow> P (xs ! find_pos P xs)"
  unfolding find_pos_def using nth_length_takeWhile by fastforce

lemma find_pos_none: "\<not> find_pos P xs < length xs \<Longrightarrow> x \<in> set xs \<Longrightarrow> \<not> P x"
  unfolding find_pos_def by (induction xs) (auto split: if_splits)

lemma mset_erase_at: "j < length xs \<Longrightarrow> mset xs = add_mset (xs ! j) (mset (erase_at j xs))"
  by (subst id_take_nth_drop [of j xs]) (simp_all add: erase_at_def)

lemma length_erase_at: "j < length xs \<Longrightarrow> length (erase_at j xs) = length xs - 1"
  by (simp add: erase_at_def)

lemma erase_at_le: "length xs \<le> k \<Longrightarrow> length (erase_at j xs) \<le> k"
  by (simp add: erase_at_def)

lemma sum_list_update: "i < length xs \<Longrightarrow> sum_list (map f (xs[i := y])) + f (xs ! i) = sum_list (map f xs) + (f y :: 'a multiset)"
proof (induction xs arbitrary: i)
  case (Cons x xs)
  then show ?case by (cases i) (simp_all add: ac_simps)
qed simp

section \<open>What a bucket holds\<close>

type_synonym key = "node_id \<times> uint8 list"

definition node_key :: "node_entry \<Rightarrow> key" where
  "node_key x = (entry_id x, addr x)"

definition keys :: "node_entry list \<Rightarrow> key multiset" where
  "keys xs = image_mset node_key (mset xs)"

definition content :: "routing_table_node \<Rightarrow> key multiset" where
  "content b = keys (live_nodes b) + keys (replacements b)"

named_theorems keys_simps \<open>the keys of changed lists of nodes\<close>

lemma keys_base [keys_simps]: "keys [] = {#}" "keys (x # xs) = add_mset (node_key x) (keys xs)" "keys (xs @ ys) = keys xs + keys ys"
  by (simp_all add: keys_def)

lemma keys_erase_at: "j < length xs \<Longrightarrow> keys xs = add_mset (node_key (xs ! j)) (keys (erase_at j xs))"
  by (simp add: keys_def mset_erase_at)

lemma keys_update: "j < length xs \<Longrightarrow> node_key y = node_key (xs ! j) \<Longrightarrow> keys (xs[j := y]) = keys xs"
  by (simp add: keys_def mset_update image_mset_Diff)

lemma keys_in: "x \<in> set xs \<Longrightarrow> node_key x \<in># keys xs"
  by (simp add: keys_def)

lemma node_key_simps [simp]: "node_key (x\<lparr>timeout_count := c\<rparr>) = node_key x" "node_key (set_pinged x) = node_key x" "node_key (timed_out x) = node_key x"
  by (simp_all add: node_key_def set_pinged_def timed_out_def)

lemma addr_timed_out [simp]: "addr (timed_out x) = addr x"
  by (simp add: timed_out_def)

definition bucket_index :: "routing_table \<Rightarrow> node_id \<Rightarrow> nat" where
  "bucket_index t nid = min (kad_total_bits - 1 - distance_exp (m_id t) nid) (length (m_buckets t) - 1)"

definition far_apart :: "key \<Rightarrow> key \<Rightarrow> bool" where
  "far_apart x y \<longleftrightarrow> fst x \<noteq> fst y \<longrightarrow> 8 < cidr_distance (snd x) (snd y)"

text \<open>Keys that may be together in bucket \<open>i\<close>.\<close>

definition content_ok :: "routing_table \<Rightarrow> nat \<Rightarrow> key multiset \<Rightarrow> bool" where
  "content_ok t i c \<longleftrightarrow> (\<forall>x \<in># c. length (fst x) = 16 \<and> fst x \<noteq> m_id t \<and> bucket_index t (fst x) = i)
    \<and> (\<forall>k. count (image_mset fst c) k \<le> 1)
    \<and> (restrict_routing_ips t \<longrightarrow> (\<forall>x \<in># c. \<forall>y \<in># c. far_apart x y))"

definition bucket_ok :: "routing_table \<Rightarrow> nat \<Rightarrow> routing_table_node \<Rightarrow> bool" where
  "bucket_ok t i b \<longleftrightarrow> length (live_nodes b) \<le> m_bucket_size t \<and> length (replacements b) \<le> m_bucket_size t \<and> content_ok t i (content b)"

definition table_ok :: "routing_table \<Rightarrow> bool" where
  "table_ok t \<longleftrightarrow> length (m_id t) = 16 \<and> 0 < m_bucket_size t \<and> length (m_buckets t) \<le> kad_total_bits
    \<and> (\<forall>i < length (m_buckets t). bucket_ok t i (m_buckets t ! i))"

definition table_content :: "routing_table \<Rightarrow> key multiset" where
  "table_content t = sum_list (map content (m_buckets t))"

definition ips_ok :: "routing_table \<Rightarrow> bool" where
  "ips_ok t \<longleftrightarrow> restrict_routing_ips t \<longrightarrow>
    (\<forall>a. count (image_mset snd (table_content t)) a \<le> 1) \<and> set (m_ips t) = set_mset (image_mset snd (table_content t))"

lemma common_bits_commute: "common_bits i a b = common_bits i b a"
  by (induction i a b rule: common_bits.induct) (simp_all add: Let_def xor.commute)

lemma far_apart_commute: "far_apart x y \<longleftrightarrow> far_apart y x"
  unfolding far_apart_def cidr_distance_def by (subst common_bits_commute) auto

lemma far_apart_entries: "\<not> compare_ip_cidr x y \<Longrightarrow> far_apart (node_key x) (node_key y)"
  by (simp add: far_apart_def compare_ip_cidr_def node_key_def)

lemma content_ok_mono:
  assumes "content_ok t i c" "c' \<subseteq># c"
  shows "content_ok t i c'"
proof -
  have "count (image_mset fst c') k \<le> count (image_mset fst c) k" for k
    using image_mset_subseteq_mono [OF assms(2)] by (rule mset_subset_eq_count)
  then have "count (image_mset fst c') k \<le> 1" for k using assms(1) le_trans unfolding content_ok_def by blast
  moreover have "x \<in># c" if "x \<in># c'" for x using assms(2) that by (rule mset_subset_eqD)
  ultimately show ?thesis using assms(1) unfolding content_ok_def by blast
qed

lemma content_ok_add:
  assumes "content_ok t i c" "length (fst n) = 16" "fst n \<noteq> m_id t" "bucket_index t (fst n) = i"
    and "\<forall>x \<in># c. fst x \<noteq> fst n" "restrict_routing_ips t \<Longrightarrow> \<forall>x \<in># c. far_apart x n"
  shows "content_ok t i (add_mset n c)"
proof -
  have "count (image_mset fst c) (fst n) = 0" using assms(5) by (auto simp: not_in_iff [symmetric])
  then have "count (image_mset fst (add_mset n c)) k \<le> 1" for k using assms(1) by (cases "fst n = k") (simp_all add: content_ok_def)
  moreover have "far_apart n n" by (simp add: far_apart_def)
  ultimately show ?thesis using assms far_apart_commute unfolding content_ok_def by auto
qed

section \<open>Changing a bucket\<close>

lemma table_frame [simp]:
  "m_bucket_size (set_bucket i b t) = m_bucket_size t" "m_bucket_size (ips_insert a t) = m_bucket_size t" "m_bucket_size (ips_erase a t) = m_bucket_size t"
  "restrict_routing_ips (set_bucket i b t) = restrict_routing_ips t" "restrict_routing_ips (ips_insert a t) = restrict_routing_ips t"
  "restrict_routing_ips (ips_erase a t) = restrict_routing_ips t"
  "m_id (set_bucket i b t) = m_id t" "m_id (ips_insert a t) = m_id t" "m_id (ips_erase a t) = m_id t"
  "m_buckets (set_bucket i b t) = (m_buckets t)[i := b]" "m_buckets (ips_insert a t) = m_buckets t" "m_buckets (ips_erase a t) = m_buckets t"
  "m_ips (set_bucket i b t) = m_ips t" "m_ips (ips_insert a t) = a # m_ips t" "m_ips (ips_erase a t) = filter (\<lambda>x. x \<noteq> a) (m_ips t)"
  "max_fail_count (set_bucket i b t) = max_fail_count t"
  by (simp_all add: set_bucket_def ips_insert_def ips_erase_def)

text \<open>The invariants read the table through these fields only.\<close>

lemma content_ok_cong:
  "m_id t' = m_id t \<Longrightarrow> length (m_buckets t') = length (m_buckets t) \<Longrightarrow> restrict_routing_ips t' = restrict_routing_ips t
    \<Longrightarrow> content_ok t' i c = content_ok t i c"
  by (simp add: content_ok_def bucket_index_def)

lemma content_ok_frame [simp]:
  "content_ok (set_bucket k b t) i c = content_ok t i c" "content_ok (ips_insert a t) i c = content_ok t i c" "content_ok (ips_erase a t) i c = content_ok t i c"
  by (rule content_ok_cong; simp)+

lemma bucket_ok_frame [simp]:
  "bucket_ok (set_bucket k b t) i c = bucket_ok t i c" "bucket_ok (ips_insert a t) i c = bucket_ok t i c" "bucket_ok (ips_erase a t) i c = bucket_ok t i c"
  by (simp_all add: bucket_ok_def)

lemma table_ok_ips [simp]: "table_ok (ips_insert a t) = table_ok t" "table_ok (ips_erase a t) = table_ok t"
  by (simp_all add: table_ok_def)

lemma table_ok_bucket: "table_ok t \<Longrightarrow> i < length (m_buckets t) \<Longrightarrow> bucket_ok t i (m_buckets t ! i)"
  by (simp add: table_ok_def)

lemma table_ok_set_bucket:
  assumes "table_ok t" "bucket_ok t i b"
  shows "table_ok (set_bucket i b t)"
proof -
  have "bucket_ok t k ((m_buckets t)[i := b] ! k)" if "k < length (m_buckets t)" for k
    using assms that by (cases "k = i") (simp_all add: table_ok_def)
  then show ?thesis using assms(1) by (simp add: table_ok_def)
qed

lemma table_content_ips [simp]: "table_content (ips_insert a t) = table_content t" "table_content (ips_erase a t) = table_content t"
  by (simp_all add: table_content_def)

lemma table_content_set_bucket:
  "i < length (m_buckets t) \<Longrightarrow> table_content (set_bucket i b t) + content (m_buckets t ! i) = table_content t + content b"
  unfolding table_content_def table_frame by (rule sum_list_update)

definition routing_ok :: "routing_table \<Rightarrow> bool" where
  "routing_ok t \<longleftrightarrow> table_ok t \<and> ips_ok t"

definition fits :: "nat \<Rightarrow> routing_table_node \<Rightarrow> bool" where
  "fits k b \<longleftrightarrow> length (live_nodes b) \<le> k \<and> length (replacements b) \<le> k"

lemma bucket_ok_fits: "bucket_ok t i b \<longleftrightarrow> fits (m_bucket_size t) b \<and> content_ok t i (content b)"
  by (auto simp: bucket_ok_def fits_def)

lemma routing_same:
  assumes "routing_ok t" "i < length (m_buckets t)" "fits (m_bucket_size t) b" "content b = content (m_buckets t ! i)"
  shows "routing_ok (set_bucket i b t)"
proof -
  have "table_content (set_bucket i b t) = table_content t" using table_content_set_bucket [OF assms(2), of b] assms(4) by simp
  moreover have "bucket_ok t i b" using assms table_ok_bucket [of t i] by (simp add: routing_ok_def bucket_ok_fits)
  ultimately show ?thesis using assms(1) table_ok_set_bucket by (simp add: routing_ok_def ips_ok_def)
qed

lemma routing_remove:
  assumes "routing_ok t" "i < length (m_buckets t)" "fits (m_bucket_size t) b" "content (m_buckets t ! i) = add_mset n (content b)"
  shows "routing_ok (ips_erase (snd n) (set_bucket i b t))"
proof -
  have c: "table_content t = add_mset n (table_content (set_bucket i b t))"
    using table_content_set_bucket [OF assms(2), of b] assms(4) by simp
  have "content_ok t i (content b)" using assms table_ok_bucket [of t i] content_ok_mono [of t i "content (m_buckets t ! i)"]
    by (simp add: routing_ok_def bucket_ok_fits)
  then have "bucket_ok t i b" using assms(3) by (simp add: bucket_ok_fits)
  moreover have "ips_ok (ips_erase (snd n) (set_bucket i b t))"
  proof (cases "restrict_routing_ips t")
    case True
    let ?C = "image_mset snd (table_content (set_bucket i b t))"
    have one: "count (add_mset (snd n) ?C) a \<le> 1" for a
      using assms(1) True unfolding routing_ok_def ips_ok_def c by simp
    have ips: "set (m_ips t) = insert (snd n) (set_mset ?C)"
      using assms(1) True by (simp add: routing_ok_def ips_ok_def c)
    have "count ?C a \<le> 1" for a using one [of a] by (cases "a = snd n") simp_all
    moreover have "count ?C (snd n) = 0" using one [of "snd n"] by simp
    then have "snd n \<notin># ?C" by (simp only: not_in_iff)
    then have "set (m_ips (ips_erase (snd n) (set_bucket i b t))) = set_mset ?C" unfolding table_frame set_filter ips by blast
    ultimately show ?thesis unfolding ips_ok_def table_content_ips by blast
  qed (simp add: ips_ok_def)
  ultimately show ?thesis using assms(1) table_ok_set_bucket by (simp add: routing_ok_def)
qed

definition joins :: "routing_table \<Rightarrow> nat \<Rightarrow> node_entry \<Rightarrow> bool" where
  "joins t i e \<longleftrightarrow> length (entry_id e) = 16 \<and> entry_id e \<noteq> m_id t \<and> bucket_index t (entry_id e) = i
    \<and> (\<forall>x \<in># content (m_buckets t ! i). fst x \<noteq> entry_id e \<and> (restrict_routing_ips t \<longrightarrow> far_apart x (node_key e)))
    \<and> (restrict_routing_ips t \<longrightarrow> addr e \<notin> set (m_ips t))"

lemma joins_content: "joins t i e \<Longrightarrow> content_ok t i c \<Longrightarrow> c \<subseteq># content (m_buckets t ! i) \<Longrightarrow> content_ok t i (add_mset (node_key e) c)"
  by (rule content_ok_add) (auto simp: joins_def node_key_def dest: mset_subset_eqD)

lemma ips_ok_add:
  assumes "ips_ok t" "table_content t' = add_mset n (table_content t)" "m_ips t' = snd n # m_ips t"
    "restrict_routing_ips t' = restrict_routing_ips t" "restrict_routing_ips t \<Longrightarrow> snd n \<notin> set (m_ips t)"
  shows "ips_ok t'"
proof (cases "restrict_routing_ips t")
  case True
  then have "snd n \<notin># image_mset snd (table_content t)" using assms(1,5) by (simp add: ips_ok_def)
  then have "count (image_mset snd (table_content t)) (snd n) = 0" by (simp only: not_in_iff)
  then show ?thesis using assms True by (auto simp: ips_ok_def)
qed (use assms in \<open>simp add: ips_ok_def\<close>)

lemma routing_add:
  assumes "routing_ok t" "i < length (m_buckets t)" "fits (m_bucket_size t) b" "content b = add_mset (node_key e) (content (m_buckets t ! i))" "joins t i e"
  shows "routing_ok (ips_insert (addr e) (set_bucket i b t))"
proof -
  have c: "table_content (set_bucket i b t) = add_mset (node_key e) (table_content t)"
    using table_content_set_bucket [OF assms(2), of b] assms(4) by simp
  have "content_ok t i (content b)"
    using joins_content [OF assms(5)] assms(1,2,4) table_ok_bucket [of t i] by (simp add: routing_ok_def bucket_ok_fits)
  then have "table_ok (set_bucket i b t)" using assms(1,3) table_ok_set_bucket by (simp add: routing_ok_def bucket_ok_fits)
  moreover have "ips_ok (ips_insert (addr e) (set_bucket i b t))"
    by (rule ips_ok_add [of t _ "node_key e"]) (use assms(1,5) c in \<open>simp_all add: routing_ok_def joins_def node_key_def\<close>)
  ultimately show ?thesis by (simp add: routing_ok_def)
qed

lemma set_bucket_erase: "set_bucket i b' (ips_erase a (set_bucket i b t)) = set_bucket i b' (ips_erase a t)"
  by (simp add: set_bucket_def ips_erase_def)

lemma joins_remove:
  assumes "joins t i e" "i < length (m_buckets t)" "content (m_buckets t ! i) = add_mset n (content b)"
  shows "joins (ips_erase a (set_bucket i b t)) i e"
  using assms by (auto simp: joins_def bucket_index_def)

section \<open>Finding buckets and nodes\<close>

lemma find_bucket_ok:
  assumes "routing_ok t" "find_bucket nid t = (i, t')"
  shows "routing_ok t'" "i < length (m_buckets t')" "i = bucket_index t' nid" "m_ips t' = m_ips t" "m_id t' = m_id t"
    "restrict_routing_ips t' = restrict_routing_ips t"
proof -
  let ?b = "\<lparr>replacements = [], live_nodes = [], last_active = 160\<rparr>"
  have "content ?b = {#}" by (simp add: content_def keys_simps)
  moreover have "content_ok u 0 {#}" for u by (simp add: content_ok_def)
  ultimately have "routing_ok (t\<lparr>m_buckets := [?b]\<rparr>)" if "m_buckets t = []"
    using assms(1) that by (simp add: routing_ok_def table_ok_def bucket_ok_def ips_ok_def table_content_def kad_total_bits_def)
  then show "routing_ok t'" "i < length (m_buckets t')" "i = bucket_index t' nid" "m_ips t' = m_ips t" "m_id t' = m_id t"
    "restrict_routing_ips t' = restrict_routing_ips t"
    using assms by (auto simp: find_bucket_def Let_def bucket_index_def min_less_iff_disj split: if_splits)
qed

definition place_ok :: "place \<Rightarrow> routing_table \<Rightarrow> bool" where
  "place_ok = (\<lambda>(i, r, j) t. i < length (m_buckets t)
    \<and> j < length (if r then replacements (m_buckets t ! i) else live_nodes (m_buckets t ! i)))"

lemma find_node_from_place:
  "find_node_from ep i bs = Some (k, r, j) \<Longrightarrow> i \<le> k \<and> k - i < length bs
    \<and> j < length (if r then replacements (bs ! (k - i)) else live_nodes (bs ! (k - i)))
    \<and> entry_ep (if r then replacements (bs ! (k - i)) ! j else live_nodes (bs ! (k - i)) ! j) = ep"
proof (induction ep i bs rule: find_node_from.induct)
  case (2 ep i b bs)
  show ?case
  proof (cases "find_pos (\<lambda>e. entry_ep e = ep) (replacements b) < length (replacements b)
      \<or> find_pos (\<lambda>e. entry_ep e = ep) (live_nodes b) < length (live_nodes b)")
    case True
    then show ?thesis using 2(2) by (auto simp: Let_def dest: find_pos_less split: if_splits)
  next
    case False
    then have rec: "find_node_from ep (i + 1) bs = Some (k, r, j)" using 2(2) by (simp add: Let_def)
    from 2(1) [OF refl _ refl _ rec] False have "i + 1 \<le> k" and rest: "k - (i + 1) < length bs
      \<and> j < length (if r then replacements (bs ! (k - (i + 1))) else live_nodes (bs ! (k - (i + 1))))
      \<and> entry_ep (if r then replacements (bs ! (k - (i + 1))) ! j else live_nodes (bs ! (k - (i + 1))) ! j) = ep" by auto
    have "k - i = Suc (k - (i + 1))" using \<open>i + 1 \<le> k\<close> by simp
    then show ?thesis using rest \<open>i + 1 \<le> k\<close> by (cases r) simp_all
  qed
qed simp

lemma find_node_ep_place: "find_node_ep ep t = Some p \<Longrightarrow> place_ok p t \<and> entry_ep (node_at p t) = ep"
  by (cases p) (auto simp: find_node_ep_def place_ok_def node_at_def dest!: find_node_from_place)

lemma set_node_at_ok:
  assumes "routing_ok t" "place_ok p t" "node_key e = node_key (node_at p t)"
  shows "routing_ok (set_node_at p e t)"
proof -
  obtain i r j where p: "p = (i, r, j)" by (cases p)
  have i: "i < length (m_buckets t)" using assms(2) by (simp add: p place_ok_def)
  have f: "fits (m_bucket_size t) (m_buckets t ! i)" using assms(1) table_ok_bucket [of t i] i by (simp add: routing_ok_def bucket_ok_fits)
  show ?thesis
  proof (cases r)
    case True
    then have "keys ((replacements (m_buckets t ! i))[j := e]) = keys (replacements (m_buckets t ! i))"
      using assms(2,3) by (simp add: p place_ok_def node_at_def keys_update)
    then show ?thesis using routing_same [OF assms(1) i] f True by (simp add: p set_node_at_def Let_def content_def fits_def)
  next
    case False
    then have "keys ((live_nodes (m_buckets t ! i))[j := e]) = keys (live_nodes (m_buckets t ! i))"
      using assms(2,3) by (simp add: p place_ok_def node_at_def keys_update)
    then show ?thesis using routing_same [OF assms(1) i] f False by (simp add: p set_node_at_def Let_def content_def fits_def)
  qed
qed

lemma remove_node_ok:
  assumes "routing_ok t" "place_ok p t"
  shows "routing_ok (remove_node p t)"
proof -
  obtain i r j where p: "p = (i, r, j)" by (cases p)
  have i: "i < length (m_buckets t)" using assms(2) by (simp add: p place_ok_def)
  have f: "fits (m_bucket_size t) (m_buckets t ! i)" using assms(1) table_ok_bucket [of t i] i by (simp add: routing_ok_def bucket_ok_fits)
  show ?thesis
  proof (cases r)
    case True
    then have j: "j < length (replacements (m_buckets t ! i))" using assms(2) by (simp add: p place_ok_def)
    show ?thesis
      using routing_remove [OF assms(1) i, of "(m_buckets t ! i)\<lparr>replacements := erase_at j (replacements (m_buckets t ! i))\<rparr>" "node_key (node_at p t)"] True j f
      by (simp add: p remove_node_def node_at_def Let_def content_def fits_def keys_erase_at [OF j] erase_at_le node_key_def)
  next
    case False
    then have j: "j < length (live_nodes (m_buckets t ! i))" using assms(2) by (simp add: p place_ok_def)
    show ?thesis
      using routing_remove [OF assms(1) i, of "(m_buckets t ! i)\<lparr>live_nodes := erase_at j (live_nodes (m_buckets t ! i))\<rparr>" "node_key (node_at p t)"] False j f
      by (simp add: p remove_node_def node_at_def Let_def content_def fits_def keys_erase_at [OF j] erase_at_le node_key_def)
  qed
qed

lemma node_frame [simp]:
  "m_id (set_node_at p e t) = m_id t" "restrict_routing_ips (set_node_at p e t) = restrict_routing_ips t"
  "m_id (remove_node p t) = m_id t" "restrict_routing_ips (remove_node p t) = restrict_routing_ips t"
  "m_ips (remove_node p t) = filter (\<lambda>x. x \<noteq> addr (node_at p t)) (m_ips t)"
  by (cases p; simp add: set_node_at_def remove_node_def Let_def)+

lemma known_ip_ok:
  assumes "routing_ok t" "known_ip e t = (go_on, t')"
  shows "routing_ok t'" "m_id t' = m_id t" "restrict_routing_ips t' = restrict_routing_ips t"
    "go_on \<Longrightarrow> restrict_routing_ips t \<Longrightarrow> addr e \<notin> set (m_ips t')"
proof -
  have p: "place_ok p t \<and> addr (node_at p t) = addr e" if "find_node_ep (entry_ep e) t = Some p" for p
    using find_node_ep_place [OF that] by (simp add: entry_ep_def)
  show "routing_ok t'" "m_id t' = m_id t" "restrict_routing_ips t' = restrict_routing_ips t"
    using assms p set_node_at_ok [OF assms(1)] remove_node_ok [OF assms(1)]
    by (auto simp: known_ip_def split: if_splits option.splits)
  show "addr e \<notin> set (m_ips t')" if "go_on" "restrict_routing_ips t"
    using assms that p by (auto simp: known_ip_def split: if_splits option.splits)
qed

section \<open>Insertions\<close>

lemma old_fits: "routing_ok t \<Longrightarrow> i < length (m_buckets t) \<Longrightarrow> fits (m_bucket_size t) (m_buckets t ! i)"
  using table_ok_bucket [of t i] by (simp add: routing_ok_def bucket_ok_fits)

text \<open>A node is taken out of a bucket and another one put in.\<close>

lemma routing_replace:
  assumes "routing_ok t" "i < length (m_buckets t)" "joins t i e"
    and "content (m_buckets t ! i) = add_mset n (content b0)" "fits (m_bucket_size t) b0"
    and "content b = add_mset (node_key e) (content b0)" "fits (m_bucket_size t) b"
  shows "routing_ok (ips_insert (addr e) (set_bucket i b (ips_erase (snd n) t)))"
proof -
  let ?t = "ips_erase (snd n) (set_bucket i b0 t)"
  have "routing_ok ?t" using routing_remove assms by blast
  moreover have "joins ?t i e" using joins_remove assms by blast
  ultimately have "routing_ok (ips_insert (addr e) (set_bucket i b ?t))" using assms by (intro routing_add) simp_all
  then show ?thesis by (simp add: set_bucket_erase)
qed

lemma replace_live_ok:
  assumes "routing_ok t" "i < length (m_buckets t)" "joins t i e" "j < length (live_nodes (m_buckets t ! i))"
  shows "routing_ok (replace_live i j e t)"
proof -
  let ?b = "m_buckets t ! i" and ?l = "erase_at j (live_nodes (m_buckets t ! i))"
  have "length ?l + 1 \<le> m_bucket_size t" "length (replacements ?b) \<le> m_bucket_size t"
    using old_fits [OF assms(1,2)] assms(4) by (auto simp: fits_def length_erase_at)
  then show ?thesis
    using routing_replace [OF assms(1-3), of "node_key (live_nodes ?b ! j)" "?b\<lparr>live_nodes := ?l\<rparr>" "?b\<lparr>live_nodes := ?l @ [e]\<rparr>"]
    by (simp add: replace_live_def Let_def content_def keys_simps keys_erase_at [OF assms(4)] fits_def node_key_def)
qed

lemma push_replacement_ok:
  assumes "routing_ok t" "i < length (m_buckets t)" "joins t i e" "length (replacements (m_buckets t ! i)) < m_bucket_size t"
  shows "routing_ok (ips_insert (addr e) (set_bucket i ((m_buckets t ! i)\<lparr>replacements := replacements (m_buckets t ! i) @ [e]\<rparr>) t))"
  using routing_add [OF assms(1,2), of "(m_buckets t ! i)\<lparr>replacements := replacements (m_buckets t ! i) @ [e]\<rparr>" e] assms old_fits [OF assms(1,2)]
  by (simp add: fits_def content_def keys_simps)

lemma push_live_ok:
  assumes "routing_ok t" "i < length (m_buckets t)" "joins t i e" "length (live_nodes (m_buckets t ! i)) < m_bucket_size t"
  shows "routing_ok (ips_insert (addr e) (set_bucket i ((m_buckets t ! i)\<lparr>live_nodes := live_nodes (m_buckets t ! i) @ [e]\<rparr>) t))"
  using routing_add [OF assms(1,2), of "(m_buckets t ! i)\<lparr>live_nodes := live_nodes (m_buckets t ! i) @ [e]\<rparr>" e] assms old_fits [OF assms(1,2)]
  by (simp add: fits_def content_def keys_simps)

lemma swap_replacement_ok:
  assumes "routing_ok t" "i < length (m_buckets t)" "joins t i e" "j < length (replacements (m_buckets t ! i))"
  shows "routing_ok (ips_insert (addr e) (set_bucket i ((m_buckets t ! i)\<lparr>replacements := erase_at j (replacements (m_buckets t ! i)) @ [e]\<rparr>)
    (ips_erase (addr (replacements (m_buckets t ! i) ! j)) t)))"
proof -
  let ?b = "m_buckets t ! i" and ?l = "erase_at j (replacements (m_buckets t ! i))"
  have "length ?l + 1 \<le> m_bucket_size t" "length (live_nodes ?b) \<le> m_bucket_size t"
    using old_fits [OF assms(1,2)] assms(4) by (auto simp: fits_def length_erase_at)
  then show ?thesis
    using routing_replace [OF assms(1-3), of "node_key (replacements ?b ! j)" "?b\<lparr>replacements := ?l\<rparr>" "?b\<lparr>replacements := ?l @ [e]\<rparr>"]
    by (simp add: content_def keys_simps keys_erase_at [OF assms(4)] fits_def node_key_def)
qed

lemma add_replacement_ok:
  assumes "routing_ok t" "i < length (m_buckets t)" "joins t i e"
  shows "routing_ok (add_replacement i e t)"
proof -
  let ?rb = "replacements (m_buckets t ! i)"
  have new: "entry_id x \<noteq> entry_id e" if "x \<in> set ?rb" for x
  proof -
    have "node_key x \<in># content (m_buckets t ! i)" using keys_in [OF that] by (simp add: content_def)
    then have "fst (node_key x) \<noteq> entry_id e" using assms(3) unfolding joins_def by blast
    then show ?thesis by (simp add: node_key_def)
  qed
  have none: "\<not> find_pos (\<lambda>x. entry_id x = entry_id e) ?rb < length ?rb"
    using find_pos_less [of "\<lambda>x. entry_id x = entry_id e" ?rb] new nth_mem by blast
  show ?thesis
  proof (cases "m_bucket_size t \<le> length ?rb")
    case True
    define p where "p = find_pos (\<lambda>x. \<not> pinged x) ?rb"
    have "0 < length ?rb" using True assms(1) by (auto simp: routing_ok_def table_ok_def)
    then have j: "(if p = length ?rb then 0 else p) < length ?rb" using find_pos_le [of "\<lambda>x. \<not> pinged x" ?rb] p_def by auto
    show ?thesis using swap_replacement_ok [OF assms j] none True by (simp add: add_replacement_def Let_def flip: p_def)
  next
    case False
    then show ?thesis using push_replacement_ok [OF assms] none by (simp add: add_replacement_def Let_def)
  qed
qed

section \<open>Splitting the last bucket\<close>

definition split_keys :: "node_entry list \<times> node_entry list \<times> node_entry list \<times> node_entry list \<Rightarrow> key multiset" where
  "split_keys = (\<lambda>(b, rb, nb, nrb). keys b + keys rb + keys nb + keys nrb)"

definition split_ok :: "(node_entry \<Rightarrow> bool) \<Rightarrow> nat \<Rightarrow> nat \<Rightarrow> node_entry list \<times> node_entry list \<times> node_entry list \<times> node_entry list \<Rightarrow> bool" where
  "split_ok st k m = (\<lambda>(b, rb, nb, nrb). length b \<le> k \<and> length nb \<le> k \<and> length rb \<le> m \<and> length nrb \<le> m
    \<and> list_all st b \<and> list_all st rb \<and> list_all (\<lambda>x. \<not> st x) nb \<and> list_all (\<lambda>x. \<not> st x) nrb)"

lemma split_replacements_keys: "split_keys (split_replacements st k xs acc) = split_keys acc + keys xs"
  by (induction st k xs acc rule: split_replacements.induct) (simp_all add: split_keys_def keys_simps)

lemma split_replacements_ok: "split_ok st k m acc \<Longrightarrow> split_ok st k (m + length xs) (split_replacements st k xs acc)"
proof (induction st k xs acc arbitrary: m rule: split_replacements.induct)
  case (2 st k x xs b rb nb nrb)
  have "split_ok st k (m + 1) (if st x then if k \<le> length b then (b, rb @ [x], nb, nrb) else (b @ [x], rb, nb, nrb)
    else if length nb < k then (b, rb, nb @ [x], nrb) else (b, rb, nb, nrb @ [x]))"
    using 2(2) by (auto simp: split_ok_def)
  from 2(1) [OF this] show ?case by simp
qed simp

lemma keys_filter: "keys (filter P xs) + keys (filter (\<lambda>x. \<not> P x) xs) = keys xs"
  by (induction xs) (simp_all add: keys_simps)

text \<open>With one more bucket only the last bucket changes its members.\<close>

lemma index_split:
  assumes "m_id t' = m_id t" "length (m_buckets t') = Suc (length (m_buckets t))" "bucket_index t nid = k"
  shows "k < length (m_buckets t) - 1 \<Longrightarrow> bucket_index t' nid = k"
    and "k = length (m_buckets t) - 1 \<Longrightarrow> 0 < length (m_buckets t) \<Longrightarrow> length (m_buckets t) < kad_total_bits \<Longrightarrow>
      bucket_index t' nid = (if kad_total_bits - 1 - k \<le> distance_exp (m_id t) nid then k else length (m_buckets t))"
proof -
  let ?d = "kad_total_bits - 1 - distance_exp (m_id t) nid" and ?n = "length (m_buckets t)"
  have k: "min ?d (?n - 1) = k" using assms(3) by (simp add: bucket_index_def)
  have t': "bucket_index t' nid = min ?d ?n" using assms(1,2) by (simp add: bucket_index_def)
  show "bucket_index t' nid = k" if "k < ?n - 1" using that k t' by linarith
  assume last: "k = ?n - 1" "0 < ?n" "?n < kad_total_bits"
  show "bucket_index t' nid = (if kad_total_bits - 1 - k \<le> distance_exp (m_id t) nid then k else ?n)"
    using last k t' by (auto split: if_splits)
qed

lemma content_ok_move:
  assumes "content_ok t i c" "m_id t' = m_id t" "restrict_routing_ips t' = restrict_routing_ips t" "\<forall>x \<in># c. bucket_index t' (fst x) = k"
  shows "content_ok t' k c"
  using assms by (simp add: content_ok_def)

lemma keys_id_all: "list_all (\<lambda>x. P (entry_id x)) xs \<Longrightarrow> y \<in># keys xs \<Longrightarrow> P (fst y)"
  by (auto simp: keys_def list_all_iff node_key_def)

text \<open>The table after a split, with any contents for the two halves that are right for them.\<close>

definition split_table :: "nat \<Rightarrow> node_entry list \<times> node_entry list \<times> node_entry list \<times> node_entry list \<Rightarrow> int \<Rightarrow> routing_table \<Rightarrow> routing_table" where
  "split_table i = (\<lambda>(b, rb, nb, nrb) active t. t\<lparr>m_buckets := (m_buckets t)[i := (m_buckets t ! i)\<lparr>live_nodes := b, replacements := rb\<rparr>]
    @ [\<lparr>replacements = nrb, live_nodes = nb, last_active = active\<rparr>]\<rparr>)"

lemma split_table_ok:
  assumes t: "table_ok t" and i: "i + 1 = length (m_buckets t)" "length (m_buckets t) < kad_total_bits"
    and ok: "split_ok (stays (m_id t) i) (m_bucket_size t) (m_bucket_size t) (b, rb, nb, nrb)"
    and c: "content_ok t i (split_keys (b, rb, nb, nrb))"
  shows "table_ok (split_table i (b, rb, nb, nrb) active t)"
proof -
  let ?t = "split_table i (b, rb, nb, nrb) active t" and ?n = "length (m_buckets t)"
  let ?near = "\<lambda>nid. kad_total_bits - 1 - i \<le> distance_exp (m_id t) nid"
  have frame: "m_id ?t = m_id t" "length (m_buckets ?t) = Suc ?n" "restrict_routing_ips ?t = restrict_routing_ips t"
    "m_bucket_size ?t = m_bucket_size t" by (simp_all add: split_table_def)
  note index = index_split [OF frame(1,2)]
  have near: "?near (fst x)" if "x \<in># keys b + keys rb" for x
    using ok that keys_id_all [of ?near b x] keys_id_all [of ?near rb x] by (auto simp: split_ok_def stays_def list_all_iff)
  have far: "\<not> ?near (fst x)" if "x \<in># keys nb + keys nrb" for x
    using ok that keys_id_all [of "\<lambda>n. \<not> ?near n" nb x] keys_id_all [of "\<lambda>n. \<not> ?near n" nrb x] by (auto simp: split_ok_def stays_def list_all_iff)
  have last: "bucket_index ?t (fst x) = (if ?near (fst x) then i else ?n)" if "x \<in># split_keys (b, rb, nb, nrb)" for x
  proof -
    have "bucket_index t (fst x) = i" using c that by (simp add: content_ok_def)
    from index(2) [OF this] show ?thesis using i by linarith
  qed
  have sub: "keys b + keys rb \<subseteq># split_keys (b, rb, nb, nrb)" "keys nb + keys nrb \<subseteq># split_keys (b, rb, nb, nrb)"
    unfolding split_keys_def by (simp_all add: add.assoc)
  have "content_ok ?t i (keys b + keys rb)"
    using content_ok_move [OF content_ok_mono [OF c sub(1)] frame(1,3), of i] last near mset_subset_eqD [OF sub(1)] by auto
  moreover have "content_ok ?t ?n (keys nb + keys nrb)"
    using content_ok_move [OF content_ok_mono [OF c sub(2)] frame(1,3), of ?n] last far mset_subset_eqD [OF sub(2)] by auto
  moreover have "bucket_ok ?t k (m_buckets t ! k)" if "k < i" for k
  proof -
    have "bucket_ok t k (m_buckets t ! k)" using table_ok_bucket [OF t] that i by simp
    moreover have "bucket_index ?t (fst x) = k" if "x \<in># content (m_buckets t ! k)" for x
      using calculation that \<open>k < i\<close> i index(1) [of "fst x" k] by (auto simp: bucket_ok_def content_ok_def)
    ultimately show ?thesis using content_ok_move [OF _ frame(1,3), of k "content (m_buckets t ! k)" k] by (simp add: bucket_ok_def frame(4))
  qed
  ultimately have "bucket_ok ?t k (m_buckets ?t ! k)" if "k < Suc ?n" for k
    using that i ok by (cases k i rule: linorder_cases) (auto simp: split_table_def bucket_ok_def content_def split_ok_def nth_append less_Suc_eq)
  then show ?thesis using t i(2) frame by (simp add: table_ok_def)
qed

lemma split_table_content:
  assumes "i < length (m_buckets t)"
  shows "table_content (split_table i acc active t) + content (m_buckets t ! i) = table_content t + split_keys acc"
proof -
  obtain b rb nb nrb where acc: "acc = (b, rb, nb, nrb)" by (cases acc)
  show ?thesis
    using sum_list_update [OF assms, of content "(m_buckets t ! i)\<lparr>live_nodes := b, replacements := rb\<rparr>"]
    by (simp add: acc split_table_def table_content_def split_keys_def content_def ac_simps)
qed

text \<open>The halves of the split bucket after the loops, and the new node.\<close>

definition split_halves :: "nat \<Rightarrow> routing_table \<Rightarrow> node_entry list \<times> node_entry list \<times> node_entry list \<times> node_entry list" where
  "split_halves i t = (let old = m_buckets t ! i; st = stays (m_id t) i in
    split_replacements st (m_bucket_size t) (replacements old) (filter st (live_nodes old), [], filter (\<lambda>x. \<not> st x) (live_nodes old), []))"

lemma split_halves_ok:
  assumes "fits (m_bucket_size t) (m_buckets t ! i)"
  shows "split_ok (stays (m_id t) i) (m_bucket_size t) (m_bucket_size t) (split_halves i t)" "split_keys (split_halves i t) = content (m_buckets t ! i)"
proof -
  let ?old = "m_buckets t ! i" and ?st = "stays (m_id t) i" and ?k = "m_bucket_size t"
  let ?acc = "(filter ?st (live_nodes ?old), [], filter (\<lambda>x. \<not> ?st x) (live_nodes ?old), [])"
  have len: "length (filter P (live_nodes ?old)) \<le> ?k" for P
    using assms length_filter_le [of P "live_nodes ?old"] unfolding fits_def by linarith
  then have "split_ok ?st ?k 0 ?acc" by (simp add: split_ok_def list_all_iff)
  from split_replacements_ok [OF this, of "replacements ?old"]
  have "split_ok ?st ?k (length (replacements ?old)) (split_halves i t)" by (simp add: split_halves_def Let_def)
  then show "split_ok ?st ?k ?k (split_halves i t)" using assms by (auto simp: split_ok_def fits_def)
  have "split_keys ?acc = keys (live_nodes ?old)" using keys_filter [of ?st "live_nodes ?old"] by (simp add: split_keys_def keys_simps)
  then show "split_keys (split_halves i t) = content ?old" by (simp add: split_halves_def Let_def split_replacements_keys content_def)
qed

definition split_add :: "(node_entry \<Rightarrow> bool) \<Rightarrow> nat \<Rightarrow> node_entry \<Rightarrow> node_entry list \<times> node_entry list \<times> node_entry list \<times> node_entry list
    \<Rightarrow> bool \<times> node_entry list \<times> node_entry list \<times> node_entry list \<times> node_entry list" where
  "split_add st k e = (\<lambda>(b, rb, nb, nrb).
    if st e
    then if length b < k then (True, b @ [e], rb, nb, nrb)
         else if length rb < k then (True, b, rb @ [e], nb, nrb) else (False, b, rb, nb, nrb)
    else if length nb < k then (True, b, rb, nb @ [e], nrb)
         else if length nrb < k then (True, b, rb, nb, nrb @ [e]) else (False, b, rb, nb, nrb))"

lemma split_add_ok:
  assumes "split_ok st k k acc" "split_add st k e acc = (added, acc')"
  shows "split_ok st k k acc'" "split_keys acc' = (if added then add_mset (node_key e) (split_keys acc) else split_keys acc)"
  using assms by (auto simp: split_add_def split_ok_def split_keys_def keys_simps split: if_splits prod.splits)

lemma split_bucket_alt:
  "split_bucket i e t = (let (added, acc) = split_add (stays (m_id t) i) (m_bucket_size t) e (split_halves i t);
     t' = split_table i acc (int kad_total_bits - (int (length (m_buckets t)) + 1)) t
   in if added then ips_insert (addr e) t' else t')"
  by (simp add: split_bucket_def split_add_def split_halves_def split_table_def Let_def split: prod.split)

lemma split_bucket_ok:
  assumes "routing_ok t" "i + 1 = length (m_buckets t)" "length (m_buckets t) < kad_total_bits" "joins t i e"
  shows "routing_ok (split_bucket i e t)"
proof -
  have i: "i < length (m_buckets t)" using assms(2) by simp
  note halves = split_halves_ok [OF old_fits [OF assms(1) i]]
  obtain added b rb nb nrb where add: "split_add (stays (m_id t) i) (m_bucket_size t) e (split_halves i t) = (added, b, rb, nb, nrb)"
    by (metis prod.exhaust)
  define acc where "acc = (b, rb, nb, nrb)"
  note new = split_add_ok [OF halves(1) add, folded acc_def]
  define t' where "t' = split_table i acc (int kad_total_bits - (int (length (m_buckets t)) + 1)) t"
  have c: "content_ok t i (content (m_buckets t ! i))" using assms(1) i table_ok_bucket [of t i] by (simp add: routing_ok_def bucket_ok_def)
  have "content_ok t i (split_keys acc)" using c joins_content [OF assms(4) c] by (simp add: new(2) halves(2))
  then have ok: "table_ok t'" using split_table_ok [OF _ assms(2,3)] new(1) assms(1) by (simp add: t'_def acc_def routing_ok_def)
  have cont: "table_content t' = (if added then add_mset (node_key e) (table_content t) else table_content t)"
    using split_table_content [OF i, of acc "int kad_total_bits - (int (length (m_buckets t)) + 1)"]
    unfolding t'_def [symmetric] new(2) halves(2) by (cases added) simp_all
  have frame: "m_ips t' = m_ips t" "restrict_routing_ips t' = restrict_routing_ips t" by (simp_all add: t'_def acc_def split_table_def)
  have ips: "ips_ok t" using assms(1) by (simp add: routing_ok_def)
  have "ips_ok (if added then ips_insert (addr e) t' else t')"
  proof (cases added)
    case True
    have "ips_ok (ips_insert (addr e) t')"
      by (rule ips_ok_add [OF ips, of _ "node_key e"]) (use True cont frame assms(4) in \<open>simp_all add: joins_def node_key_def\<close>)
    then show ?thesis using True by simp
  qed (use ips cont frame in \<open>simp add: ips_ok_def\<close>)
  then show ?thesis using ok add by (simp add: split_bucket_alt routing_ok_def acc_def [symmetric] t'_def [symmetric])
qed

section \<open>The operations\<close>

lemma full_bucket_ok:
  assumes "routing_ok t" "i < length (m_buckets t)" "joins t i e"
  shows "routing_ok (full_bucket i e t)"
  using replace_live_ok [OF assms] add_replacement_ok [OF assms] split_bucket_ok [OF assms(1) _ _ assms(3)]
  by (simp add: full_bucket_def Let_def)

lemma joins_new:
  assumes "length (entry_id e) = 16" "entry_id e \<noteq> m_id t" "restrict_routing_ips t \<Longrightarrow> addr e \<notin> set (m_ips t)"
    and "\<forall>x \<in> set (live_nodes b) \<union> set (replacements b). entry_id x \<noteq> entry_id e \<and> (restrict_routing_ips t \<longrightarrow> \<not> compare_ip_cidr x e)"
    and "b = m_buckets t ! i" "i = bucket_index t (entry_id e)"
  shows "joins t i e"
proof -
  have "fst y \<noteq> entry_id e \<and> (restrict_routing_ips t \<longrightarrow> far_apart y (node_key e))" if "y \<in># content b" for y
  proof -
    obtain x where x: "x \<in> set (live_nodes b) \<union> set (replacements b)" "y = node_key x" using \<open>y \<in># content b\<close> by (auto simp: content_def keys_def)
    then show ?thesis using assms(4) far_apart_entries by (auto simp: node_key_def)
  qed
  then show ?thesis using assms by (simp add: joins_def)
qed

lemma routing_timeout:
  assumes "routing_ok t" "i < length (m_buckets t)" "j < length (live_nodes (m_buckets t ! i))" "node_key x = node_key (live_nodes (m_buckets t ! i) ! j)"
  shows "routing_ok (set_bucket i ((m_buckets t ! i)\<lparr>live_nodes := (live_nodes (m_buckets t ! i))[j := x]\<rparr>) t)"
  using routing_same [OF assms(1,2)] old_fits [OF assms(1,2)] keys_update [OF assms(3,4)] by (simp add: content_def fits_def)

lemma insert_node_ok:
  assumes "routing_ok t" "length (entry_id e) = 16" "entry_id e \<noteq> m_id t" "restrict_routing_ips t \<Longrightarrow> addr e \<notin> set (m_ips t)"
  shows "routing_ok (insert_node e t)"
proof -
  obtain i u where fb: "find_bucket (entry_id e) t = (i, u)" by (cases "find_bucket (entry_id e) t")
  note u = find_bucket_ok [OF assms(1) fb]
  define b where "b = m_buckets u ! i"
  define j where "j = find_pos (\<lambda>x. entry_id x = entry_id e) (live_nodes b)"
  show ?thesis
  proof (cases "j < length (live_nodes b)")
    case True
    then have "routing_ok (set_bucket i (b\<lparr>live_nodes := (live_nodes b)[j := (live_nodes b ! j)\<lparr>timeout_count := 0\<rparr>]\<rparr>) u)"
      using routing_timeout [OF u(1,2), of j] by (simp add: b_def)
    then show ?thesis using True u(1) by (simp add: insert_node_def fb Let_def b_def [symmetric] j_def [symmetric])
  next
    case False
    then have new: "entry_id x \<noteq> entry_id e" if "x \<in> set (live_nodes b)" for x using find_pos_none [OF _ that] j_def by blast
    have "joins u i e" if "\<not> list_ex (\<lambda>x. entry_id x = entry_id e) (replacements b)"
      "\<not> (restrict_routing_ips u \<and> (list_ex (\<lambda>x. compare_ip_cidr x e) (live_nodes b) \<or> list_ex (\<lambda>x. compare_ip_cidr x e) (replacements b)))"
      by (rule joins_new [of e u b i]) (use that new assms u in \<open>auto simp: b_def list_ex_iff\<close>)
    then show ?thesis using False u(1) push_live_ok [OF u(1,2), of e] full_bucket_ok [OF u(1,2), of e]
      by (simp add: insert_node_def fb Let_def b_def [symmetric] j_def [symmetric] del: list_ex_iff)
  qed
qed

lemma routing_ok_cong:
  assumes "routing_ok t" "m_id t' = m_id t" "m_bucket_size t' = m_bucket_size t" "restrict_routing_ips t' = restrict_routing_ips t"
    "m_buckets t' = m_buckets t" "m_ips t' = m_ips t"
  shows "routing_ok t'"
  using assms content_ok_cong [of t' t] by (simp add: routing_ok_def table_ok_def bucket_ok_def ips_ok_def table_content_def)

lemma need_bootstrap_ok: "routing_ok t \<Longrightarrow> need_bootstrap now t = (r, t') \<Longrightarrow> routing_ok t' \<and> m_id t' = m_id t \<and> restrict_routing_ips t' = restrict_routing_ips t"
  by (auto simp: need_bootstrap_def intro: routing_ok_cong split: if_splits)

lemma add_node_ok:
  assumes "routing_ok t" "length (entry_id e) = 16"
  shows "routing_ok (snd (add_node now e t))"
proof -
  obtain r u where b: "need_bootstrap now t = (r, u)" by (cases "need_bootstrap now t")
  note u = need_bootstrap_ok [OF assms(1) b]
  obtain g v where k: "known_ip e u = (g, v)" by (cases "known_ip e u")
  note v = known_ip_ok [OF conjunct1 [OF u] k]
  show ?thesis using assms u v insert_node_ok [of v e] by (auto simp: add_node_def b k)
qed

lemma node_failed_ok:
  assumes "routing_ok t"
  shows "routing_ok (node_failed nid ep t)"
proof -
  obtain i u where fb: "find_bucket nid t = (i, u)" by (cases "find_bucket nid t")
  note u = find_bucket_ok [OF assms fb]
  define b where "b = m_buckets u ! i"
  define j where "j = find_pos (\<lambda>x. entry_id x = nid) (live_nodes b)"
  note fit = old_fits [OF u(1,2), folded b_def]
  consider "j = length (live_nodes b)" | "j < length (live_nodes b)"
    using find_pos_le [of "\<lambda>x. entry_id x = nid" "live_nodes b"] j_def by linarith
  then show ?thesis
  proof cases
    case 1
    then show ?thesis using assms u(1) by (simp add: node_failed_def fb Let_def b_def [symmetric] j_def [symmetric])
  next
    case 2
    let ?rm = "b\<lparr>live_nodes := erase_at j (live_nodes b)\<rparr>"
    have out: "routing_ok (ips_erase (addr (live_nodes b ! j)) (set_bucket i ?rm u))"
      using routing_remove [OF u(1,2), of ?rm "node_key (live_nodes b ! j)"] fit
      by (simp add: b_def [symmetric] content_def keys_erase_at [OF 2] fits_def erase_at_le node_key_def)
    have stay: "routing_ok (set_bucket i (b\<lparr>live_nodes := (live_nodes b)[j := timed_out (live_nodes b ! j)]\<rparr>) u)"
      using routing_timeout [OF u(1,2), of j] 2 by (simp add: b_def)
    have swap: "routing_ok (ips_erase (addr (live_nodes b ! j))
        (set_bucket i (b\<lparr>live_nodes := erase_at j (live_nodes b) @ [replacements b ! r], replacements := erase_at r (replacements b)\<rparr>) u))"
      if r: "r < length (replacements b)" for r
    proof (rule routing_remove [OF u(1,2), of _ "node_key (live_nodes b ! j)", unfolded node_key_def snd_conv])
      show "fits (m_bucket_size u) (b\<lparr>live_nodes := erase_at j (live_nodes b) @ [replacements b ! r], replacements := erase_at r (replacements b)\<rparr>)"
        using fit 2 by (auto simp: fits_def length_erase_at erase_at_le)
    qed (simp add: b_def [symmetric] content_def keys_simps keys_erase_at [OF 2] keys_erase_at [OF r], simp add: node_key_def)
    define r where "r = (if find_pos pinged (replacements b) = length (replacements b) then 0 else find_pos pinged (replacements b))"
    have "r < length (replacements b)" if "replacements b \<noteq> []" using find_pos_le [of pinged "replacements b"] that by (auto simp: r_def)
    then show ?thesis using assms u(1) out stay swap [of r] 2
      by (simp add: node_failed_def fb Let_def b_def [symmetric] j_def [symmetric] r_def [symmetric])
  qed
qed

lemma touch_bucket_ok: "routing_ok t \<Longrightarrow> routing_ok (touch_bucket now target t)"
proof -
  assume t: "routing_ok t"
  obtain i u where fb: "find_bucket target t = (i, u)" by (cases "find_bucket target t")
  note u = find_bucket_ok [OF t fb]
  show ?thesis using routing_same [OF u(1,2)] old_fits [OF u(1,2)] by (simp add: touch_bucket_def fb content_def fits_def)
qed

lemma find_node_table: "snd (find_node target include_failed c t) = snd (find_bucket target t)"
  by (simp add: find_node_def Let_def split: prod.split)

lemma need_refresh_ok: "routing_ok t \<Longrightarrow> routing_ok (snd (need_refresh now rnd t))"
  by (auto simp: need_refresh_def Let_def intro: routing_ok_cong)

section \<open>Reachable tables\<close>

inductive rt_step :: "routing_table \<Rightarrow> routing_table \<Rightarrow> bool" where
  seen: "length nid = 16 \<Longrightarrow> rt_step t (snd (node_seen now nid ep t))"
| heard: "length nid = 16 \<Longrightarrow> rt_step t (heard_about now nid ep t)"
| failed: "rt_step t (node_failed nid ep t)"
| router: "rt_step t (add_router_node ep t)"
| found: "rt_step t (snd (find_node target include_failed c t))"
| touched: "rt_step t (touch_bucket now target t)"
| refreshed: "rt_step t (snd (need_refresh now rnd t))"
| bootstrapped: "rt_step t (snd (need_bootstrap now t))"

inductive rt_reachable :: "routing_table \<Rightarrow> routing_table \<Rightarrow> bool" for t0 where
  start: "rt_reachable t0 t0"
| step: "rt_reachable t0 t \<Longrightarrow> rt_step t t' \<Longrightarrow> rt_reachable t0 t'"

lemma rt_step_ok: "rt_step t t' \<Longrightarrow> routing_ok t \<Longrightarrow> routing_ok t'"
proof (induction rule: rt_step.induct)
  case (found t target include_failed c)
  then show ?case using find_bucket_ok(1) [of t target] by (cases "find_bucket target t") (simp add: find_node_table)
next
  case (bootstrapped t now)
  then show ?case using need_bootstrap_ok [of t now] by (cases "need_bootstrap now t") simp
qed (auto simp: node_seen_def heard_about_def node_entry_new_def add_router_node_def
    intro: add_node_ok node_failed_ok touch_bucket_ok need_refresh_ok routing_ok_cong)

text \<open>No operation changes what the table was made with.\<close>

definition same_setup :: "routing_table \<Rightarrow> routing_table \<Rightarrow> bool" where
  "same_setup t t' \<longleftrightarrow> m_id t' = m_id t \<and> m_bucket_size t' = m_bucket_size t \<and> restrict_routing_ips t' = restrict_routing_ips t"

lemma setup_frame [simp]:
  "same_setup t (set_bucket i b u) = same_setup t u" "same_setup t (ips_insert a u) = same_setup t u" "same_setup t (ips_erase a u) = same_setup t u"
  "same_setup t (set_node_at p e u) = same_setup t u" "same_setup t (remove_node p u) = same_setup t u"
  "same_setup t (add_replacement i e u) = same_setup t u" "same_setup t (replace_live i j e u) = same_setup t u"
  "same_setup t (split_bucket i e u) = same_setup t u" "same_setup t (snd (find_bucket nid u)) = same_setup t u"
  "same_setup t (snd (need_bootstrap now u)) = same_setup t u"
  by (simp_all add: same_setup_def set_node_at_def remove_node_def add_replacement_def replace_live_def split_bucket_alt split_table_def
      find_bucket_def need_bootstrap_def Let_def split: prod.split)

lemma setup_known_ip: "same_setup t (snd (known_ip e u)) = same_setup t u"
  by (simp add: known_ip_def split: option.split)

lemma setup_insert_node: "same_setup t (insert_node e u) = same_setup t u"
  using setup_frame(9) [of t "entry_id e" u] by (cases "find_bucket (entry_id e) u") (simp add: insert_node_def full_bucket_def Let_def)

lemma setup_add_node: "same_setup t (snd (add_node now e u)) = same_setup t u"
proof -
  obtain r v where b: "need_bootstrap now u = (r, v)" by (cases "need_bootstrap now u")
  obtain g w where k: "known_ip e v = (g, w)" by (cases "known_ip e v")
  show ?thesis using setup_frame(10) [of t now u] setup_known_ip [of t e v] by (simp add: add_node_def b k setup_insert_node)
qed

lemma setup_node_failed: "same_setup t (node_failed nid ep u) = same_setup t u"
  using setup_frame(9) [of t nid u] by (cases "find_bucket nid u") (simp add: node_failed_def Let_def)

lemma rt_step_setup: "rt_step t t' \<Longrightarrow> same_setup t t'"
proof (induction rule: rt_step.induct)
  case (touched t now target)
  then show ?case using setup_frame(9) [of t target t] by (cases "find_bucket target t") (simp add: touch_bucket_def same_setup_def)
qed (simp_all add: node_seen_def heard_about_def setup_add_node setup_node_failed find_node_table,
    simp_all add: same_setup_def add_router_node_def need_refresh_def Let_def)

lemma rt_reachable_ok: "rt_reachable t0 t \<Longrightarrow> routing_ok t0 \<Longrightarrow> routing_ok t \<and> same_setup t0 t"
proof (induction rule: rt_reachable.induct)
  case (step t t')
  then show ?case using rt_step_ok [of t t'] rt_step_setup [of t t'] by (simp add: same_setup_def)
qed (simp add: same_setup_def)

lemma routing_table_new_ok: "length nid = 16 \<Longrightarrow> 0 < k \<Longrightarrow> routing_ok (routing_table_new nid k restrict fails)"
  by (simp add: routing_table_new_def routing_ok_def table_ok_def ips_ok_def table_content_def)

definition all_nodes :: "routing_table \<Rightarrow> node_entry list" where
  "all_nodes t = concat (map (\<lambda>b. live_nodes b @ replacements b) (m_buckets t))"

lemma table_content_nodes: "table_content t = keys (all_nodes t)"
proof -
  have "sum_list (map content bs) = keys (concat (map (\<lambda>b. live_nodes b @ replacements b) bs))" for bs
    by (induction bs) (simp_all add: content_def keys_simps)
  then show ?thesis by (simp add: table_content_def all_nodes_def)
qed

lemma distinct_count: "(\<And>a. count (mset xs) a \<le> 1) \<Longrightarrow> distinct xs"
proof (induction xs)
  case (Cons x xs)
  have "count (mset xs) a \<le> count (mset (x # xs)) a" for a by simp
  then have "count (mset xs) a \<le> 1" for a using Cons.prems le_trans by blast
  then show ?case using Cons.IH Cons.prems [of x] by simp
qed simp

lemma keys_ids: "image_mset fst (keys xs) = mset (map entry_id xs)" "image_mset snd (keys xs) = mset (map addr xs)"
  by (simp_all add: keys_def node_key_def image_mset.compositionality comp_def)

section \<open>A concrete table\<close>

definition id_of :: "uint8 \<Rightarrow> node_id" where
  "id_of b = b # replicate 15 0"

definition sample_table :: routing_table where
  "sample_table = snd (node_seen 100 (id_of 0x80) ([10, 0, 0, 1], 4672)
    (snd (node_seen 100 (id_of 0x40) ([20, 0, 0, 1], 4672) (routing_table_new (id_of 0) 1 True 20))))"

lemma sample_reachable: "rt_reachable (routing_table_new (id_of 0) 1 True 20) sample_table"
proof -
  have "length (id_of b) = 16" for b by (simp add: id_of_def)
  note seen = rt_step.seen [OF this]
  show ?thesis unfolding sample_table_def by (rule rt_reachable.step [OF rt_reachable.step [OF rt_reachable.start seen] seen])
qed

lemma sample_buckets: "map (\<lambda>b. (map entry_id (live_nodes b), map entry_id (replacements b))) (m_buckets sample_table)
    = [([id_of 0x80], []), ([id_of 0x40], [])]"
  by code_simp

section \<open>Properties of the reachable tables\<close>

text \<open>
  C13. In every table that the operations reach, each bucket holds at most \<open>m_bucket_size\<close> live nodes
  and as many replacements, every node lies in the bucket that \<open>find_bucket\<close> gives for its
  identifier, no identifier occurs twice in the live nodes and the replacements of a bucket, the own
  identifier never occurs, and there are at most 128 buckets.
\<close>

theorem routing_table_invariant:
  assumes "rt_reachable (routing_table_new nid k restrict fails) t" "length nid = 16" "0 < k" "i < length (m_buckets t)"
  shows "length (m_buckets t) \<le> 128 \<and> length (live_nodes (m_buckets t ! i)) \<le> k \<and> length (replacements (m_buckets t ! i)) \<le> k
    \<and> distinct (map entry_id (live_nodes (m_buckets t ! i) @ replacements (m_buckets t ! i)))
    \<and> list_all (\<lambda>x. entry_id x \<noteq> nid \<and> find_bucket (entry_id x) t = (i, t)) (live_nodes (m_buckets t ! i) @ replacements (m_buckets t ! i))"
proof -
  have ok: "routing_ok t" "m_id t = nid" "m_bucket_size t = k"
    using rt_reachable_ok [OF assms(1) routing_table_new_ok [OF assms(2,3)]] by (simp_all add: same_setup_def routing_table_new_def)
  let ?b = "m_buckets t ! i" and ?xs = "live_nodes (m_buckets t ! i) @ replacements (m_buckets t ! i)"
  have b: "bucket_ok t i ?b" using ok(1) assms(4) table_ok_bucket by (simp add: routing_ok_def)
  have c: "content ?b = keys ?xs" by (simp add: content_def keys_simps)
  have "distinct (map entry_id ?xs)"
    by (rule distinct_count) (use b c keys_ids(1) [of ?xs] in \<open>simp add: bucket_ok_def content_ok_def del: map_append mset_map\<close>)
  moreover have "entry_id x \<noteq> nid \<and> find_bucket (entry_id x) t = (i, t)" if "x \<in> set ?xs" for x
  proof -
    have "node_key x \<in># content ?b" unfolding c using that by (rule keys_in)
    then have "entry_id x \<noteq> m_id t \<and> bucket_index t (entry_id x) = i" using b by (auto simp: bucket_ok_def content_ok_def node_key_def)
    then show ?thesis using assms(4) ok(2) by (auto simp: find_bucket_def bucket_index_def Let_def)
  qed
  ultimately show ?thesis using b ok by (simp add: bucket_ok_def routing_ok_def table_ok_def kad_total_bits_def list_all_iff del: map_append)
qed

theorem routing_table_invariant_witness:
  "distinct (map entry_id (live_nodes (m_buckets sample_table ! 1) @ replacements (m_buckets sample_table ! 1)))
    \<and> map entry_id (live_nodes (m_buckets sample_table ! 1)) = [id_of 0x40]"
proof -
  have "length (m_buckets sample_table) = 2" "map entry_id (live_nodes (m_buckets sample_table ! 1)) = [id_of 0x40]" by code_simp+
  then show ?thesis using routing_table_invariant [OF sample_reachable, of 1] by (simp add: id_of_def)
qed

text \<open>
  C14. With \<open>restrict_routing_ips\<close> no two nodes of the whole table share an address, \<open>m_ips\<close> holds
  exactly the addresses of the table, and within a bucket the addresses of two nodes differ above
  their last eight bits.
\<close>

theorem routing_table_one_per_ip:
  assumes "rt_reachable (routing_table_new nid k True fails) t" "length nid = 16" "0 < k"
  shows "distinct (map addr (all_nodes t)) \<and> set (m_ips t) = set (map addr (all_nodes t))
    \<and> list_all (\<lambda>b. \<forall>x \<in> set (live_nodes b @ replacements b). \<forall>y \<in> set (live_nodes b @ replacements b).
        entry_id x \<noteq> entry_id y \<longrightarrow> 8 < cidr_distance (addr x) (addr y)) (m_buckets t)"
proof -
  have ok: "routing_ok t" "restrict_routing_ips t"
    using rt_reachable_ok [OF assms(1) routing_table_new_ok [OF assms(2,3)]] by (simp_all add: same_setup_def routing_table_new_def)
  have ips: "\<forall>a. count (mset (map addr (all_nodes t))) a \<le> 1" "set (m_ips t) = set_mset (mset (map addr (all_nodes t)))"
    using ok unfolding routing_ok_def ips_ok_def table_content_nodes keys_ids(2) by blast+
  have far: "8 < cidr_distance (addr x) (addr y)"
    if b: "b \<in> set (m_buckets t)" and xy: "x \<in> set (live_nodes b @ replacements b)" "y \<in> set (live_nodes b @ replacements b)" "entry_id x \<noteq> entry_id y" for b x y
  proof -
    obtain i where i: "i < length (m_buckets t)" "b = m_buckets t ! i" using b by (auto simp: in_set_conv_nth)
    have "node_key x \<in># content b" "node_key y \<in># content b" using xy keys_in by (auto simp: content_def)
    moreover have "content_ok t i (content b)" using ok(1) i table_ok_bucket [of t i] by (simp add: routing_ok_def bucket_ok_def)
    ultimately have "far_apart (node_key x) (node_key y)" using ok(2) by (simp add: content_ok_def)
    then show ?thesis using xy(3) by (simp add: far_apart_def node_key_def)
  qed
  have "distinct (map addr (all_nodes t))" using ips(1) by (intro distinct_count) blast
  moreover have "set (m_ips t) = set (map addr (all_nodes t))" using ips(2) by (simp only: set_mset_mset)
  ultimately show ?thesis using far unfolding list_all_iff by blast
qed

theorem routing_table_one_per_ip_witness:
  "distinct (map addr (all_nodes sample_table)) \<and> map addr (all_nodes sample_table) = [[10, 0, 0, 1], [20, 0, 0, 1]]"
proof -
  have "map addr (all_nodes sample_table) = [[10, 0, 0, 1], [20, 0, 0, 1]]" by code_simp
  then show ?thesis using routing_table_one_per_ip [OF sample_reachable] by (simp add: id_of_def)
qed

end
