(* ===== verification/Routing_Refresh.thy ===== *)
theory Routing_Refresh
  imports Routing_Props
begin

text \<open>
  Distances and the queries of the routing table: the metric on identifiers, where the target of a
  refresh lies, and what \<open>find_node\<close> returns.
\<close>

section \<open>The bits of an identifier\<close>

text \<open>Bit \<open>k\<close> of an identifier, counted from its most significant bit.\<close>

definition id_bit :: "node_id \<Rightarrow> nat \<Rightarrow> bool" where
  "id_bit n k = bit (n ! (k div 8)) (7 - k mod 8)"

lemma id_bit_Cons: "8 \<le> k \<Longrightarrow> id_bit (b # n) k = id_bit n (k - 8)"
  by (simp add: id_bit_def le_div_geq le_mod_geq)

lemma byte_top_bit:
  assumes "bit (t :: uint8) p" "\<And>q. p < q \<Longrightarrow> \<not> bit t q" "p \<le> 7"
  shows "top_bit 7 t = p"
proof -
  have "odd (unat t div 2 ^ p)" using assms(1) by (simp add: bit_unsigned_iff flip: bit_iff_odd)
  then have "unat t div 2 ^ p \<noteq> 0" by (metis even_zero)
  then have lo: "2 ^ p \<le> unat t" by (simp add: div_eq_0_iff)
  have "take_bit (Suc p) t = t" by (rule bit_eqI) (use assms(2) in \<open>auto simp: bit_take_bit_iff less_Suc_eq_le not_le [symmetric]\<close>)
  then have "take_bit (Suc p) (unat t) = unat t" by (metis unsigned_take_bit_eq)
  then have hi: "unat t < 2 ^ Suc p" by (metis take_bit_nat_less_exp)
  have "0 < unat t" using lo by (metis less_le_trans zero_less_power zero_less_numeral)
  then have t: "2 ^ top_bit 7 t \<le> unat t" "unat t < 2 ^ (top_bit 7 t + 1)"
    using top_bit_val [of t 7] unat_byte [of t] by (simp_all add: word_less_nat_alt)
  have "(2::nat) ^ p < 2 ^ (top_bit 7 t + 1)" "(2::nat) ^ top_bit 7 t < 2 ^ Suc p" using lo hi t by linarith+
  then have "p < top_bit 7 t + 1" "top_bit 7 t < Suc p" by (simp_all only: power_strict_increasing_iff one_less_numeral_iff semiring_norm)
  then show ?thesis by simp
qed

lemma distance_exp_first_bit:
  "length m = length n \<Longrightarrow> k < 8 * length m \<Longrightarrow> (\<And>j. j < k \<Longrightarrow> id_bit m j = id_bit n j) \<Longrightarrow> id_bit m k \<noteq> id_bit n k
    \<Longrightarrow> distance_exp m n = 8 * length m - 1 - k"
proof (induction m n arbitrary: k rule: list_induct2)
  case (Cons a m b n)
  show ?case
  proof (cases "k < 8")
    case True
    have same: "bit a q = bit b q" if "7 - k < q" for q
    proof (cases "q < 8")
      case True
      then show ?thesis using Cons.prems(2) [of "7 - q"] that by (simp add: id_bit_def)
    qed (auto dest: bit_imp_le_length)
    have diff: "bit a (7 - k) \<noteq> bit b (7 - k)" using Cons.prems(3) True by (simp add: id_bit_def)
    have "top_bit 7 (a XOR b) = 7 - k" by (rule byte_top_bit) (use same diff in \<open>auto simp: bit_xor_iff\<close>)
    moreover have "a XOR b \<noteq> 0" using diff by (metis bit_0_eq bit_xor_iff bot_apply bot_bool_def)
    ultimately show ?thesis using True Cons.hyps by (simp add: Let_def)
  next
    case False
    have "bit a q = bit b q" for q
    proof (cases "q < 8")
      case True
      then show ?thesis using Cons.prems(2) [of "7 - q"] False by (simp add: id_bit_def)
    qed (auto dest: bit_imp_le_length)
    then have "a = b" by (simp add: bit_eq_iff)
    moreover have "distance_exp m n = 8 * length m - 1 - (k - 8)"
    proof (rule Cons.IH)
      show "id_bit m j = id_bit n j" if "j < k - 8" for j using Cons.prems(2) [of "j + 8"] that by (simp add: id_bit_Cons)
      show "id_bit m (k - 8) \<noteq> id_bit n (k - 8)" using Cons.prems(3) False by (simp add: id_bit_Cons)
      show "k - 8 < 8 * length m" using Cons.prems(1) False by simp
    qed
    ultimately show ?thesis using False by simp
  qed
qed simp

section \<open>The target of a refresh\<close>

lemma bit_top: "bit (drop_bit r 0x80 :: uint8) p \<longleftrightarrow> p + r = 7"
proof -
  have "(0x80 :: uint8) = 2 ^ 7" by simp
  then show ?thesis by (auto simp only: bit_drop_bit_eq comp_def bit_exp_iff) (auto simp: possible_bit_def)
qed

lemma id_bit_update: "k < 8 * length n \<Longrightarrow> id_bit (n[b := w]) k = (if k div 8 = b then bit w (7 - k mod 8) else id_bit n k)"
  by (auto simp: id_bit_def)

lemma length_refresh_mask: "length (refresh_mask b) = 16"
proof -
  have "length (fold (\<lambda>i mask. mask[i div 8 := f i mask]) is xs) = length xs" for f "is" and xs :: node_id
    by (induction "is" arbitrary: xs) simp_all
  then show ?thesis by (simp add: refresh_mask_def)
qed

lemma id_bit_refresh_mask: "b \<le> 128 \<Longrightarrow> k < 128 \<Longrightarrow> id_bit (refresh_mask b) k \<longleftrightarrow> k < b"
proof (induction b)
  case 0
  then have "k div 8 < 16" by simp
  then show ?case by (simp add: refresh_mask_def id_bit_def nth_replicate)
next
  case (Suc b)
  have step: "refresh_mask (Suc b) = (refresh_mask b)[b div 8 := refresh_mask b ! (b div 8) OR drop_bit (b mod 8) 0x80]"
    by (simp add: refresh_mask_def)
  show ?case
  proof (cases "k div 8 = b div 8")
    case True
    have "7 - k mod 8 + b mod 8 = 7 \<longleftrightarrow> k mod 8 = b mod 8" by auto
    also have "\<dots> \<longleftrightarrow> k = b" using True by (metis div_mult_mod_eq)
    finally have same: "7 - k mod 8 + b mod 8 = 7 \<longleftrightarrow> k = b" .
    have "id_bit (refresh_mask (Suc b)) k \<longleftrightarrow> id_bit (refresh_mask b) k \<or> k = b"
      using Suc.prems True same by (simp add: step id_bit_update length_refresh_mask bit_or_iff bit_top) (simp add: id_bit_def True)
    then show ?thesis using Suc by auto
  next
    case False
    then have "id_bit (refresh_mask (Suc b)) k = id_bit (refresh_mask b) k" using Suc.prems by (simp add: step id_bit_update length_refresh_mask)
    then show ?thesis using Suc False by (auto simp: less_Suc_eq)
  qed
qed

lemma refresh_target_bits:
  assumes "length self = 16" "length rnd = 16" "b < 128" "k < 128"
  shows "id_bit (refresh_target self (Suc b) rnd) k \<longleftrightarrow> (if k < b then id_bit self k else if k = b then \<not> id_bit self k else id_bit rnd k)"
proof -
  define mask where "mask = refresh_mask (Suc b)"
  define u where "u = hash_or (hash_and rnd (hash_not mask)) (hash_and self mask)"
  define m :: uint8 where "m = drop_bit (b mod 8) 0x80"
  have k: "k div 8 < 16" "b div 8 < 16" "7 - k mod 8 < 8" using assms by auto
  have len: "length mask = 16" "length u = 16" by (simp_all add: mask_def u_def length_refresh_mask hash_or_def hash_and_def hash_not_def assms)
  have "id_bit mask k \<longleftrightarrow> k < Suc b" using id_bit_refresh_mask assms by (simp add: mask_def)
  then have u: "id_bit u k \<longleftrightarrow> (if k < Suc b then id_bit self k else id_bit rnd k)"
    using assms k len by (simp add: u_def id_bit_def hash_or_def hash_and_def hash_not_def bit_or_iff bit_and_iff bit_not_iff)
  have target: "refresh_target self (Suc b) rnd = u[b div 8 := u ! (b div 8) AND NOT m OR (NOT (self ! (b div 8)) AND m)]"
    using k len by (simp add: refresh_target_def Let_def mask_def u_def m_def)
  show ?thesis
  proof (cases "k div 8 = b div 8")
    case True
    have "7 - k mod 8 + b mod 8 = 7 \<longleftrightarrow> k mod 8 = b mod 8" by auto
    also have "\<dots> \<longleftrightarrow> k = b" using True by (metis div_mult_mod_eq)
    finally have "bit m (7 - k mod 8) \<longleftrightarrow> k = b" by (simp add: m_def bit_top)
    moreover have "bit (u ! (b div 8)) (7 - k mod 8) = id_bit u k" "bit (self ! (b div 8)) (7 - k mod 8) = id_bit self k"
      by (simp_all add: id_bit_def True)
    ultimately show ?thesis using assms(4) True u k(3)
      by (simp add: target id_bit_update len bit_or_iff bit_and_iff bit_not_iff)
  next
    case False
    then have "k \<noteq> b" by auto
    then show ?thesis using False u assms(4) by (simp add: target id_bit_update len)
  qed
qed

text \<open>
  C39. The target that \<open>need_refresh\<close> makes for a bucket lies in that bucket: it agrees with the own
  identifier in the bits before the number of the bucket and differs in the next one, whatever the
  random identifier is. The assertion of the code holds, and \<open>find_bucket\<close> on the table finds the
  bucket that is to be refreshed.
\<close>

theorem need_refresh_target:
  assumes "rt_reachable (routing_table_new nid k restrict fails) t" "length nid = 16" "0 < k" "length rnd = 16"
    and "need_refresh now rnd t = (Some target, t')" "target \<noteq> nid"
  shows "distance_exp nid target = kad_total_bits - (refresh_bucket t + 1) \<and> fst (find_bucket target t) = refresh_bucket t"
proof -
  have ok: "routing_ok t" "m_id t = nid"
    using rt_reachable_ok [OF assms(1) routing_table_new_ok [OF assms(2,3)]] by (simp_all add: same_setup_def routing_table_new_def)
  let ?i = "refresh_bucket t"
  have ne: "m_buckets t \<noteq> []" and target: "target = refresh_target nid (Suc ?i) rnd"
    using assms(5,6) ok(2) by (auto simp: need_refresh_def Let_def split: if_splits)
  define key where "key = Min (refresh_key ` set (m_buckets t))"
  have "key \<in> refresh_key ` set (m_buckets t)" using ne by (simp add: key_def)
  then obtain b where b: "b \<in> set (m_buckets t)" "refresh_key b = key" by auto
  then have "list_all (\<lambda>b'. refresh_key b \<le> refresh_key b') (m_buckets t)" by (simp add: list_all_iff key_def)
  then have i: "?i < length (m_buckets t)" unfolding refresh_bucket_def by (metis b(1) find_pos_none)
  then have "?i < 128" using ok(1) by (simp add: routing_ok_def table_ok_def kad_total_bits_def)
  note bits = refresh_target_bits [OF assms(2,4) this, folded target]
  have len: "length target = 16"
    using assms(2,4) by (simp add: target refresh_target_def Let_def hash_or_def hash_and_def hash_not_def length_refresh_mask)
  have "distance_exp nid target = 8 * length nid - 1 - ?i"
  proof (rule distance_exp_first_bit)
    show "id_bit nid j = id_bit target j" if "j < ?i" for j using bits [of j] that \<open>?i < 128\<close> by simp
    show "id_bit nid ?i \<noteq> id_bit target ?i" using bits [OF \<open>?i < 128\<close>] by simp
  qed (simp_all add: assms(2) len \<open>?i < 128\<close>)
  then have d: "distance_exp nid target = 127 - ?i" using assms(2) by simp
  then have "127 - distance_exp nid target = ?i" using \<open>?i < 128\<close> by simp
  then show ?thesis using d i ne ok(2) by (auto simp: find_bucket_def kad_total_bits_def)
qed

theorem need_refresh_target_witness:
  "distance_exp (id_of 0) (refresh_target (id_of 0) 2 (replicate 16 0xff)) = 126"
proof -
  define t where "t = snd (need_refresh 2000 (replicate 16 0) sample_table)"
  define target where "target = refresh_target (id_of 0) 2 (replicate 16 0xff)"
  have "fst (need_refresh 2001 (replicate 16 0xff) t) = Some target" "refresh_bucket t = 1" unfolding t_def target_def by code_simp+
  moreover have "target \<noteq> id_of 0" unfolding target_def by code_simp
  moreover have "rt_reachable (routing_table_new (id_of 0) 1 True 20) t"
    unfolding t_def using sample_reachable rt_step.refreshed by (rule rt_reachable.step)
  ultimately have "distance_exp (id_of 0) target = kad_total_bits - (1 + 1)"
    using need_refresh_target [of "id_of 0" 1 True 20 t "replicate 16 0xff" 2001 target "snd (need_refresh 2001 (replicate 16 0xff) t)"]
    by (simp add: id_of_def prod_eq_iff)
  then show ?thesis by (simp add: kad_total_bits_def target_def)
qed

section \<open>The metric\<close>

text \<open>
  C40. \<open>compare_ref\<close> compares the XOR distances to the reference as numbers, and \<open>distance_exp\<close> is the
  exponent that its comment promises: \<open>2\<^sup>n \<le> distance < 2\<^sup>n\<^sup>+\<^sup>1\<close>.
\<close>

theorem node_distance:
  assumes "length n1 = length ref" "length n2 = length ref"
  shows "(compare_ref n1 n2 ref \<longleftrightarrow> hash_val (distance n1 ref) < hash_val (distance n2 ref))
    \<and> (n1 \<noteq> ref \<longrightarrow> 2 ^ distance_exp n1 ref \<le> hash_val (distance n1 ref) \<and> hash_val (distance n1 ref) < 2 ^ (distance_exp n1 ref + 1))"
  using compare_ref_val [OF assms] distance_exp_val [OF assms(1)] by blast

theorem node_distance_witness: "compare_ref [1, 2] [3, 0] [0, 0] \<and> distance_exp [1, 2] [0, 0] = 8"
proof -
  have "distance [1, 2] [0, 0] = [1, 2]" "distance [3, 0] [0, 0] = [3, 0]" "distance_exp [1, 2] [0, 0] = 8" by code_simp+
  then show ?thesis using node_distance [of "[1, 2]" "[0, 0]" "[3, 0]"] by simp
qed

section \<open>The nodes nearest to an identifier\<close>

definition live :: "routing_table_node list \<Rightarrow> node_entry set" where
  "live bs = (\<Union>b \<in> set bs. set (live_nodes b))"

definition found_ok :: "bool \<Rightarrow> nat \<Rightarrow> node_entry set \<Rightarrow> node_entry list \<Rightarrow> bool" where
  "found_ok include_failed c ns l \<longleftrightarrow> length l \<le> c \<and> set l \<subseteq> ns \<and> (include_failed \<or> list_all confirmed l)"

lemma closer_buckets_ok: "found_ok f c ns l \<Longrightarrow> live bs \<subseteq> ns \<Longrightarrow> found_ok f c ns (closer_buckets f c bs l)"
proof (induction f c bs l rule: closer_buckets.induct)
  case (2 f c b bs l)
  let ?first = "take (min (c - length l) (length (live_nodes b))) (live_nodes b)"
  have "set ?first \<subseteq> ns" using 2(3) set_take_subset [of _ "live_nodes b"] unfolding live_def by fastforce
  moreover have "length (if f then ?first else filter confirmed ?first) \<le> c - length l"
    by (cases f) (simp_all add: le_trans [OF length_filter_le])
  ultimately have "found_ok f c ns (l @ (if f then ?first else filter confirmed ?first))" using 2(2)
    by (auto simp: found_ok_def list_all_iff split: if_splits)
  then show ?case using 2 by (auto simp: Let_def live_def)
qed simp

lemma further_buckets_ok: "found_ok f c ns l \<Longrightarrow> live bs \<subseteq> ns \<Longrightarrow> found_ok f c ns (further_buckets f c bs l)"
proof (induction f c bs l rule: further_buckets.induct)
  case (2 f c b bs l)
  let ?n = "min (c - length l) (length (live_nodes b))"
  let ?new = "if f then take ?n (live_nodes b) else copy_if_n confirmed ?n (live_nodes b)"
  have "set ?new \<subseteq> set (live_nodes b)" using set_take_subset [of ?n "live_nodes b"] set_take_subset [of ?n "filter confirmed (live_nodes b)"]
    by (auto simp: copy_if_n_def)
  then have "set ?new \<subseteq> ns" using 2(3) unfolding live_def by fastforce
  moreover have "length ?new \<le> c - length l" by (auto simp: copy_if_n_def)
  moreover have "f \<or> list_all confirmed ?new" using set_take_subset [of ?n "filter confirmed (live_nodes b)"] by (auto simp: copy_if_n_def list_all_iff)
  ultimately have "found_ok f c ns (l @ ?new)" using 2(2) by (auto simp: found_ok_def split: if_splits)
  then show ?case using 2 by (auto simp: Let_def live_def)
qed simp

lemma find_node_ok:
  assumes "find_node target f c t = (l, t')"
  shows "found_ok f (if c = 0 then m_bucket_size t else c) (live (m_buckets t')) l"
proof -
  obtain i u where fb: "find_bucket target t = (i, u)" by (cases "find_bucket target t")
  define n where "n = (if c = 0 then m_bucket_size t else c)"
  define b where "b = live_nodes (m_buckets u ! i)"
  define first where "first = (if f then take (min n (length b)) b else copy_if_n confirmed (min n (length b)) b)"
  have "m_buckets u \<noteq> []" using fb by (auto simp: find_bucket_def Let_def split: if_splits)
  then have "i < length (m_buckets u)" using fb by (auto simp: find_bucket_def Let_def min_less_iff_disj split: if_splits)
  then have b: "set b \<subseteq> live (m_buckets u)" unfolding b_def live_def using nth_mem by blast
  have "set first \<subseteq> set b" "f \<or> list_all confirmed first" using set_take_subset [of _ b] set_take_subset [of _ "filter confirmed b"]
    by (auto simp: first_def copy_if_n_def list_all_iff)
  moreover have "length first \<le> n" by (auto simp: first_def copy_if_n_def)
  ultimately have l0: "found_ok f n (live (m_buckets u)) first" using b by (auto simp: found_ok_def)
  have sub: "live (drop (i + 1) (m_buckets u)) \<subseteq> live (m_buckets u)" "live (rev (take i (m_buckets u))) \<subseteq> live (m_buckets u)"
    by (auto simp: live_def dest: in_set_dropD in_set_takeD)
  note l1 = closer_buckets_ok [OF l0 sub(1)]
  note l2 = further_buckets_ok [OF l1 sub(2)]
  have "(l, t') = (if n \<le> length first then (first, u) else let l = closer_buckets f n (drop (i + 1) (m_buckets u)) first
    in if n \<le> length l then (l, u) else (further_buckets f n (rev (take i (m_buckets u))) l, u))"
    using assms [symmetric] unfolding find_node_def fb n_def b_def first_def Let_def prod.case .
  then show ?thesis using l0 l1 l2 unfolding n_def [symmetric] by (auto simp: Let_def split: if_splits)
qed

end
