(* ===== verification/Escape.thy ===== *)
theory Escape
  imports Ed2k_Prelude
begin

text \<open>
  The encodings of \<open>escape_string.cpp\<close>: percent escapes, hexadecimal, base32 and base64. Strings are
  lists of bytes; a literal is written with its characters.
\<close>

section \<open>Literals and bytes\<close>

definition lit :: "string \<Rightarrow> uint8 list" where
  "lit = map of_char"

text \<open>A statement about all bytes is decided by running through them.\<close>

lemma all_bytes: "list_all P (map word_of_nat [0..<256]) \<Longrightarrow> P (b :: uint8)"
proof -
  assume "list_all P (map word_of_nat [0..<256] :: uint8 list)"
  moreover have "b = word_of_nat (unat b)" "unat b < 256" using unsigned_less [of b, where ?'a = nat] by simp_all
  ultimately show ?thesis unfolding list_all_iff by (metis atLeastLessThan_iff image_eqI list.set_map set_upt zero_le)
qed

section \<open>Percent escapes\<close>

definition hex_chars :: "uint8 list" where
  "hex_chars = lit ''0123456789abcdef''"

definition unreserved_chars :: "uint8 list" where
  "unreserved_chars = lit (''%+'' @ '';?:@=&,$/'' @ ''-_!.~*()'' @ ''ABCDEFGHIJKLMNOPQRSTUVWXYZabcdefghijklmnopqrstuvwxyz'' @ ''0123456789'')"

definition hex_to_int :: "uint8 \<Rightarrow> int" where
  "hex_to_int c = (if 0x30 \<le> c \<and> c \<le> 0x39 then uint c - 0x30
    else if 0x41 \<le> c \<and> c \<le> 0x46 then uint c - 0x41 + 10
    else if 0x61 \<le> c \<and> c \<le> 0x66 then uint c - 0x61 + 10 else - 1)"

definition escape_char :: "nat \<Rightarrow> uint8 \<Rightarrow> uint8 list" where
  "escape_char offset c = (if c \<in> set (drop offset unreserved_chars) \<and> c \<noteq> 0 then [c]
    else [0x25, hex_chars ! unat (drop_bit 4 c), hex_chars ! unat (c AND 15)])"

definition escape_string_impl :: "uint8 list \<Rightarrow> nat \<Rightarrow> uint8 list" where
  "escape_string_impl str offset = concat (map (escape_char offset) str)"

definition escape_string :: "uint8 list \<Rightarrow> uint8 list" where
  "escape_string str = escape_string_impl str 11"

definition escape_path :: "uint8 list \<Rightarrow> uint8 list" where
  "escape_path str = escape_string_impl str 10"

definition need_encoding :: "uint8 list \<Rightarrow> bool" where
  "need_encoding str = list_ex (\<lambda>c. c \<notin> set unreserved_chars \<or> c = 0) str"

text \<open>The result so far and whether the error code was set.\<close>

fun unescape_from :: "uint8 list \<Rightarrow> uint8 list \<Rightarrow> uint8 list \<times> bool" where
  "unescape_from ret [] = (ret, False)"
| "unescape_from ret (c # s) =
    (if c = 0x2B then unescape_from (ret @ [0x20]) s
     else if c \<noteq> 0x25 then unescape_from (ret @ [c]) s
     else case s of
         [] \<Rightarrow> (ret, True)
       | h # s' \<Rightarrow> (let high = hex_to_int h in if high = - 1 then (ret, True)
           else case s' of
               [] \<Rightarrow> (ret, True)
             | l # s'' \<Rightarrow> (let low = hex_to_int l in if low = - 1 then (ret, True)
                 else unescape_from (ret @ [word_of_int (high * 16 + low)]) s'')))"

definition unescape_string :: "uint8 list \<Rightarrow> uint8 list \<times> bool" where
  "unescape_string s = unescape_from [] s"

definition convert_path_to_posix :: "uint8 list \<Rightarrow> uint8 list" where
  "convert_path_to_posix path = map (\<lambda>c. if c = 0x5C then 0x2F else c) path"

definition read_until :: "uint8 \<Rightarrow> uint8 list \<Rightarrow> uint8 list \<times> uint8 list" where
  "read_until delim str = (takeWhile (\<lambda>c. c \<noteq> delim) str, dropWhile (\<lambda>c. c = delim) (dropWhile (\<lambda>c. c \<noteq> delim) str))"

section \<open>Hexadecimal\<close>

definition to_hex :: "uint8 list \<Rightarrow> uint8 list" where
  "to_hex s = concat (map (\<lambda>c. [hex_chars ! unat (drop_bit 4 c), hex_chars ! unat (c AND 0xf)]) s)"

definition is_hex :: "uint8 list \<Rightarrow> bool" where
  "is_hex s = list_all (\<lambda>c. hex_to_int c \<noteq> - 1) s"

text \<open>
  The result and the bytes written to \<open>out\<close>. Of an input of odd length the byte behind it, \<open>past\<close>, is
  read as well.
\<close>

fun from_hex :: "uint8 \<Rightarrow> uint8 list \<Rightarrow> bool \<times> uint8 list" where
  "from_hex past [] = (True, [])"
| "from_hex past [x] =
    (let t = hex_to_int x; u = hex_to_int past in
     if t = - 1 then (False, [])
     else if u = - 1 then (False, [push_bit 4 (word_of_int t)])
     else (True, [push_bit 4 (word_of_int t) OR (word_of_int u AND 15)]))"
| "from_hex past (x # y # s) =
    (let t = hex_to_int x; u = hex_to_int y in
     if t = - 1 then (False, [])
     else if u = - 1 then (False, [push_bit 4 (word_of_int t)])
     else let (ok, out) = from_hex past s in (ok, (push_bit 4 (word_of_int t) OR (word_of_int u AND 15)) # out))"

section \<open>base32 and base64\<close>

definition base32_table :: "uint8 list" where
  "base32_table = lit ''ABCDEFGHIJKLMNOPQRSTUVWXYZ234567''"

definition base64_table :: "uint8 list" where
  "base64_table = lit ''ABCDEFGHIJKLMNOPQRSTUVWXYZabcdefghijklmnopqrstuvwxyz0123456789+/''"

text \<open>The input buffer of a round: what is left of the input, at most \<open>n\<close> bytes, filled up with zeros.\<close>

definition inbuf :: "nat \<Rightarrow> uint8 list \<Rightarrow> uint8 list" where
  "inbuf n s = take n s @ replicate (n - length s) 0"

definition base32_out :: "uint8 list \<Rightarrow> uint8 list" where
  "base32_out b = [
    drop_bit 3 (b ! 0 AND 0xf8),
    push_bit 2 (b ! 0 AND 0x07) OR drop_bit 6 (b ! 1 AND 0xc0),
    drop_bit 1 (b ! 1 AND 0x3e),
    push_bit 4 (b ! 1 AND 0x01) OR drop_bit 4 (b ! 2 AND 0xf0),
    push_bit 1 (b ! 2 AND 0x0f) OR drop_bit 7 (b ! 3 AND 0x80),
    drop_bit 2 (b ! 3 AND 0x7c),
    push_bit 3 (b ! 3 AND 0x03) OR drop_bit 5 (b ! 4 AND 0xe0),
    b ! 4 AND 0x1f]"

function base32encode :: "uint8 list \<Rightarrow> uint8 list" where
  "base32encode s =
    (if s = [] then []
     else let num_out = [0, 2, 4, 5, 7, 8] ! min 5 (length s)
          in take num_out (map (\<lambda>v. base32_table ! unat v) (base32_out (inbuf 5 s))) @ replicate (8 - num_out) 0x3D
             @ base32encode (drop 5 s))"
  by pat_completeness auto
termination
  by (relation "measure length") auto

declare base32encode.simps [simp del]

definition toupper :: "uint8 \<Rightarrow> uint8" where
  "toupper c = (if 0x61 \<le> c \<and> c \<le> 0x7A then c - 0x20 else c)"

definition base32_value :: "uint8 \<Rightarrow> uint8 option" where
  "base32_value c = (let i = toupper c in
    if 0x41 \<le> i \<and> i \<le> 0x5A then Some (i - 0x41)
    else if 0x32 \<le> i \<and> i \<le> 0x37 then Some (i - 0x32 + (0x5A - 0x41) + 1)
    else if i = 0x3D then Some 0
    else if i = 0x31 then Some (0x49 - 0x41)
    else None)"

text \<open>
  The position of the first padding character after the first character of a round, 0 if there is
  none; of a short round its length.
\<close>

definition pad_start :: "uint8 list \<Rightarrow> nat" where
  "pad_start s = (if length s < 8 then length s
    else fold (\<lambda>j p. if toupper (s ! j) = 0x3D \<and> p = 0 then j else p) [0..<8] 0)"

definition base32_in :: "uint8 list \<Rightarrow> uint8 list" where
  "base32_in b = [
    push_bit 3 (b ! 0) OR drop_bit 2 (b ! 1),
    push_bit 6 (b ! 1 AND 0x3) OR push_bit 1 (b ! 2) OR drop_bit 4 (b ! 3 AND 0x10),
    push_bit 4 (b ! 3 AND 0x0f) OR drop_bit 1 (b ! 4 AND 0x1e),
    push_bit 7 (b ! 4 AND 0x01) OR push_bit 2 (b ! 5 AND 0x1f) OR drop_bit 3 (b ! 6 AND 0x18),
    push_bit 5 (b ! 6 AND 0x07) OR b ! 7]"

text \<open>An invalid character makes the whole result empty: \<open>None\<close> here, the empty string in \<open>base32decode\<close>.\<close>

function base32decode_from :: "uint8 list \<Rightarrow> uint8 list option" where
  "base32decode_from s =
    (if s = [] then Some []
     else if list_ex (\<lambda>c. base32_value c = None) (take 8 s) then None
     else let num_out = [5, 1, 1, 2, 2, 3, 4, 4, 5] ! pad_start s;
              out = take num_out (base32_in (inbuf 8 (map (\<lambda>c. the (base32_value c)) (take 8 s))))
          in map_option (\<lambda>r. out @ r) (base32decode_from (drop 8 s)))"
  by pat_completeness auto
termination
  by (relation "measure length") auto

declare base32decode_from.simps [simp del]

definition base32decode :: "uint8 list \<Rightarrow> uint8 list" where
  "base32decode s = (case base32decode_from s of None \<Rightarrow> [] | Some r \<Rightarrow> r)"

definition base64_out :: "uint8 list \<Rightarrow> uint8 list" where
  "base64_out b = [
    drop_bit 2 (b ! 0 AND 0xfc),
    push_bit 4 (b ! 0 AND 0x03) OR drop_bit 4 (b ! 1 AND 0xf0),
    push_bit 2 (b ! 1 AND 0x0f) OR drop_bit 6 (b ! 2 AND 0xc0),
    b ! 2 AND 0x3f]"

function base64encode :: "uint8 list \<Rightarrow> uint8 list" where
  "base64encode s =
    (if s = [] then []
     else let available_input = min 3 (length s)
          in take (available_input + 1) (map (\<lambda>v. base64_table ! unat v) (base64_out (inbuf 3 s))) @ replicate (3 - available_input) 0x3D
             @ base64encode (drop 3 s))"
  by pat_completeness auto
termination
  by (relation "measure length") auto

declare base64encode.simps [simp del]

section \<open>Round trips\<close>

lemma hex_digits: "v < 16 \<Longrightarrow> hex_to_int (hex_chars ! v) = int v"
proof -
  have "list_all (\<lambda>v. hex_to_int (hex_chars ! v) = int v) [0..<16]" by code_simp
  then show "v < 16 \<Longrightarrow> hex_to_int (hex_chars ! v) = int v" by (simp add: list_all_iff)
qed

lemma nibbles:
  fixes c :: uint8
  shows "unat (drop_bit 4 c) = unat c div 16" "unat (c AND 15) = unat c mod 16" "unat c div 16 < 16"
proof -
  have c: "unat c < 256" using unsigned_less [of c, where ?'a = nat] by simp
  then show "unat (drop_bit 4 c) = unat c div 16" by (subst unsigned_drop_bit_eq) (simp add: drop_bit_eq_div take_bit_nat_eq_self)
  have "c AND 15 = take_bit 4 c" by (simp add: take_bit_eq_mask mask_eq_exp_minus_1)
  then show "unat (c AND 15) = unat c mod 16" by (simp only: unsigned_take_bit_eq) (simp add: take_bit_eq_mod)
  show "unat c div 16 < 16" using c by simp
qed

lemma byte_eqI: "(\<And>n. n \<in> {0, 1, 2, 3, 4, 5, 6, 7} \<Longrightarrow> bit (x :: uint8) n = bit y n) \<Longrightarrow> x = y"
  by (rule bit_eqI) (auto simp: numeral_eq_Suc less_Suc_eq possible_bit_def)

lemma escape_byte:
  fixes c :: uint8
  shows "hex_to_int (hex_chars ! unat (drop_bit 4 c)) = int (unat c div 16)" "hex_to_int (hex_chars ! unat (c AND 15)) = int (unat c mod 16)"
    and "word_of_int (int (unat c div 16) * 16 + int (unat c mod 16)) = c"
    and "push_bit 4 (word_of_int (int (unat c div 16))) OR (word_of_int (int (unat c mod 16)) AND 15) = c"
proof -
  show "hex_to_int (hex_chars ! unat (drop_bit 4 c)) = int (unat c div 16)" "hex_to_int (hex_chars ! unat (c AND 15)) = int (unat c mod 16)"
    using nibbles [of c] by (simp_all add: hex_digits)
  have "int (unat c div 16) * 16 + int (unat c mod 16) = int (unat c)"
    using div_mult_mod_eq [of "unat c" 16] by (metis of_nat_add of_nat_mult of_nat_numeral)
  then have "int (unat c div 16) * 16 + int (unat c mod 16) = uint c" by (simp only: uint_nat)
  then show "word_of_int (int (unat c div 16) * 16 + int (unat c mod 16)) = c" by simp
  have "(word_of_int (int (unat c div 16)) :: uint8) = drop_bit 4 c" "(word_of_int (int (unat c mod 16)) :: uint8) = c AND 15"
    unfolding nibbles(1,2) [symmetric] by simp_all
  then show "push_bit 4 (word_of_int (int (unat c div 16))) OR (word_of_int (int (unat c mod 16)) AND 15) = c"
    by (simp only:) (rule byte_eqI, auto simp: bit_simps)
qed

lemma plus_percent_reserved: "0x2B \<notin> set (drop 10 unreserved_chars)" "0x25 \<notin> set (drop 10 unreserved_chars)"
  "0x2B \<notin> set (drop 11 unreserved_chars)" "0x25 \<notin> set (drop 11 unreserved_chars)"
  by code_simp+

lemma unescape_escape:
  assumes "0x2B \<notin> set (drop offset unreserved_chars)" "0x25 \<notin> set (drop offset unreserved_chars)"
  shows "unescape_from ret (escape_string_impl s offset) = (ret @ s, False)"
proof (induction s arbitrary: ret)
  case (Cons c s)
  show ?case
  proof (cases "c \<in> set (drop offset unreserved_chars) \<and> c \<noteq> 0")
    case True
    then have "c \<noteq> 0x2B" "c \<noteq> 0x25" using assms by auto
    then show ?thesis using True Cons by (simp add: escape_string_impl_def escape_char_def)
  next
    case False
    then have "escape_string_impl (c # s) offset = [0x25, hex_chars ! unat (drop_bit 4 c), hex_chars ! unat (c AND 15)] @ escape_string_impl s offset"
      unfolding escape_string_impl_def escape_char_def by simp
    then show ?thesis using Cons by (simp add: Let_def escape_byte(1,2)) (use escape_byte(3) [of c] in simp)
  qed
qed (simp add: escape_string_impl_def)

lemma from_to_hex: "from_hex past (to_hex s) = (True, s)"
proof (induction s)
  case (Cons c s)
  have "to_hex (c # s) = hex_chars ! unat (drop_bit 4 c) # hex_chars ! unat (c AND 0xf) # to_hex s" by (simp add: to_hex_def)
  then show ?case using Cons by (simp add: Let_def escape_byte(1,2)) (use escape_byte(4) [of c] in simp)
qed (simp add: to_hex_def)

lemma base32_table_value:
  "v < 32 \<Longrightarrow> base32_value (base32_table ! v) = Some (word_of_nat v) \<and> toupper (base32_table ! v) \<noteq> 0x3D"
proof -
  have "list_all (\<lambda>v. base32_value (base32_table ! v) = Some (word_of_nat v) \<and> toupper (base32_table ! v) \<noteq> 0x3D) [0..<32]" by code_simp
  then show "v < 32 \<Longrightarrow> base32_value (base32_table ! v) = Some (word_of_nat v) \<and> toupper (base32_table ! v) \<noteq> 0x3D" by (simp add: list_all_iff)
qed

lemma pad_value: "base32_value 0x3D = Some 0" "toupper 0x3D = 0x3D"
  by code_simp+

lemma decode_block:
  assumes "length out = 8" "list_all (\<lambda>v. unat v < 32) out" "n \<in> {2, 4, 5, 7, 8}" "drop n out = replicate (8 - n) 0"
  shows "base32decode_from (take n (map (\<lambda>v. base32_table ! unat v) out) @ replicate (8 - n) 0x3D @ rest) =
    map_option (\<lambda>r. take ([5, 1, 1, 2, 2, 3, 4, 4, 5] ! (if n = 8 then 0 else n)) (base32_in out) @ r) (base32decode_from rest)"
proof -
  define B where "B = take n (map (\<lambda>v. base32_table ! unat v) out) @ replicate (8 - n) 0x3D"
  have n: "n \<le> 8" "2 \<le> n" using assms(3) by auto
  have len: "length B = 8" using assms(1) n by (simp add: B_def)
  have at: "B ! j = (if j < n then base32_table ! unat (out ! j) else 0x3D)" if "j < 8" for j
    using that assms(1) n by (simp add: B_def nth_append)
  have lt: "unat (out ! j) < 32" if "j < 8" for j using assms(1,2) that by (simp add: list_all_length)
  have zero: "out ! j = 0" if "j < 8" "n \<le> j" for j
  proof -
    have "out ! j = drop n out ! (j - n)" using that assms(1) n by simp
    then show ?thesis using that by (simp add: assms(4))
  qed
  have val: "base32_value (B ! j) = Some (out ! j)" "toupper (B ! j) = 0x3D \<longleftrightarrow> n \<le> j" if "j < 8" for j
    using that at [OF that] base32_table_value [OF lt [OF that]] zero [OF that] pad_value by auto
  have vals: "map (\<lambda>c. the (base32_value c)) B = out"
    by (rule nth_equalityI) (simp_all add: len assms(1) val)
  have ok: "\<not> list_ex (\<lambda>c. base32_value c = None) B" using val(1) len by (auto simp: list_ex_length)
  have pad: "pad_start (B @ rest) = (if n = 8 then 0 else n)"
  proof -
    have "toupper ((B @ rest) ! j) = 0x3D \<longleftrightarrow> n \<le> j" if "j < 8" for j using val(2) [OF that] len that by (simp add: nth_append)
    moreover have "[0..<8] = [0, 1, 2, 3, 4, 5, 6, 7::nat]" by (simp add: upt_rec)
    ultimately show ?thesis using assms(3) len by (auto simp: pad_start_def)
  qed
  have "inbuf 8 out = out" using assms(1) by (simp add: inbuf_def)
  then show ?thesis using ok vals pad len by (subst append_assoc [symmetric], subst B_def [symmetric], subst base32decode_from.simps) (auto simp: Let_def)
qed

lemma five_bits: "v AND 0x1f = (v :: uint8) \<Longrightarrow> unat v < 32"
proof -
  have "v AND 0x1f = take_bit 5 v" by (simp add: take_bit_eq_mask mask_eq_exp_minus_1)
  then have "unat (v AND 0x1f) = take_bit 5 (unat v)" by (simp only: unsigned_take_bit_eq)
  then show "v AND 0x1f = v \<Longrightarrow> unat v < 32" using take_bit_nat_less_exp [of 5 "unat v"] by simp
qed

lemma base32_out_small: "list_all (\<lambda>v. unat v < 32) (base32_out b)"
proof -
  have "drop_bit 3 (x AND 0xf8) AND 0x1f = drop_bit 3 (x AND 0xf8)" "drop_bit 1 (x AND 0x3e) AND 0x1f = drop_bit 1 (x AND 0x3e)"
    "drop_bit 2 (x AND 0x7c) AND 0x1f = drop_bit 2 (x AND 0x7c)" "(x AND 0x1f) AND 0x1f = x AND 0x1f"
    "(push_bit 2 (x AND 0x07) OR drop_bit 6 (y AND 0xc0)) AND 0x1f = push_bit 2 (x AND 0x07) OR drop_bit 6 (y AND 0xc0)"
    "(push_bit 4 (x AND 0x01) OR drop_bit 4 (y AND 0xf0)) AND 0x1f = push_bit 4 (x AND 0x01) OR drop_bit 4 (y AND 0xf0)"
    "(push_bit 1 (x AND 0x0f) OR drop_bit 7 (y AND 0x80)) AND 0x1f = push_bit 1 (x AND 0x0f) OR drop_bit 7 (y AND 0x80)"
    "(push_bit 3 (x AND 0x03) OR drop_bit 5 (y AND 0xe0)) AND 0x1f = push_bit 3 (x AND 0x03) OR drop_bit 5 (y AND 0xe0)" for x y :: uint8
    by (rule byte_eqI; auto simp only: bit_simps; simp add: bit_simps)+
  then show ?thesis unfolding base32_out_def by (simp only: list_all_iff ball_simps list.set Set.ball_simps) (blast intro: five_bits)
qed

lemma nth_block:
  "[a, b, c, d, e] ! 0 = a" "[a, b, c, d, e] ! 1 = b" "[a, b, c, d, e] ! 2 = c" "[a, b, c, d, e] ! 3 = d" "[a, b, c, d, e] ! 4 = e"
  "[p, q, r, s, t, u, v, w] ! 0 = p" "[p, q, r, s, t, u, v, w] ! 1 = q" "[p, q, r, s, t, u, v, w] ! 2 = r" "[p, q, r, s, t, u, v, w] ! 3 = s"
  "[p, q, r, s, t, u, v, w] ! 4 = t" "[p, q, r, s, t, u, v, w] ! 5 = u" "[p, q, r, s, t, u, v, w] ! 6 = v" "[p, q, r, s, t, u, v, w] ! 7 = w"
  by simp_all

lemma base32_in_out: "base32_in (base32_out [a, b, c, d, e]) = [a, b, c, d, e]"
proof -
  have "push_bit 3 (drop_bit 3 (a AND 0xf8)) OR drop_bit 2 (push_bit 2 (a AND 0x07) OR drop_bit 6 (b AND 0xc0)) = a"
    by (rule byte_eqI) (auto simp: bit_simps simp del: push_bit_Suc drop_bit_Suc)
  moreover have "push_bit 6 ((push_bit 2 (a AND 0x07) OR drop_bit 6 (b AND 0xc0)) AND 0x3) OR push_bit 1 (drop_bit 1 (b AND 0x3e))
      OR drop_bit 4 ((push_bit 4 (b AND 0x01) OR drop_bit 4 (c AND 0xf0)) AND 0x10) = b"
    by (rule byte_eqI) (auto simp: bit_simps simp del: push_bit_Suc drop_bit_Suc, simp_all add: numeral_2_eq_2 numeral_3_eq_3)
  moreover have "push_bit 4 ((push_bit 4 (b AND 0x01) OR drop_bit 4 (c AND 0xf0)) AND 0x0f)
      OR drop_bit 1 ((push_bit 1 (c AND 0x0f) OR drop_bit 7 (d AND 0x80)) AND 0x1e) = c"
    by (rule byte_eqI) (auto simp: bit_simps simp del: push_bit_Suc drop_bit_Suc)
  moreover have "push_bit 7 ((push_bit 1 (c AND 0x0f) OR drop_bit 7 (d AND 0x80)) AND 0x01) OR push_bit 2 (drop_bit 2 (d AND 0x7c) AND 0x1f)
      OR drop_bit 3 ((push_bit 3 (d AND 0x03) OR drop_bit 5 (e AND 0xe0)) AND 0x18) = d"
    by (rule byte_eqI) (auto simp: bit_simps simp del: push_bit_Suc drop_bit_Suc, simp_all add: numeral_2_eq_2 numeral_3_eq_3)
  moreover have "push_bit 5 ((push_bit 3 (d AND 0x03) OR drop_bit 5 (e AND 0xe0)) AND 0x07) OR (e AND 0x1f) = e"
    by (rule byte_eqI) (auto simp: bit_simps simp del: push_bit_Suc drop_bit_Suc)
  ultimately show ?thesis unfolding base32_in_def base32_out_def nth_block by (simp only:)
qed

lemma inbuf_cases:
  assumes "s \<noteq> []"
  shows "\<exists>a b c d e. inbuf 5 s = [a, b, c, d, e] \<and> (length s < 2 \<longrightarrow> b = 0) \<and> (length s < 3 \<longrightarrow> c = 0) \<and> (length s < 4 \<longrightarrow> d = 0) \<and> (length s < 5 \<longrightarrow> e = 0)"
proof -
  have "length (inbuf 5 s) = 5" by (simp add: inbuf_def)
  then have "inbuf 5 s = map ((!) (inbuf 5 s)) [0..<5]" by (metis map_nth)
  also have "[0..<5] = [0, 1, 2, 3, 4::nat]" by (simp add: upt_rec)
  finally have "inbuf 5 s = [inbuf 5 s ! 0, inbuf 5 s ! 1, inbuf 5 s ! 2, inbuf 5 s ! 3, inbuf 5 s ! 4]" by (simp only: list.map)
  moreover have "inbuf 5 s ! j = 0" if "length s < Suc j" "j < 5" for j using that by (simp add: inbuf_def nth_append)
  from this [of 1] this [of 2] this [of 3] this [of 4]
  have "(length s < 2 \<longrightarrow> inbuf 5 s ! 1 = 0) \<and> (length s < 3 \<longrightarrow> inbuf 5 s ! 2 = 0) \<and> (length s < 4 \<longrightarrow> inbuf 5 s ! 3 = 0) \<and> (length s < 5 \<longrightarrow> inbuf 5 s ! 4 = 0)"
    by simp
  ultimately show ?thesis by blast
qed

lemma base32_step:
  assumes "s \<noteq> []"
  shows "base32decode_from (base32encode s) = map_option (\<lambda>r. take 5 s @ r) (base32decode_from (base32encode (drop 5 s)))"
proof -
  define k where "k = min 5 (length s)"
  define n :: nat where "n = [0, 2, 4, 5, 7, 8] ! k"
  have "0 < k" "k \<le> 5" using assms by (simp_all add: k_def)
  then consider "k = 1" | "k = 2" | "k = 3" | "k = 4" | "k = 5" by linarith
  note k = this
  obtain a b c d e where blk: "inbuf 5 s = [a, b, c, d, e]"
    and z: "length s < 2 \<longrightarrow> b = 0" "length s < 3 \<longrightarrow> c = 0" "length s < 4 \<longrightarrow> d = 0" "length s < 5 \<longrightarrow> e = 0"
    using inbuf_cases [OF assms] by blast
  have n: "n \<in> {2, 4, 5, 7, 8}" "[5, 1, 1, 2, 2, 3, 4, 4, 5] ! (if n = 8 then 0 else n) = k" by (cases rule: k; simp add: n_def)+
  have tail: "drop n (base32_out (inbuf 5 s)) = replicate (8 - n) 0"
    using z unfolding blk by (cases rule: k) (simp_all add: n_def base32_out_def k_def min_def eval_simps split: if_splits)
  have enc: "base32encode s = take n (map (\<lambda>v. base32_table ! unat v) (base32_out (inbuf 5 s))) @ replicate (8 - n) 0x3D @ base32encode (drop 5 s)"
    using assms by (subst base32encode.simps) (simp add: Let_def n_def k_def)
  have "base32_in (base32_out (inbuf 5 s)) = inbuf 5 s" by (simp only: blk base32_in_out)
  then have "take k (base32_in (base32_out (inbuf 5 s))) = take 5 s" by (simp add: inbuf_def k_def min_def)
  moreover have "length (base32_out (inbuf 5 s)) = 8" by (simp add: base32_out_def)
  ultimately show ?thesis unfolding enc using decode_block [OF _ base32_out_small n(1) tail] n(2) by simp
qed

lemma base32_roundtrip: "base32decode_from (base32encode s) = Some s"
proof (induction s rule: length_induct)
  case (1 s)
  show ?case
  proof (cases "s = []")
    case True
    then show ?thesis by (simp add: base32encode.simps base32decode_from.simps)
  next
    case False
    then show ?thesis using 1 base32_step [OF False] by simp
  qed
qed

lemma length_base64encode: "length (base64encode s) = 4 * ((length s + 2) div 3)"
proof (induction s rule: base64encode.induct)
  case (1 s)
  show ?case
  proof (cases "3 \<le> length s")
    case True
    then have "(length s + 2) div 3 = Suc ((length s - 3 + 2) div 3)" by (simp add: le_div_geq)
    then show ?thesis using 1 True by (subst base64encode.simps) (auto simp: base64_out_def)
  next
    case False
    then have "length s = 0 \<or> length s = 1 \<or> length s = 2" by linarith
    then show ?thesis by (subst base64encode.simps) (auto simp: base64_out_def base64encode.simps [of "[]"])
  qed
qed

text \<open>
  C29. The encodings are undone by their decoders on every string of bytes: \<open>unescape_string\<close> gives
  back what \<open>escape_string\<close> and \<open>escape_path\<close> escaped, without an error, \<open>from_hex\<close> what \<open>to_hex\<close> wrote,
  whatever byte follows, and \<open>base32decode\<close> what \<open>base32encode\<close> encoded, through the padding of the last
  group.
\<close>

theorem encodings_roundtrip:
  "unescape_string (escape_string s) = (s, False) \<and> unescape_string (escape_path s) = (s, False)
    \<and> from_hex past (to_hex s) = (True, s) \<and> base32decode (base32encode s) = s"
  using unescape_escape [OF plus_percent_reserved(3,4), of "[]" s] unescape_escape [OF plus_percent_reserved(1,2), of "[]" s]
  by (simp add: unescape_string_def escape_string_def escape_path_def from_to_hex base32decode_def base32_roundtrip)

end
