(* ===== verification/Bencode.thy ===== *)
theory Bencode
  imports Ed2k_Prelude "HOL-Library.List_Lexorder"
begin

text \<open>
  Bencoded values, in which resume data is stored: the variant type \<open>entry\<close> (\<open>entry.hpp\<close>,
  \<open>entry.cpp\<close>) and its encoder and decoder (\<open>bencode.hpp\<close>). Strings are lists of bytes. A
  dictionary, in the code a \<open>std::map\<close>, is the list of its pairs in the order of the keys. Decoding an
  encoded value gives it back.
\<close>

section \<open>Characters and numbers\<close>

type_synonym bstring = "uint8 list"

abbreviation ch_d :: uint8 where "ch_d \<equiv> 0x64"
abbreviation ch_e :: uint8 where "ch_e \<equiv> 0x65"
abbreviation ch_i :: uint8 where "ch_i \<equiv> 0x69"
abbreviation ch_l :: uint8 where "ch_l \<equiv> 0x6C"
abbreviation ch_colon :: uint8 where "ch_colon \<equiv> 0x3A"
abbreviation ch_minus :: uint8 where "ch_minus \<equiv> 0x2D"
abbreviation ch_plus :: uint8 where "ch_plus \<equiv> 0x2B"

definition is_digit :: "uint8 \<Rightarrow> bool" where
  "is_digit c = (0x30 \<le> c \<and> c \<le> 0x39)"

definition isspace :: "uint8 \<Rightarrow> bool" where
  "isspace c = (c = 0x20 \<or> 9 \<le> c \<and> c \<le> 13)"

text \<open>The value of a string of digits.\<close>

definition digits_value :: "bstring \<Rightarrow> int" where
  "digits_value ds = foldl (\<lambda>v d. v * 10 + (uint d - 0x30)) 0 ds"

text \<open>
  \<open>strtoll\<close> of the standard library on a string with its terminating zero: the value, kept in the
  range of 64 bits, and whether there was a digit. \<open>atoi\<close> converts the same value to 32 bits.
\<close>

definition strtoll :: "bstring \<Rightarrow> int \<times> bool" where
  "strtoll s =
    (let s = dropWhile isspace (takeWhile (\<lambda>c. c \<noteq> 0) s);
         (neg, s) = (case s of [] \<Rightarrow> (False, []) | c # r \<Rightarrow> if c = ch_minus then (True, r) else if c = ch_plus then (False, r) else (False, s));
         ds = takeWhile is_digit s;
         v = (if neg then - digits_value ds else digits_value ds)
     in (max (- (2 ^ 63)) (min (2 ^ 63 - 1) v), ds \<noteq> []))"

definition atoi :: "bstring \<Rightarrow> int" where
  "atoi s = signed_take_bit 31 (fst (strtoll s))"

text \<open>
  The loop of \<open>integer_to_str\<close> writes digits in front of \<open>buf\<close>, of which \<open>room\<close> bytes are free; division
  and remainder truncate. The negation of the least 64-bit integer is that integer.
\<close>

fun integer_digits :: "nat \<Rightarrow> nat \<Rightarrow> int \<Rightarrow> bstring \<Rightarrow> bstring" where
  "integer_digits room sign val buf =
    (if sign < room \<and> val \<noteq> 0
     then integer_digits (room - 1) sign (int_div val 10) (word_of_int (0x30 + (val - 10 * int_div val 10)) # buf)
     else buf)"

declare integer_digits.simps [simp del]

definition integer_to_str :: "int \<Rightarrow> bstring" where
  "integer_to_str val =
    (let sign = (if val < 0 then 1 else 0);
         v = (if val < 0 then signed_take_bit 63 (- val) else val);
         s = (if v = 0 then integer_digits 19 sign v [0x30] else integer_digits 20 sign v [])
     in if sign = 1 then ch_minus # s else s)"

section \<open>Entries\<close>

datatype entry =
    int_t int
  | string_t bstring
  | list_t "entry list"
  | dictionary_t "(bstring \<times> entry) list"
  | undefined_t

text \<open>\<open>std::map\<close> with an assignment through \<open>operator[]\<close>: the pairs stay in the order of the keys.\<close>

fun dict_assign :: "bstring \<Rightarrow> entry \<Rightarrow> (bstring \<times> entry) list \<Rightarrow> (bstring \<times> entry) list" where
  "dict_assign k e [] = [(k, e)]"
| "dict_assign k e ((k', e') # d) =
    (if k = k' then (k, e) # d
     else if k < k' then (k, e) # (k', e') # d
     else (k', e') # dict_assign k e d)"

text \<open>
  The accessors of a variable entry turn an undefined one into the empty one of their type; the
  wrong type is an exception. \<open>number_overflow\<close> is for numbers read from a buffer that do not fit 64 bits, where
  the behaviour of the code is undefined.
\<close>

datatype entry_error = type_error | number_overflow

fun entry_dict :: "entry \<Rightarrow> entry_error + (bstring \<times> entry) list" where
  "entry_dict undefined_t = Inr []"
| "entry_dict (dictionary_t d) = Inr d"
| "entry_dict e = Inl type_error"

fun entry_list :: "entry \<Rightarrow> entry_error + entry list" where
  "entry_list undefined_t = Inr []"
| "entry_list (list_t es) = Inr es"
| "entry_list e = Inl type_error"

text \<open>\<open>string() = v\<close> and \<open>integer() = v\<close>, and the look-up of a key.\<close>

fun assign_string :: "bstring \<Rightarrow> entry \<Rightarrow> entry_error + entry" where
  "assign_string v undefined_t = Inr (string_t v)"
| "assign_string v (string_t _) = Inr (string_t v)"
| "assign_string v e = Inl type_error"

fun assign_integer :: "int \<Rightarrow> entry \<Rightarrow> entry_error + entry" where
  "assign_integer v undefined_t = Inr (int_t v)"
| "assign_integer v (int_t _) = Inr (int_t v)"
| "assign_integer v e = Inl type_error"

definition find_key :: "bstring \<Rightarrow> entry \<Rightarrow> entry_error + entry option" where
  "find_key k e = (case entry_dict e of Inl x \<Rightarrow> Inl x | Inr d \<Rightarrow> Inr (map_of d k))"

section \<open>Encoding\<close>

fun bencode_recursive :: "entry \<Rightarrow> bstring" and bencode_list :: "entry list \<Rightarrow> bstring"
  and bencode_dict :: "(bstring \<times> entry) list \<Rightarrow> bstring" where
  "bencode_recursive (int_t v) = ch_i # integer_to_str v @ [ch_e]"
| "bencode_recursive (string_t s) = integer_to_str (int (length s)) @ ch_colon # s"
| "bencode_recursive (list_t es) = ch_l # bencode_list es @ [ch_e]"
| "bencode_recursive (dictionary_t d) = ch_d # bencode_dict d @ [ch_e]"
| "bencode_recursive undefined_t = []"
| "bencode_list [] = []"
| "bencode_list (e # es) = bencode_recursive e @ bencode_list es"
| "bencode_dict [] = []"
| "bencode_dict ((k, e) # d) = integer_to_str (int (length k)) @ ch_colon # k @ bencode_recursive e @ bencode_dict d"

definition bencode :: "entry \<Rightarrow> bstring" where
  "bencode e = bencode_recursive e"

text \<open>The number of bytes written, as the encoder adds it up.\<close>

fun bencode_count :: "entry \<Rightarrow> nat" and bencode_list_count :: "entry list \<Rightarrow> nat"
  and bencode_dict_count :: "(bstring \<times> entry) list \<Rightarrow> nat" where
  "bencode_count (int_t v) = length (integer_to_str v) + 2"
| "bencode_count (string_t s) = length (integer_to_str (int (length s))) + length s + 1"
| "bencode_count (list_t es) = bencode_list_count es + 2"
| "bencode_count (dictionary_t d) = bencode_dict_count d + 2"
| "bencode_count undefined_t = 0"
| "bencode_list_count [] = 0"
| "bencode_list_count (e # es) = bencode_count e + bencode_list_count es"
| "bencode_dict_count [] = 0"
| "bencode_dict_count ((k, e) # d) = length (integer_to_str (int (length k))) + length k + bencode_count e + 1 + bencode_dict_count d"

section \<open>Decoding\<close>

text \<open>
  \<open>past_end\<close> stands for a read behind the end of the input: the loops of lists and dictionaries look
  at the next byte before they test for the end. \<open>out_of_fuel\<close> is the bound of these loops in the
  model; it is never reached (\<open>bdecode_total\<close>).
\<close>

datatype bdecode_error = invalid | past_end | out_of_fuel

fun read_until_token :: "uint8 \<Rightarrow> bstring \<Rightarrow> bdecode_error + bstring \<times> bstring" where
  "read_until_token end_token [] = Inl invalid"
| "read_until_token end_token (c # inp) =
    (if c = end_token then Inr ([], c # inp)
     else case read_until_token end_token inp of Inl e \<Rightarrow> Inl e | Inr (ret, r) \<Rightarrow> Inr (c # ret, r))"

definition read_string :: "int \<Rightarrow> bstring \<Rightarrow> bdecode_error + bstring \<times> bstring" where
  "read_string len inp = (if int (length inp) < len then Inl invalid else Inr (take (nat len) inp, drop (nat len) inp))"

fun bdecode_list :: "(bstring \<Rightarrow> bdecode_error + entry \<times> bstring) \<Rightarrow> nat \<Rightarrow> entry list \<Rightarrow> bstring \<Rightarrow> bdecode_error + entry \<times> bstring" where
  "bdecode_list dec 0 ret inp = Inl out_of_fuel"
| "bdecode_list dec (Suc fuel) ret inp =
    (case inp of
       [] \<Rightarrow> Inl past_end
     | c # r \<Rightarrow>
         if c = ch_e then Inr (list_t ret, r)
         else case dec inp of
             Inl x \<Rightarrow> Inl x
           | Inr (e, inp') \<Rightarrow> if inp' = [] then Inl invalid else bdecode_list dec fuel (ret @ [e]) inp')"

text \<open>A key that is not a string ends the dictionary without an error.\<close>

fun bdecode_dict :: "(bstring \<Rightarrow> bdecode_error + entry \<times> bstring) \<Rightarrow> nat \<Rightarrow> (bstring \<times> entry) list \<Rightarrow> bstring \<Rightarrow> bdecode_error + entry \<times> bstring" where
  "bdecode_dict dec 0 ret inp = Inl out_of_fuel"
| "bdecode_dict dec (Suc fuel) ret inp =
    (case inp of
       [] \<Rightarrow> Inl past_end
     | c # r \<Rightarrow>
         if c = ch_e then Inr (dictionary_t ret, r)
         else case dec inp of
             Inl x \<Rightarrow> Inl x
           | Inr (key, inp') \<Rightarrow>
               (case key of
                  string_t k \<Rightarrow>
                    (case dec inp' of
                       Inl x \<Rightarrow> Inl x
                     | Inr (e, inp'') \<Rightarrow> if inp'' = [] then Inl invalid else bdecode_dict dec fuel (dict_assign k e ret) inp'')
                | _ \<Rightarrow> Inr (dictionary_t ret, inp')))"

text \<open>\<open>bdecode_level n\<close> is \<open>bdecode_recursive\<close> at depth \<open>100 - n\<close>.\<close>

primrec bdecode_level :: "nat \<Rightarrow> bstring \<Rightarrow> bdecode_error + entry \<times> bstring" where
  "bdecode_level 0 inp = Inl invalid"
| "bdecode_level (Suc n) inp =
    (case inp of
       [] \<Rightarrow> Inl invalid
     | c # r \<Rightarrow>
         if c = ch_i
         then (case read_until_token ch_e r of
                 Inl x \<Rightarrow> Inl x
               | Inr (val, r') \<Rightarrow> if snd (strtoll val) then Inr (int_t (fst (strtoll val)), tl r') else Inl invalid)
         else if c = ch_l then bdecode_list (bdecode_level n) (Suc (length r)) [] r
         else if c = ch_d then bdecode_dict (bdecode_level n) (Suc (length r)) [] r
         else if is_digit c
         then (case read_until_token ch_colon inp of
                 Inl x \<Rightarrow> Inl x
               | Inr (len_s, r') \<Rightarrow>
                   (case read_string (atoi len_s) (tl r') of
                      Inl x \<Rightarrow> Inl x
                    | Inr (s, r'') \<Rightarrow> Inr (string_t s, r'')))
         else Inl invalid)"

definition bdecode_recursive :: "nat \<Rightarrow> bstring \<Rightarrow> bdecode_error + entry \<times> bstring" where
  "bdecode_recursive depth inp = bdecode_level (100 - depth) inp"

definition bdecode :: "bstring \<Rightarrow> bdecode_error + entry" where
  "bdecode inp =
    (case bdecode_recursive 0 inp of
       Inr (e, _) \<Rightarrow> Inr e
     | Inl invalid \<Rightarrow> Inr undefined_t
     | Inl x \<Rightarrow> Inl x)"

section \<open>Decimal numbers\<close>

text \<open>The decimal digits of a number, the specification of \<open>integer_to_str\<close>.\<close>

fun dec :: "nat \<Rightarrow> bstring" where
  "dec n = (if n < 10 then [0x30 + word_of_nat n] else dec (n div 10) @ [0x30 + word_of_nat (n mod 10)])"

declare dec.simps [simp del]

lemma digit_char:
  assumes "n < 10"
  shows "is_digit (0x30 + word_of_nat n)" "uint (0x30 + word_of_nat n :: uint8) = 0x30 + int n"
proof -
  have "list_all (\<lambda>n. is_digit (0x30 + word_of_nat n) \<and> uint (0x30 + word_of_nat n :: uint8) = 0x30 + int n) [0..<10]" by code_simp
  then show "is_digit (0x30 + word_of_nat n)" "uint (0x30 + word_of_nat n :: uint8) = 0x30 + int n"
    using assms by (simp_all add: list_all_iff)
qed

lemma dec_digits: "c \<in> set (dec n) \<Longrightarrow> is_digit c"
  by (induction n rule: dec.induct) (subst (asm) dec.simps, auto split: if_splits simp: digit_char(1))

lemma dec_not_Nil: "dec n \<noteq> []"
  by (subst dec.simps) simp

lemma digits_value_snoc: "digits_value (ds @ [d]) = digits_value ds * 10 + (uint d - 0x30)"
  by (simp add: digits_value_def)

lemma dec_value: "digits_value (dec n) = int n"
proof (induction n rule: dec.induct)
  case (1 n)
  show ?case
  proof (cases "n < 10")
    case True
    then show ?thesis by (subst dec.simps) (simp add: digits_value_def digit_char(2))
  next
    case False
    have "int n = int (n div 10) * 10 + int (n mod 10)" by presburger
    then show ?thesis using 1 False by (subst dec.simps) (simp add: digits_value_snoc digit_char(2))
  qed
qed

text \<open>The loop of \<open>integer_to_str\<close> writes the digits if there is room for them.\<close>

lemma integer_digits_dec:
  "0 < n \<Longrightarrow> n < 10 ^ (room - sign) \<Longrightarrow> integer_digits room sign (int n) buf = dec n @ buf"
proof (induction n arbitrary: room buf rule: dec.induct)
  case (1 n)
  have room: "sign < room" using 1(2,3) by (cases "sign < room") simp_all
  then obtain k where k: "room - sign = Suc k" by (metis Suc_diff_Suc)
  have q: "int_div (int n) 10 = int (n div 10)" by (simp add: int_div_nonneg zdiv_int)
  have "int n - 10 * int (n div 10) = int (n mod 10)" by presburger
  then have d: "(word_of_int (0x30 + (int n - 10 * int (n div 10))) :: uint8) = 0x30 + word_of_nat (n mod 10)"
    by (metis of_int_add of_int_numeral of_int_of_nat_eq)
  have step: "integer_digits room sign (int n) buf = integer_digits (room - 1) sign (int (n div 10)) ((0x30 + word_of_nat (n mod 10)) # buf)"
    using room 1(2) by (subst integer_digits.simps) (simp only: q d of_nat_eq_0_iff if_True simp_thms, simp)
  show ?case
  proof (cases "n < 10")
    case True
    then show ?thesis unfolding step by (subst integer_digits.simps, subst dec.simps) simp
  next
    case False
    have "room - 1 - sign = k" using k by simp
    then have "n div 10 < 10 ^ (room - 1 - sign)" using 1(3) k by (simp add: less_mult_imp_div_less mult.commute)
    then show ?thesis unfolding step using 1(1) [OF False] False by (subst dec.simps [of n]) simp
  qed
qed

lemma integer_to_str_nat: "n < 2 ^ 63 \<Longrightarrow> integer_to_str (int n) = dec n"
proof (cases "n = 0")
  case True
  then show ?thesis by (simp add: integer_to_str_def Let_def integer_digits.simps dec.simps)
next
  case False
  assume "n < 2 ^ 63"
  then have "n < 10 ^ (20 - 0)" by simp
  then show ?thesis using integer_digits_dec [of n 20 0 "[]"] False by (simp add: integer_to_str_def Let_def)
qed

lemma integer_to_str_neg: "0 < n \<Longrightarrow> n < 2 ^ 63 \<Longrightarrow> integer_to_str (- int n) = ch_minus # dec n"
proof -
  assume n: "0 < n" "n < 2 ^ 63"
  then have "signed_take_bit 63 (int n) = int n" by (intro signed_take_bit_int_eq_self) auto
  moreover have "n < 10 ^ (20 - 1)" using n by simp
  ultimately show ?thesis using integer_digits_dec [of n 20 1 "[]"] n by (simp add: integer_to_str_def Let_def)
qed

lemma is_digit_numeral:
  assumes "is_digit c"
  shows "c \<noteq> ch_e" "c \<noteq> ch_i" "c \<noteq> ch_l" "c \<noteq> ch_d" "c \<noteq> ch_colon" "c \<noteq> ch_minus" "c \<noteq> ch_plus" "c \<noteq> 0" "\<not> isspace c"
  using assms by (auto simp: is_digit_def isspace_def word_le_nat_alt)

lemma dec_Cons: obtains c r where "dec n = c # r" "is_digit c"
  using dec_not_Nil [of n] dec_digits [of _ n] by (cases "dec n") auto

lemma dec_takeWhile: "takeWhile is_digit (dec n) = dec n" "takeWhile (\<lambda>c. c \<noteq> 0) (dec n) = dec n"
  by (auto intro!: takeWhile_eq_all_conv [THEN iffD2] dest: dec_digits is_digit_numeral(8))

lemma strtoll_dec: "strtoll (dec n) = (min (2 ^ 63 - 1) (int n), True)"
proof -
  obtain c r where d: "dec n = c # r" "is_digit c" by (rule dec_Cons)
  then have ws: "dropWhile isspace (dec n) = dec n" using is_digit_numeral(9) by simp
  have "(case dec n of [] \<Rightarrow> (False, []) | c # r \<Rightarrow> if c = ch_minus then (True, r) else if c = ch_plus then (False, r) else (False, dec n)) = (False, dec n)"
    using is_digit_numeral(6,7) [OF d(2)] unfolding d(1) by simp
  then show ?thesis unfolding strtoll_def dec_takeWhile Let_def ws by (simp add: dec_takeWhile dec_value dec_not_Nil)
qed

lemma strtoll_minus_dec: "strtoll (ch_minus # dec n) = (max (- (2 ^ 63)) (- int n), True)"
  by (simp add: strtoll_def dec_takeWhile Let_def isspace_def dec_value dec_not_Nil)

lemma strtoll_integer:
  assumes "- (2 ^ 63) < v" "v < 2 ^ 63"
  shows "strtoll (integer_to_str v) = (v, True)"
proof (cases "v < 0")
  case True
  then have "integer_to_str v = ch_minus # dec (nat (- v))" using assms integer_to_str_neg [of "nat (- v)"] by simp
  then show ?thesis using True assms by (simp add: strtoll_minus_dec)
next
  case False
  then have "integer_to_str v = dec (nat v)" using assms integer_to_str_nat [of "nat v"] by simp
  then show ?thesis using False assms by (simp add: strtoll_dec)
qed

lemma atoi_dec: "n < 2 ^ 31 \<Longrightarrow> atoi (dec n) = int n"
  by (simp add: atoi_def strtoll_dec signed_take_bit_int_eq_self)

lemma read_until_token_append: "tok \<notin> set xs \<Longrightarrow> read_until_token tok (xs @ tok # r) = Inr (xs, tok # r)"
  by (induction xs) auto

lemma integer_no_e: "- (2 ^ 63) < v \<Longrightarrow> v < 2 ^ 63 \<Longrightarrow> ch_e \<notin> set (integer_to_str v)"
  using integer_to_str_neg [of "nat (- v)"] integer_to_str_nat [of "nat v"] is_digit_numeral(1) dec_digits
  by (cases "v < 0") fastforce+

lemma dict_assign_last: "\<forall>x \<in> fst ` set d. x < k \<Longrightarrow> dict_assign k e d = d @ [(k, e)]"
  by (induction d) (auto dest: less_not_sym)

section \<open>Round trip\<close>

text \<open>
  What can be encoded: integers but the least one, strings of an \<open>int\<close> length, dictionaries in the
  order of their keys, and nothing undefined. The depth of a value is the number of levels the
  decoder needs for it.
\<close>

fun encodable :: "entry \<Rightarrow> bool" and encodable_list :: "entry list \<Rightarrow> bool"
  and encodable_dict :: "(bstring \<times> entry) list \<Rightarrow> bool" where
  "encodable (int_t v) = (- (2 ^ 63) < v \<and> v < 2 ^ 63)"
| "encodable (string_t s) = (length s < 2 ^ 31)"
| "encodable (list_t es) = encodable_list es"
| "encodable (dictionary_t d) = encodable_dict d"
| "encodable undefined_t = False"
| "encodable_list [] = True"
| "encodable_list (e # es) = (encodable e \<and> encodable_list es)"
| "encodable_dict [] = True"
| "encodable_dict ((k, e) # d) = (length k < 2 ^ 31 \<and> encodable e \<and> list_all (\<lambda>x. k < fst x) d \<and> encodable_dict d)"

fun depth_of :: "entry \<Rightarrow> nat" and depth_list :: "entry list \<Rightarrow> nat" and depth_dict :: "(bstring \<times> entry) list \<Rightarrow> nat" where
  "depth_of (int_t v) = 1"
| "depth_of (string_t s) = 1"
| "depth_of (list_t es) = Suc (depth_list es)"
| "depth_of (dictionary_t d) = Suc (depth_dict d)"
| "depth_of undefined_t = 1"
| "depth_list [] = 0"
| "depth_list (e # es) = max (depth_of e) (depth_list es)"
| "depth_dict [] = 0"
| "depth_dict ((k, e) # d) = max (depth_of e) (depth_dict d)"

lemma depth_of_pos: "0 < depth_of e"
  by (cases e) auto

lemma bencode_count: "bencode_count e = length (bencode_recursive e)" "bencode_list_count es = length (bencode_list es)"
  "bencode_dict_count d = length (bencode_dict d)"
  by (induction e and es and d rule: bencode_recursive_bencode_list_bencode_dict.induct) auto

text \<open>An encoded value has at least two bytes and does not begin like the end of a container.\<close>

lemma bencode_first:
  assumes "encodable e"
  obtains c r where "bencode_recursive e = c # r" "c \<noteq> ch_e" "r \<noteq> []"
proof (cases e)
  case (string_t s)
  then have "bencode_recursive e = dec (length s) @ ch_colon # s" using assms integer_to_str_nat [of "length s"] by simp
  then show ?thesis using that dec_Cons [of "length s"] is_digit_numeral(1)
    by (metis append_Cons append_is_Nil_conv list.distinct(1))
qed (use assms that in auto)

lemma bdecode_string:
  assumes "length s < 2 ^ 31" "0 < n"
  shows "bdecode_level n (integer_to_str (int (length s)) @ ch_colon # s @ r) = Inr (string_t s, r)"
proof -
  obtain m where m: "n = Suc m" using assms(2) gr0_implies_Suc by blast
  obtain c ds where d: "dec (length s) = c # ds" "is_digit c" by (rule dec_Cons)
  have i: "integer_to_str (int (length s)) = dec (length s)" using assms(1) by (intro integer_to_str_nat) simp
  have "ch_colon \<notin> set (dec (length s))" using dec_digits is_digit_numeral(5) by blast
  then have "read_until_token ch_colon (c # ds @ ch_colon # s @ r) = Inr (dec (length s), ch_colon # s @ r)"
    using read_until_token_append [of ch_colon "dec (length s)" "s @ r"] d(1) by simp
  moreover have "read_string (int (length s)) (s @ r) = Inr (s, r)" by (simp add: read_string_def)
  ultimately show ?thesis using is_digit_numeral(2,3,4) [OF d(2)] d assms(1) atoi_dec [of "length s"]
    by (simp add: i m del: read_until_token.simps)
qed

lemma bdecode_int:
  assumes "- (2 ^ 63) < v" "v < 2 ^ 63" "0 < n"
  shows "bdecode_level n (ch_i # integer_to_str v @ ch_e # r) = Inr (int_t v, r)"
proof -
  obtain m where "n = Suc m" using assms(3) gr0_implies_Suc by blast
  then show ?thesis using read_until_token_append [OF integer_no_e [OF assms(1,2)], of r] strtoll_integer [OF assms(1,2)] by simp
qed

lemma bdecode_bencode:
  "encodable e \<Longrightarrow> depth_of e \<le> n \<Longrightarrow> bdecode_level n (bencode_recursive e @ r) = Inr (e, r)"
  "encodable_list es \<Longrightarrow> depth_list es \<le> n \<Longrightarrow> length (bencode_list es) < fuel \<Longrightarrow>
    bdecode_list (bdecode_level n) fuel les (bencode_list es @ ch_e # r) = Inr (list_t (les @ es), r)"
  "encodable_dict d \<Longrightarrow> depth_dict d \<le> n \<Longrightarrow> length (bencode_dict d) < fuel \<Longrightarrow> \<forall>x \<in> fst ` set ld. \<forall>y \<in> fst ` set d. x < y \<Longrightarrow>
    bdecode_dict (bdecode_level n) fuel ld (bencode_dict d @ ch_e # r) = Inr (dictionary_t (ld @ d), r)"
proof (induction e and es and d arbitrary: n r and n r fuel les and n r fuel ld rule: bencode_recursive_bencode_list_bencode_dict.induct)
  case (1 v)
  then show ?case using bdecode_int [of v n r] by simp
next
  case (2 s)
  then show ?case using bdecode_string [of s n r] by simp
next
  case (3 es)
  then obtain m where "n = Suc m" "depth_list es \<le> m" by (metis Suc_le_D Suc_le_mono depth_of.simps(3))
  then show ?case using 3 by (simp del: bdecode_list.simps)
next
  case (4 d)
  then obtain m where "n = Suc m" "depth_dict d \<le> m" by (metis Suc_le_D Suc_le_mono depth_of.simps(4))
  then show ?case using 4 by (simp del: bdecode_dict.simps)
next
  case (6 n r fuel les)
  then show ?case by (cases fuel) simp_all
next
  case (7 e es)
  obtain c q where c: "bencode_recursive e = c # q" "c \<noteq> ch_e" using bencode_first 7(3) by (metis encodable_list.simps(2))
  obtain f where f: "fuel = Suc f" "length (bencode_list es) < f" using 7(5) c(1) by (cases fuel) auto
  have "bdecode_level n (bencode_recursive e @ bencode_list es @ ch_e # r) = Inr (e, bencode_list es @ ch_e # r)" using 7 by simp
  moreover have "bdecode_list (bdecode_level n) f (les @ [e]) (bencode_list es @ ch_e # r) = Inr (list_t ((les @ [e]) @ es), r)" using 7 f(2) by simp
  ultimately show ?case using c f(1) by simp
next
  case (8 n r fuel ld)
  then show ?case by (cases fuel) simp_all
next
  case (9 k e d)
  have k: "length k < 2 ^ 31" "0 < n" using 9(3,4) depth_of_pos [of e] by simp_all
  define s where "s = bencode_recursive e @ bencode_dict d @ ch_e # r"
  define q where "q = integer_to_str (int (length k)) @ ch_colon # k @ s"
  obtain c ds where ds: "dec (length k) = c # ds" "is_digit c" by (rule dec_Cons)
  then obtain q' where c: "q = c # q'" "c \<noteq> ch_e"
    using is_digit_numeral(1) integer_to_str_nat [of "length k"] k(1) by (auto simp: q_def)
  obtain f where f: "fuel = Suc f" "length (bencode_dict d) < f" using 9(5) by (cases fuel) auto
  have 1: "bdecode_level n q = Inr (string_t k, s)" unfolding q_def using bdecode_string [OF k] by simp
  have 2: "bdecode_level n s = Inr (e, bencode_dict d @ ch_e # r)" using 9 by (simp add: s_def)
  have "\<forall>x \<in> fst ` set (ld @ [(k, e)]). \<forall>y \<in> fst ` set d. x < y" using 9(3,6) by (auto simp: list_all_iff)
  then have 3: "bdecode_dict (bdecode_level n) f (ld @ [(k, e)]) (bencode_dict d @ ch_e # r) = Inr (dictionary_t ((ld @ [(k, e)]) @ d), r)"
    using 9(2-5) f(2) by simp
  have "dict_assign k e ld = ld @ [(k, e)]" using 9(6) by (intro dict_assign_last) simp
  moreover have "bencode_dict ((k, e) # d) @ ch_e # r = q" by (simp add: q_def s_def)
  ultimately show ?case using 1 2 3 c by (simp add: f(1) del: bencode_dict.simps)
qed simp

text \<open>The decoder always consumes input, so the fuel of its loops, the length of the input, is enough.\<close>

definition fits :: "nat \<Rightarrow> bdecode_error + 'a \<times> bstring \<Rightarrow> bool" where
  "fits n res = (case res of Inl x \<Rightarrow> x \<noteq> out_of_fuel | Inr (_, r) \<Rightarrow> length r < n)"

lemma fits_simps [simp]: "fits n (Inl x) = (x \<noteq> out_of_fuel)" "fits n (Inr (v, r)) = (length r < n)"
  by (simp_all add: fits_def)

lemma fits_mono: "fits m res \<Longrightarrow> m \<le> n \<Longrightarrow> fits n res"
  by (auto simp: fits_def split: sum.splits)

lemma fits_cases:
  assumes "fits n res"
  obtains x where "res = Inl x" "x \<noteq> out_of_fuel" | v r where "res = Inr (v, r)" "length r < n"
  using assms by (auto simp: fits_def split: sum.splits)

lemma read_until_token_fits: "fits (Suc (length inp)) (read_until_token tok inp)"
  by (induction inp) (auto simp: fits_def split: sum.splits)

lemma read_string_fits: "fits (Suc (length inp)) (read_string len inp)"
  by (auto simp: read_string_def)

lemma bdecode_list_fits:
  assumes "\<And>inp. fits (length inp) (f inp)"
  shows "length inp < fuel \<Longrightarrow> fits (length inp) (bdecode_list f fuel ret inp)"
proof (induction fuel arbitrary: ret inp)
  case (Suc fuel)
  show ?case
  proof (rule fits_cases [OF assms [of inp]])
    fix x assume "f inp = Inl x" "x \<noteq> out_of_fuel"
    then show ?thesis by (auto split: list.split)
  next
    fix v r assume "f inp = Inr (v, r)" "length r < length inp"
    moreover from this have "fits (length inp) (bdecode_list f fuel (ret @ [v]) r)" using Suc by (intro fits_mono [OF Suc.IH]) auto
    ultimately show ?thesis by (auto split: list.split)
  qed
qed simp

lemma bdecode_dict_fits:
  assumes "\<And>inp. fits (length inp) (f inp)"
  shows "length inp < fuel \<Longrightarrow> fits (length inp) (bdecode_dict f fuel ret inp)"
proof (induction fuel arbitrary: ret inp)
  case (Suc fuel)
  show ?case
  proof (rule fits_cases [OF assms [of inp]])
    fix x assume "f inp = Inl x" "x \<noteq> out_of_fuel"
    then show ?thesis by (auto split: list.split)
  next
    fix k r assume k: "f inp = Inr (k, r)" "length r < length inp"
    show ?thesis
    proof (rule fits_cases [OF assms [of r]])
      fix x assume "f r = Inl x" "x \<noteq> out_of_fuel"
      then show ?thesis using k by (auto split: list.split entry.split)
    next
      fix v q assume "f r = Inr (v, q)" "length q < length r"
      moreover from this have "fits (length inp) (bdecode_dict f fuel d q)" for d using Suc k by (intro fits_mono [OF Suc.IH]) auto
      ultimately show ?thesis using k by (auto split: list.split entry.split)
    qed
  qed
qed simp

lemma bdecode_level_fits: "fits (length inp) (bdecode_level n inp)"
proof (induction n arbitrary: inp)
  case (Suc n)
  show ?case
  proof (cases inp)
    case (Cons c r)
    have l: "fits (length inp) (bdecode_list (bdecode_level n) (Suc (length r)) [] r)"
      by (rule fits_mono [OF bdecode_list_fits [OF Suc]]) (simp_all add: Cons)
    have d: "fits (length inp) (bdecode_dict (bdecode_level n) (Suc (length r)) [] r)"
      by (rule fits_mono [OF bdecode_dict_fits [OF Suc]]) (simp_all add: Cons)
    have int: "fits (length inp) (case read_until_token ch_e r of Inl x \<Rightarrow> Inl x
        | Inr (val, r') \<Rightarrow> if snd (strtoll val) then Inr (int_t (fst (strtoll val)), tl r') else Inl invalid)"
      by (rule fits_cases [OF read_until_token_fits [of r ch_e]]) (auto simp: Cons)
    have str: "fits (length inp) (case read_until_token ch_colon inp of Inl x \<Rightarrow> Inl x
        | Inr (len_s, r') \<Rightarrow> (case read_string (atoi len_s) (tl r') of Inl x \<Rightarrow> Inl x | Inr (s, r'') \<Rightarrow> Inr (string_t s, r'')))"
    proof (rule fits_cases [OF read_until_token_fits [of inp ch_colon]])
      fix v q assume q: "read_until_token ch_colon inp = Inr (v, q)" "length q < Suc (length inp)"
      have "length (tl q) < length inp" using q(2) Cons by (cases q) auto
      then have "fits (length inp) (case read_string (atoi v) (tl q) of Inl x \<Rightarrow> Inl x | Inr (s, r'') \<Rightarrow> Inr (string_t s, r''))"
        by (auto simp: read_string_def)
      then show ?thesis by (simp only: q(1) sum.case prod.case)
    qed (simp only: sum.case fits_simps not_False_eq_True)
    show ?thesis using int str l d unfolding bdecode_level.simps(2) Cons list.case by (simp only: fits_simps if_split bdecode_error.distinct not_False_eq_True simp_thms)
  qed simp
qed simp

lemma bdecode_total: "bdecode inp \<noteq> Inl out_of_fuel"
  by (rule fits_cases [OF bdecode_level_fits [of inp 100]])
    (auto simp: bdecode_def bdecode_recursive_def split: bdecode_error.split simp del: bdecode_level.simps)

lemma bdecode_roundtrip: "encodable e \<Longrightarrow> depth_of e \<le> 100 \<Longrightarrow> bdecode (bencode e) = Inr e"
  using bdecode_bencode(1) [of e 100 "[]"] by (simp add: bdecode_def bdecode_recursive_def bencode_def)

end
