(* ===== verification/Lazy_Bdecode.thy ===== *)
theory Lazy_Bdecode
  imports Bencode
begin

text \<open>
  The decoder of \<open>lazy_bdecode.cpp\<close>, with which a transfer reads its resume data. It builds a tree of
  positions in the buffer with a stack of the containers that are still open. What \<open>bencode\<close> wrote is
  read back as the same value.
\<close>

section \<open>Lazy entries\<close>

text \<open>
  Pointers into the buffer are positions. A number keeps \<open>m_data.start\<close> and \<open>m_size\<close>, as does a string;
  a container keeps \<open>m_begin\<close>, \<open>m_len\<close> (0 while it is open) and its items, a dictionary with the
  position of each name. The capacity of the arrays that hold the items is left out: growing
  moves them and changes nothing else.
\<close>

datatype lazy_entry =
    lazy_none
  | lazy_int nat nat
  | lazy_string nat nat
  | lazy_list nat nat "lazy_entry list"
  | lazy_dict nat nat "(nat \<times> lazy_entry) list"

datatype lazy_error = depth_exceeded | unexpected_eof | expected_string | expected_colon | limit_exceeded | expected_value

fun num_digits :: "nat \<Rightarrow> nat" where
  "num_digits val = (if 10 \<le> val then Suc (num_digits (val div 10)) else 1)"

declare num_digits.simps [simp del]

fun m_begin :: "lazy_entry \<Rightarrow> nat" where
  "m_begin lazy_none = 0"
| "m_begin (lazy_int start len) = start - 1"
| "m_begin (lazy_string start len) = start - 1 - num_digits len"
| "m_begin (lazy_list b len items) = b"
| "m_begin (lazy_dict b len items) = b"

fun m_len :: "lazy_entry \<Rightarrow> nat" where
  "m_len lazy_none = 0"
| "m_len (lazy_int start len) = len + 2"
| "m_len (lazy_string start len) = start - m_begin (lazy_string start len) + len"
| "m_len (lazy_list b len items) = len"
| "m_len (lazy_dict b len items) = len"

definition data_section :: "lazy_entry \<Rightarrow> nat \<times> nat" where
  "data_section e = (m_begin e, m_len e)"

fun set_end :: "nat \<Rightarrow> lazy_entry \<Rightarrow> lazy_entry" where
  "set_end p (lazy_list b len items) = lazy_list b (p - b) items"
| "set_end p (lazy_dict b len items) = lazy_dict b (p - b) items"
| "set_end p e = e"

fun lazy_pop :: "lazy_entry \<Rightarrow> lazy_entry" where
  "lazy_pop (lazy_list b len items) = lazy_list b len (butlast items)"
| "lazy_pop (lazy_dict b len items) = lazy_dict b len (butlast items)"
| "lazy_pop e = e"

section \<open>Numbers and delimiters\<close>

text \<open>
  The number up to a delimiter: where it ends and its value; the value so far if there is something
  that is not a digit; or an overflow of 64 bits, after which the behaviour of the code is undefined.
\<close>

datatype parse_result = parsed nat int | not_digit int | int_overflow

function parse_int :: "uint8 list \<Rightarrow> nat \<Rightarrow> uint8 \<Rightarrow> nat \<Rightarrow> int \<Rightarrow> parse_result" where
  "parse_int buf fin delimiter start val =
    (if start < fin \<and> buf ! start \<noteq> delimiter
     then if \<not> is_digit (buf ! start) then not_digit val
          else let v = val * 10 + (uint (buf ! start) - 0x30)
               in if 2 ^ 63 \<le> v then int_overflow else parse_int buf fin delimiter (Suc start) v
     else parsed start val)"
  by pat_completeness auto
termination
  by (relation "measure (\<lambda>(buf, fin, delimiter, start, val). fin - start)") auto

function find_char :: "uint8 list \<Rightarrow> nat \<Rightarrow> uint8 \<Rightarrow> nat \<Rightarrow> nat" where
  "find_char buf fin delimiter start = (if start < fin \<and> buf ! start \<noteq> delimiter then find_char buf fin delimiter (Suc start) else start)"
  by pat_completeness auto
termination
  by (relation "measure (\<lambda>(buf, fin, delimiter, start). fin - start)") auto

declare parse_int.simps [simp del] find_char.simps [simp del]

lemma parse_int_le: "parse_int buf fin delimiter start val = parsed p v \<Longrightarrow> start \<le> p"
  by (induction buf fin delimiter start val rule: parse_int.induct) (subst (asm) parse_int.simps, auto simp: Let_def split: if_splits)

lemma find_char_le: "start \<le> find_char buf fin delimiter start"
  by (induction buf fin delimiter start rule: find_char.induct) (subst find_char.simps, auto)

section \<open>The decoder\<close>

text \<open>
  The stack holds what its pointers point to, the top first. An entry below the top has its last
  item on the stack above it, which is put into its place (\<open>put_last\<close>) when it is taken from the stack.
  The last entry of the stack is the result \<open>ret\<close> itself.
\<close>

record lazy_state =
  ls_start :: nat
  ls_stack :: "lazy_entry list"
  ls_ret :: lazy_entry
  ls_items :: int

text \<open>
  A failure has the error code, the position reported (\<open>None\<close> where it is computed from a null
  pointer) and what is left in \<open>ret\<close>.
\<close>

datatype lazy_result = lazy_ok lazy_entry | lazy_fail lazy_error "nat option" lazy_entry | lazy_overflow

fun put_last :: "lazy_entry \<Rightarrow> lazy_entry \<Rightarrow> lazy_entry" where
  "put_last c (lazy_list b len items) = lazy_list b len (butlast items @ [c])"
| "put_last c (lazy_dict b len items) = lazy_dict b len (butlast items @ [(fst (last items), c)])"
| "put_last c e = e"

text \<open>\<open>stack.pop_back()\<close> with the entry \<open>c\<close> on top of \<open>stk\<close>; the decoder goes on at \<open>start\<close>.\<close>

definition pop_back :: "nat \<Rightarrow> lazy_entry \<Rightarrow> lazy_entry list \<Rightarrow> lazy_entry \<Rightarrow> int \<Rightarrow> lazy_state" where
  "pop_back start c stk ret items =
    (case stk of
       [] \<Rightarrow> \<lparr>ls_start = start, ls_stack = [], ls_ret = c, ls_items = items\<rparr>
     | p # s \<Rightarrow> \<lparr>ls_start = start, ls_stack = put_last c p # s, ls_ret = ret, ls_items = items\<rparr>)"

text \<open>
  \<open>LIBED2K_FAIL_BDECODE\<close> removes the last item of every container on the stack; an item that was on
  the stack itself goes with it, so only the last entry remains.
\<close>

definition fail_bdecode :: "lazy_error \<Rightarrow> nat option \<Rightarrow> lazy_entry list \<Rightarrow> lazy_result + lazy_state" where
  "fail_bdecode code pos stack = Inl (lazy_fail code pos (lazy_pop (last stack)))"

text \<open>The second half of a round: the value that begins with \<open>t\<close> goes to the top of the stack.\<close>

definition lazy_value :: "uint8 list \<Rightarrow> uint8 \<Rightarrow> nat \<Rightarrow> lazy_entry list \<Rightarrow> lazy_entry \<Rightarrow> int \<Rightarrow> lazy_result + lazy_state" where
  "lazy_value buf t start stack ret item_limit =
    (let item_limit = item_limit - 1 in
     if item_limit \<le> 0 then fail_bdecode limit_exceeded (Some start) stack
     else if t = ch_d then Inr \<lparr>ls_start = start, ls_stack = lazy_dict (start - 1) 0 [] # tl stack, ls_ret = ret, ls_items = item_limit\<rparr>
     else if t = ch_l then Inr \<lparr>ls_start = start, ls_stack = lazy_list (start - 1) 0 [] # tl stack, ls_ret = ret, ls_items = item_limit\<rparr>
     else if t = ch_i
     then let p = find_char buf (length buf) ch_e start; top = lazy_int start (p - start)
          in if p = length buf then fail_bdecode unexpected_eof (Some p) (top # tl stack)
             else Inr (pop_back (p + 1) top (tl stack) ret item_limit)
     else if \<not> is_digit t then fail_bdecode expected_value (Some start) stack
     else case parse_int buf (length buf) ch_colon start (uint t - 0x30) of
         int_overflow \<Rightarrow> Inl lazy_overflow
       | not_digit _ \<Rightarrow> fail_bdecode expected_colon None stack
       | parsed p len \<Rightarrow>
           if int (length buf) < int p + len + 1 \<or> buf ! p \<noteq> ch_colon then fail_bdecode expected_colon (Some p) stack
           else Inr (pop_back (p + 1 + nat len) (lazy_string (p + 1) (nat len)) (tl stack) ret item_limit))"

definition lazy_step :: "uint8 list \<Rightarrow> nat \<Rightarrow> lazy_state \<Rightarrow> lazy_result + lazy_state" where
  "lazy_step buf depth_limit st =
    (let stack = ls_stack st; top = hd stack; t = buf ! ls_start st; start = ls_start st + 1 in
     if depth_limit < length stack then fail_bdecode depth_exceeded (Some (ls_start st)) stack
     else if length buf \<le> start \<and> t \<noteq> ch_e then fail_bdecode unexpected_eof (Some start) stack
     else case top of
         lazy_dict b len d \<Rightarrow>
           if t = ch_e then Inr (pop_back start (set_end start top) (tl stack) (ls_ret st) (ls_items st))
           else if \<not> is_digit t then fail_bdecode expected_string (Some start) stack
           else (case parse_int buf (length buf) ch_colon start (uint t - 0x30) of
               int_overflow \<Rightarrow> Inl lazy_overflow
             | not_digit _ \<Rightarrow> fail_bdecode expected_colon None stack
             | parsed p l \<Rightarrow>
                 if int (length buf) < int p + l + 3 \<or> buf ! p \<noteq> ch_colon then fail_bdecode expected_colon (Some p) stack
                 else let name = p + 1; q = name + nat l;
                          stack = lazy_none # lazy_dict b len (d @ [(name, lazy_none)]) # tl stack
                      in lazy_value buf (buf ! q) (q + 1) stack (ls_ret st) (ls_items st))
       | lazy_list b len es \<Rightarrow>
           if t = ch_e then Inr (pop_back start (set_end start top) (tl stack) (ls_ret st) (ls_items st))
           else lazy_value buf t start (lazy_none # lazy_list b len (es @ [lazy_none]) # tl stack) (ls_ret st) (ls_items st)
       | _ \<Rightarrow> lazy_value buf t start stack (ls_ret st) (ls_items st))"

text \<open>When the input ends, the entries still on the stack are in their places.\<close>

fun unwind :: "lazy_entry \<Rightarrow> lazy_entry list \<Rightarrow> lazy_entry" where
  "unwind ret [] = ret"
| "unwind ret [c] = c"
| "unwind ret (c # p # s) = unwind ret (put_last c p # s)"

lemma pop_back_start [simp]: "ls_start (pop_back start c stk ret items) = start"
  by (simp add: pop_back_def split: list.split)

lemma lazy_value_progress: "lazy_value buf t start stack ret items = Inr st \<Longrightarrow> start \<le> ls_start st"
  unfolding lazy_value_def Let_def fail_bdecode_def using find_char_le [of start buf "length buf" ch_e] parse_int_le
  by (fastforce split: if_splits parse_result.splits)

lemma lazy_step_progress: "lazy_step buf depth_limit st = Inr st' \<Longrightarrow> ls_start st < ls_start st'"
  unfolding lazy_step_def Let_def fail_bdecode_def
  by (fastforce split: if_splits parse_result.splits lazy_entry.splits dest: parse_int_le lazy_value_progress)

function lazy_loop :: "uint8 list \<Rightarrow> nat \<Rightarrow> lazy_state \<Rightarrow> lazy_result" where
  "lazy_loop buf depth_limit st =
    (if ls_start st < length buf \<and> ls_stack st \<noteq> []
     then (case lazy_step buf depth_limit st of Inl r \<Rightarrow> r | Inr st' \<Rightarrow> lazy_loop buf depth_limit st')
     else lazy_ok (unwind (ls_ret st) (ls_stack st)))"
  by pat_completeness auto
termination
  by (relation "measure (\<lambda>(buf, depth_limit, st). length buf - ls_start st)") (auto dest: lazy_step_progress)

declare lazy_loop.simps [simp del]

definition lazy_bdecode :: "nat \<Rightarrow> int \<Rightarrow> uint8 list \<Rightarrow> lazy_result" where
  "lazy_bdecode depth_limit item_limit buf =
    (if buf = [] then lazy_ok lazy_none
     else lazy_loop buf depth_limit \<lparr>ls_start = 0, ls_stack = [lazy_none], ls_ret = lazy_none, ls_items = item_limit\<rparr>)"

section \<open>Reading lazy entries\<close>

definition slice :: "uint8 list \<Rightarrow> nat \<Rightarrow> nat \<Rightarrow> uint8 list" where
  "slice buf start len = take len (drop start buf)"

definition int_value :: "uint8 list \<Rightarrow> nat \<Rightarrow> nat \<Rightarrow> entry_error + int" where
  "int_value buf start len =
    (let negative = (buf ! start = ch_minus);
         sign = (\<lambda>v. Inr (if negative then - v else v))
     in case parse_int buf (start + len) ch_e (if negative then start + 1 else start) 0 of
          parsed _ v \<Rightarrow> sign v
        | not_digit v \<Rightarrow> sign v
        | int_overflow \<Rightarrow> Inl number_overflow)"

text \<open>The name of an item reaches from its position to the beginning of its value.\<close>

definition dict_key :: "uint8 list \<Rightarrow> nat \<times> lazy_entry \<Rightarrow> bstring" where
  "dict_key buf item = slice buf (fst item) (m_begin (snd item) - fst item)"

fun string_equal :: "bstring \<Rightarrow> bstring \<Rightarrow> bool" where
  "string_equal [] [] = True"
| "string_equal (c # s) (k # ks) = (c = k \<and> c \<noteq> 0 \<and> string_equal s ks)"
| "string_equal _ _ = False"

text \<open>\<open>dict_find\<close> on the items of a dictionary, with its variants that ask for a type.\<close>

definition dict_find :: "uint8 list \<Rightarrow> bstring \<Rightarrow> (nat \<times> lazy_entry) list \<Rightarrow> lazy_entry option" where
  "dict_find buf name items = map_option snd (find (\<lambda>item. string_equal name (dict_key buf item)) items)"

definition dict_find_string_value :: "uint8 list \<Rightarrow> bstring \<Rightarrow> (nat \<times> lazy_entry) list \<Rightarrow> bstring" where
  "dict_find_string_value buf name items = (case dict_find buf name items of Some (lazy_string start len) \<Rightarrow> slice buf start len | _ \<Rightarrow> [])"

definition dict_find_int_value :: "uint8 list \<Rightarrow> bstring \<Rightarrow> int \<Rightarrow> (nat \<times> lazy_entry) list \<Rightarrow> entry_error + int" where
  "dict_find_int_value buf name default_val items = (case dict_find buf name items of Some (lazy_int start len) \<Rightarrow> int_value buf start len | _ \<Rightarrow> Inr default_val)"

definition dict_find_dict :: "uint8 list \<Rightarrow> bstring \<Rightarrow> (nat \<times> lazy_entry) list \<Rightarrow> lazy_entry option" where
  "dict_find_dict buf name items = (case dict_find buf name items of Some (lazy_dict b len d) \<Rightarrow> Some (lazy_dict b len d) | _ \<Rightarrow> None)"

definition dict_find_list :: "uint8 list \<Rightarrow> bstring \<Rightarrow> (nat \<times> lazy_entry) list \<Rightarrow> lazy_entry option" where
  "dict_find_list buf name items = (case dict_find buf name items of Some (lazy_list b len es) \<Rightarrow> Some (lazy_list b len es) | _ \<Rightarrow> None)"

text \<open>The assignment of a lazy entry to an entry, which may have a value of its own.\<close>

fun entry_assign :: "uint8 list \<Rightarrow> lazy_entry \<Rightarrow> entry \<Rightarrow> entry_error + entry"
  and assign_items :: "uint8 list \<Rightarrow> lazy_entry list \<Rightarrow> entry list \<Rightarrow> entry_error + entry list"
  and assign_pairs :: "uint8 list \<Rightarrow> (nat \<times> lazy_entry) list \<Rightarrow> (bstring \<times> entry) list \<Rightarrow> entry_error + (bstring \<times> entry) list" where
  "entry_assign buf lazy_none e = Inr undefined_t"
| "entry_assign buf (lazy_int start len) e = (case int_value buf start len of Inl x \<Rightarrow> Inl x | Inr v \<Rightarrow> assign_integer v e)"
| "entry_assign buf (lazy_string start len) e = assign_string (slice buf start len) e"
| "entry_assign buf (lazy_list b len items) e =
    (case entry_list e of Inl x \<Rightarrow> Inl x | Inr l \<Rightarrow> (case assign_items buf items l of Inl x \<Rightarrow> Inl x | Inr l' \<Rightarrow> Inr (list_t l')))"
| "entry_assign buf (lazy_dict b len items) e =
    (case entry_dict e of Inl x \<Rightarrow> Inl x | Inr d \<Rightarrow> (case assign_pairs buf items d of Inl x \<Rightarrow> Inl x | Inr d' \<Rightarrow> Inr (dictionary_t d')))"
| "assign_items buf [] l = Inr l"
| "assign_items buf (item # items) l = (case entry_assign buf item undefined_t of Inl x \<Rightarrow> Inl x | Inr e \<Rightarrow> assign_items buf items (l @ [e]))"
| "assign_pairs buf [] d = Inr d"
| "assign_pairs buf ((name, v) # items) d =
    (let k = dict_key buf (name, v); old = (case map_of d k of None \<Rightarrow> undefined_t | Some e \<Rightarrow> e)
     in case entry_assign buf v old of Inl x \<Rightarrow> Inl x | Inr e \<Rightarrow> assign_pairs buf items (dict_assign k e d))"

section \<open>Encoded values in a buffer\<close>

text \<open>What stands at a position of the buffer is what is left of it there.\<close>

lemma drop_Cons: "drop p buf = c # s \<Longrightarrow> p < length buf \<and> buf ! p = c \<and> drop (Suc p) buf = s"
  by (metis drop_Suc drop_eq_Nil2 hd_drop_conv_nth leI list.distinct(1) list.sel(1) list.sel(3) tl_drop)

lemma drop_append: "drop p buf = xs @ s \<Longrightarrow> drop (p + length xs) buf = s"
  by (metis add.commute append_eq_conv_conj drop_drop)

lemma slice_at: "drop p buf = xs @ s \<Longrightarrow> slice buf p (length xs) = xs"
  by (simp add: slice_def)

lemma length_at: "drop p buf = xs @ s \<Longrightarrow> s \<noteq> [] \<Longrightarrow> p + length xs < length buf"
  by (metis add.commute add_lessD1 drop_append drop_eq_Nil2 leI)

lemma end_at: "drop p buf = xs @ s \<Longrightarrow> p \<le> length buf \<Longrightarrow> p + length xs + length s = length buf"
  by (drule arg_cong [of _ _ length]) simp

lemma digits_step_mono: "0 \<le> v \<Longrightarrow> list_all is_digit ds \<Longrightarrow> v \<le> foldl (\<lambda>v d. v * 10 + (uint d - 0x30)) v ds"
proof (induction ds arbitrary: v)
  case (Cons d ds)
  then have "0x30 \<le> uint d" by (simp add: is_digit_def word_le_def)
  then have "v \<le> v * 10 + (uint d - 0x30)" "0 \<le> v * 10 + (uint d - 0x30)" using Cons.prems(1) by auto
  then show ?case using Cons.IH [of "v * 10 + (uint d - 0x30)"] Cons.prems by simp
qed simp

lemma parse_int_digits:
  assumes "\<not> is_digit tok" "0 \<le> v" "list_all is_digit ds" "foldl (\<lambda>v d. v * 10 + (uint d - 0x30)) v ds < 2 ^ 63"
    and "p + length ds \<le> fin" "p + length ds < fin \<longrightarrow> buf ! (p + length ds) = tok" "\<forall>i < length ds. buf ! (p + i) = ds ! i"
  shows "parse_int buf fin tok p v = parsed (p + length ds) (foldl (\<lambda>v d. v * 10 + (uint d - 0x30)) v ds)"
  using assms(2-)
proof (induction ds arbitrary: p v)
  case Nil
  then show ?case by (subst parse_int.simps) auto
next
  case (Cons d ds)
  define w where "w = v * 10 + (uint d - 0x30)"
  have d: "is_digit d" "d \<noteq> tok" "buf ! p = d" "p < fin" using Cons.prems assms(1) by auto
  then have "0x30 \<le> uint d" by (simp add: is_digit_def word_le_def)
  then have w: "0 \<le> w" using Cons.prems(1) by (simp add: w_def)
  have f: "foldl (\<lambda>v d. v * 10 + (uint d - 0x30)) w ds < 2 ^ 63" using Cons.prems(3) by (simp add: w_def)
  then have "w < 2 ^ 63" using digits_step_mono [OF w, of ds] Cons.prems(2) by simp
  moreover have "\<forall>i < length ds. buf ! (Suc p + i) = ds ! i" using Cons.prems(6) by fastforce
  then have "parse_int buf fin tok (Suc p) w = parsed (Suc p + length ds) (foldl (\<lambda>v d. v * 10 + (uint d - 0x30)) w ds)"
    using Cons.IH [OF w _ f, of "Suc p"] Cons.prems by simp
  ultimately show ?case using d by (subst parse_int.simps) (simp add: Let_def w_def [symmetric])
qed

lemma nth_at: "drop p buf = xs @ s \<Longrightarrow> i < length xs \<Longrightarrow> buf ! (p + i) = xs ! i"
proof -
  assume a: "drop p buf = xs @ s" "i < length xs"
  then have "p \<le> length buf" by (cases "p \<le> length buf") auto
  then show ?thesis using a nth_drop [of p buf i] by (simp add: nth_append)
qed

lemma parse_len:
  assumes "drop p buf = dec n @ ch_colon # s" "n < 2 ^ 63"
  shows "is_digit (buf ! p)" "parse_int buf (length buf) ch_colon (Suc p) (uint (buf ! p) - 0x30) = parsed (p + length (dec n)) (int n)"
proof -
  obtain c ds where d: "dec n = c # ds" "is_digit c" by (rule dec_Cons)
  have p: "buf ! p = c" "drop (Suc p) buf = ds @ ch_colon # s" using drop_Cons [of p buf c] assms(1) d(1) by auto
  then show "is_digit (buf ! p)" using d(2) by simp
  have v: "foldl (\<lambda>v d. v * 10 + (uint d - 0x30)) (uint c - 0x30) ds = int n" using dec_value [of n] d(1) by (simp add: digits_value_def)
  have e: "Suc p + length ds < length buf" "buf ! (Suc p + length ds) = ch_colon"
    using length_at [OF p(2)] drop_Cons [OF drop_append [OF p(2)]] by simp_all
  have "0x30 \<le> uint c" "list_all is_digit ds" "\<not> is_digit ch_colon"
    using d(2) dec_digits [of _ n] d(1) is_digit_numeral(5) by (auto simp: is_digit_def word_le_def list_all_iff)
  then show "parse_int buf (length buf) ch_colon (Suc p) (uint (buf ! p) - 0x30) = parsed (p + length (dec n)) (int n)"
    using parse_int_digits [of ch_colon "uint c - 0x30" ds "Suc p" "length buf" buf] nth_at [OF p(2)] e v assms(2) p(1) d(1) by simp
qed

lemma int_value_at:
  assumes "drop p buf = integer_to_str v @ ch_e # s" "- (2 ^ 63) < v" "v < 2 ^ 63"
  shows "int_value buf p (length (integer_to_str v)) = Inr v"
proof -
  have val: "parse_int buf (q + length (dec n)) ch_e q 0 = parsed (q + length (dec n)) (int n)"
    if "drop q buf = dec n @ ch_e # s" "n < 2 ^ 63" for q n
    using parse_int_digits [of ch_e 0 "dec n" q "q + length (dec n)" buf] nth_at [OF that(1)] dec_value [of n] dec_digits [of _ n] is_digit_numeral(1) [of ch_e] that(2)
    by (auto simp: digits_value_def list_all_iff)
  show ?thesis
  proof (cases "v < 0")
    case True
    then have i: "integer_to_str v = ch_minus # dec (nat (- v))" using assms integer_to_str_neg [of "nat (- v)"] by simp
    then have "buf ! p = ch_minus" "drop (Suc p) buf = dec (nat (- v)) @ ch_e # s" using drop_Cons [of p buf ch_minus] assms(1) by auto
    then show ?thesis using val [of "Suc p" "nat (- v)"] True assms(2) by (simp add: int_value_def i)
  next
    case False
    then have i: "integer_to_str v = dec (nat v)" using assms integer_to_str_nat [of "nat v"] by simp
    obtain c ds where d: "dec (nat v) = c # ds" "is_digit c" by (rule dec_Cons)
    then have "buf ! p \<noteq> ch_minus" using drop_Cons [of p buf c] assms(1) is_digit_numeral(6) by (auto simp: i)
    then show ?thesis using val [of p "nat v"] False assms(1,3) by (simp add: int_value_def i)
  qed
qed

lemma find_char_at: "drop p buf = xs @ tok # s \<Longrightarrow> tok \<notin> set xs \<Longrightarrow> find_char buf (length buf) tok p = p + length xs"
proof (induction xs arbitrary: p)
  case Nil
  then show ?case using drop_Cons [of p buf tok s] by (subst find_char.simps) simp
next
  case (Cons c xs)
  then show ?case using drop_Cons [of p buf c] by (subst find_char.simps) auto
qed

lemma num_digits_dec: "num_digits n = length (dec n)"
  by (induction n rule: dec.induct) (subst num_digits.simps, subst dec.simps, auto)

section \<open>Round trip\<close>

text \<open>The lazy entry of a value whose code begins at position \<open>p\<close>, and the number of values in it.\<close>

fun lazy_of :: "nat \<Rightarrow> entry \<Rightarrow> lazy_entry" and lazy_of_list :: "nat \<Rightarrow> entry list \<Rightarrow> lazy_entry list"
  and lazy_of_dict :: "nat \<Rightarrow> (bstring \<times> entry) list \<Rightarrow> (nat \<times> lazy_entry) list" where
  "lazy_of p (int_t v) = lazy_int (p + 1) (length (integer_to_str v))"
| "lazy_of p (string_t s) = lazy_string (p + length (dec (length s)) + 1) (length s)"
| "lazy_of p (list_t es) = lazy_list p (length (bencode_list es) + 2) (lazy_of_list (p + 1) es)"
| "lazy_of p (dictionary_t d) = lazy_dict p (length (bencode_dict d) + 2) (lazy_of_dict (p + 1) d)"
| "lazy_of p undefined_t = lazy_none"
| "lazy_of_list p [] = []"
| "lazy_of_list p (e # es) = lazy_of p e # lazy_of_list (p + length (bencode_recursive e)) es"
| "lazy_of_dict p [] = []"
| "lazy_of_dict p ((k, e) # d) =
    (let name = p + length (dec (length k)) + 1; v = name + length k in (name, lazy_of v e) # lazy_of_dict (v + length (bencode_recursive e)) d)"

fun items_of :: "entry \<Rightarrow> int" and items_list :: "entry list \<Rightarrow> int" and items_dict :: "(bstring \<times> entry) list \<Rightarrow> int" where
  "items_of (list_t es) = 1 + items_list es"
| "items_of (dictionary_t d) = 1 + items_dict d"
| "items_of e = 1"
| "items_list [] = 0"
| "items_list (e # es) = items_of e + items_list es"
| "items_dict [] = 0"
| "items_dict ((k, e) # d) = items_of e + items_dict d"

lemma items_nonneg: "0 < items_of e" "0 \<le> items_list es" "0 \<le> items_dict d"
  by (induction e and es and d rule: items_of_items_list_items_dict.induct) auto

definition proceed :: "uint8 list \<Rightarrow> nat \<Rightarrow> lazy_result + lazy_state \<Rightarrow> lazy_result" where
  "proceed buf depth_limit res = (case res of Inl r \<Rightarrow> r | Inr st \<Rightarrow> lazy_loop buf depth_limit st)"

lemma proceed_Inr: "proceed buf depth_limit (Inr st) = lazy_loop buf depth_limit st"
  by (simp add: proceed_def)

lemma lazy_loop_step: "ls_start st < length buf \<Longrightarrow> ls_stack st \<noteq> [] \<Longrightarrow> lazy_loop buf depth_limit st = proceed buf depth_limit (lazy_step buf depth_limit st)"
  by (subst lazy_loop.simps) (simp add: proceed_def)

lemma lazy_decode:
  "encodable e \<Longrightarrow> drop p buf = bencode_recursive e @ r \<Longrightarrow> length stk + depth_of e \<le> dl \<Longrightarrow> items_of e < n \<Longrightarrow>
    proceed buf dl (lazy_value buf (buf ! p) (Suc p) (lazy_none # stk) ret n)
      = lazy_loop buf dl (pop_back (p + length (bencode_recursive e)) (lazy_of p e) stk ret (n - items_of e))"
  "encodable_list es \<Longrightarrow> drop p buf = bencode_list es @ ch_e # r \<Longrightarrow> Suc (length stk) + depth_list es \<le> dl \<Longrightarrow> items_list es < n \<Longrightarrow>
    lazy_loop buf dl \<lparr>ls_start = p, ls_stack = lazy_list b 0 les # stk, ls_ret = ret, ls_items = n\<rparr>
      = lazy_loop buf dl (pop_back (p + length (bencode_list es) + 1) (lazy_list b (p + length (bencode_list es) + 1 - b) (les @ lazy_of_list p es)) stk ret (n - items_list es))"
  "encodable_dict d \<Longrightarrow> drop p buf = bencode_dict d @ ch_e # r \<Longrightarrow> Suc (length stk) + depth_dict d \<le> dl \<Longrightarrow> items_dict d < n \<Longrightarrow>
    lazy_loop buf dl \<lparr>ls_start = p, ls_stack = lazy_dict b 0 ld # stk, ls_ret = ret, ls_items = n\<rparr>
      = lazy_loop buf dl (pop_back (p + length (bencode_dict d) + 1) (lazy_dict b (p + length (bencode_dict d) + 1 - b) (ld @ lazy_of_dict p d)) stk ret (n - items_dict d))"
proof (induction e and es and d arbitrary: p r stk n ret and p r stk n ret b les and p r stk n ret b ld rule: bencode_recursive_bencode_list_bencode_dict.induct)
  case (1 v)
  have p: "buf ! p = ch_i" "drop (Suc p) buf = integer_to_str v @ ch_e # r" using drop_Cons [of p buf ch_i] 1(2) by auto
  have "find_char buf (length buf) ch_e (Suc p) = Suc p + length (integer_to_str v)" using find_char_at [OF p(2) integer_no_e] 1(1) by simp
  moreover have "Suc p + length (integer_to_str v) < length buf" using length_at [OF p(2)] by simp
  ultimately show ?case using p(1) 1(4) by (simp add: lazy_value_def Let_def proceed_Inr)
next
  case (2 s)
  have i: "integer_to_str (int (length s)) = dec (length s)" using 2(1) by (intro integer_to_str_nat) simp
  have a: "drop p buf = dec (length s) @ ch_colon # s @ r" using 2(2) by (simp add: i)
  note l = parse_len [OF a]
  define q where "q = p + length (dec (length s))"
  have q: "q < length buf" "buf ! q = ch_colon" "drop (Suc q) buf = s @ r" using drop_Cons [OF drop_append [OF a]] by (simp_all add: q_def)
  then have "Suc q + length s \<le> length buf" using end_at [OF q(3)] by simp
  then show ?case using l q 2(1,4) is_digit_numeral(2-4) [OF l(1)] by (simp add: lazy_value_def Let_def proceed_Inr i q_def add.assoc)
next
  case (3 es)
  have p: "buf ! p = ch_l" "drop (Suc p) buf = bencode_list es @ ch_e # r" using drop_Cons [of p buf ch_l] 3(3) by auto
  show ?case using 3(1) [OF _ p(2), of stk "n - 1" p "[]" ret] 3(2,4,5) p(1) items_nonneg(2) [of es] by (simp add: lazy_value_def Let_def proceed_Inr diff_diff_eq)
next
  case (4 d)
  have p: "buf ! p = ch_d" "drop (Suc p) buf = bencode_dict d @ ch_e # r" using drop_Cons [of p buf ch_d] 4(3) by auto
  show ?case using 4(1) [OF _ p(2), of stk "n - 1" p "[]" ret] 4(2,4,5) p(1) items_nonneg(3) [of d] by (simp add: lazy_value_def Let_def proceed_Inr diff_diff_eq)
next
  case (6 p r stk n ret b les)
  have "p < length buf" "buf ! p = ch_e" using drop_Cons [of p buf ch_e r] 6(2) by auto
  then show ?case using 6(3) by (subst lazy_loop_step) (simp_all add: lazy_step_def Let_def proceed_Inr)
next
  case (7 e es)
  define v where "v = bencode_recursive e"
  obtain c q where c: "v = c # q" "c \<noteq> ch_e" "q \<noteq> []" using bencode_first [of e] 7(3) by (auto simp: v_def)
  have p: "p < length buf" "buf ! p = c" "drop (Suc p) buf = q @ bencode_list es @ ch_e # r"
    using drop_Cons [of p buf c] 7(4) c(1) by (auto simp: v_def)
  then have "Suc p < length buf" using length_at [OF p(3)] by simp
  then have "lazy_loop buf dl \<lparr>ls_start = p, ls_stack = lazy_list b 0 les # stk, ls_ret = ret, ls_items = n\<rparr>
      = proceed buf dl (lazy_value buf (buf ! p) (Suc p) (lazy_none # lazy_list b 0 (les @ [lazy_none]) # stk) ret n)"
    using p c(2) 7(5) by (subst lazy_loop_step) (simp_all add: lazy_step_def Let_def)
  also have "\<dots> = lazy_loop buf dl \<lparr>ls_start = p + length v, ls_stack = lazy_list b 0 (les @ [lazy_of p e]) # stk, ls_ret = ret, ls_items = n - items_of e\<rparr>"
    using 7(1) [of p "bencode_list es @ ch_e # r" "lazy_list b 0 (les @ [lazy_none]) # stk" n ret] 7(3-6) items_nonneg(2) [of es]
    by (simp add: pop_back_def v_def)
  also have "\<dots> = lazy_loop buf dl (pop_back (p + length v + length (bencode_list es) + 1)
      (lazy_list b (p + length v + length (bencode_list es) + 1 - b) ((les @ [lazy_of p e]) @ lazy_of_list (p + length v) es)) stk ret (n - items_of e - items_list es))"
    using 7(3-6) drop_append [of p buf v "bencode_list es @ ch_e # r"] by (intro 7(2)) (simp_all add: v_def)
  finally show ?case by (simp add: v_def algebra_simps)
next
  case (8 p r stk n ret b ld)
  have "p < length buf" "buf ! p = ch_e" using drop_Cons [of p buf ch_e r] 8(2) by auto
  then show ?case using 8(3) by (subst lazy_loop_step) (simp_all add: lazy_step_def Let_def proceed_Inr)
next
  case (9 k e d)
  define v where "v = bencode_recursive e"
  have i: "integer_to_str (int (length k)) = dec (length k)" using 9(3) by (intro integer_to_str_nat) simp
  have a: "drop p buf = dec (length k) @ ch_colon # k @ v @ bencode_dict d @ ch_e # r" using 9(4) by (simp add: i v_def)
  note l = parse_len [OF a]
  define q where "q = p + length (dec (length k))"
  have q: "q < length buf" "buf ! q = ch_colon" "drop (Suc q) buf = k @ v @ bencode_dict d @ ch_e # r"
    using drop_Cons [OF drop_append [OF a]] by (simp_all add: q_def)
  have w: "drop (Suc q + length k) buf = v @ bencode_dict d @ ch_e # r" using drop_append [OF q(3)] .
  obtain c z where c: "v = c # z" "z \<noteq> []" unfolding v_def using bencode_first [of e] 9(3) by (metis encodable_dict.simps(2))
  have len: "q + length k + 3 \<le> length buf" using end_at [OF q(3)] q(1) c by (cases z) simp_all
  have "lazy_loop buf dl \<lparr>ls_start = p, ls_stack = lazy_dict b 0 ld # stk, ls_ret = ret, ls_items = n\<rparr>
      = proceed buf dl (lazy_value buf (buf ! (Suc q + length k)) (Suc (Suc q + length k)) (lazy_none # lazy_dict b 0 (ld @ [(Suc q, lazy_none)]) # stk) ret n)"
    using l is_digit_numeral(1) [OF l(1)] len q(2) 9(3,5) by (subst lazy_loop_step) (simp_all add: lazy_step_def Let_def q_def)
  also have "\<dots> = lazy_loop buf dl \<lparr>ls_start = Suc q + length k + length v, ls_stack = lazy_dict b 0 (ld @ [(Suc q, lazy_of (Suc q + length k) e)]) # stk, ls_ret = ret, ls_items = n - items_of e\<rparr>"
    using 9(1) [of "Suc q + length k" "bencode_dict d @ ch_e # r" "lazy_dict b 0 (ld @ [(Suc q, lazy_none)]) # stk" n ret] w 9(3,5,6) items_nonneg(3) [of d]
    by (simp add: pop_back_def v_def)
  also have "\<dots> = lazy_loop buf dl (pop_back (Suc q + length k + length v + length (bencode_dict d) + 1)
      (lazy_dict b (Suc q + length k + length v + length (bencode_dict d) + 1 - b)
        ((ld @ [(Suc q, lazy_of (Suc q + length k) e)]) @ lazy_of_dict (Suc q + length k + length v) d)) stk ret (n - items_of e - items_dict d))"
    using 9(3,5,6) drop_append [OF w] by (intro 9(2)) (simp_all add: v_def)
  finally show ?case by (simp add: v_def q_def i algebra_simps Let_def)
qed simp

lemma lazy_bdecode_bencode:
  assumes "encodable e" "depth_of e \<le> depth_limit" "items_of e < item_limit"
  shows "lazy_bdecode depth_limit item_limit (bencode_recursive e @ r) = lazy_ok (lazy_of 0 e)"
proof -
  define buf where "buf = bencode_recursive e @ r"
  obtain c q where c: "bencode_recursive e = c # q" "q \<noteq> []" using bencode_first [OF assms(1)] by metis
  have "1 < length buf" "buf \<noteq> []" using c by (cases q, simp_all add: buf_def)
  then have "lazy_bdecode depth_limit item_limit buf = proceed buf depth_limit (lazy_value buf (buf ! 0) (Suc 0) [lazy_none] lazy_none item_limit)"
    using assms(2) depth_of_pos [of e] unfolding lazy_bdecode_def
    by (simp, subst lazy_loop_step) (simp_all add: lazy_step_def Let_def)
  also have "\<dots> = lazy_loop buf depth_limit (pop_back (length (bencode_recursive e)) (lazy_of 0 e) [] lazy_none (item_limit - items_of e))"
    using lazy_decode(1) [of e 0 buf r "[]" depth_limit item_limit lazy_none] assms by (simp add: buf_def)
  also have "\<dots> = lazy_ok (lazy_of 0 e)" by (subst lazy_loop.simps) (simp add: pop_back_def)
  finally show ?thesis by (simp add: buf_def)
qed

text \<open>Reading the lazy entry of a value gives the value back; its keys are those of the dictionary.\<close>

lemma m_begin_lazy_of: "e \<noteq> undefined_t \<Longrightarrow> m_begin (lazy_of p e) = p"
  by (cases e) (simp_all add: num_digits_dec)

lemma encodable_defined: "encodable e \<Longrightarrow> e \<noteq> undefined_t"
  by auto

lemma dict_key_at:
  assumes "encodable_dict ((k, e) # d)" "drop p buf = bencode_dict ((k, e) # d) @ r"
  defines "name \<equiv> p + length (dec (length k)) + 1"
  shows "dict_key buf (name, lazy_of (name + length k) e) = k"
    and "drop (name + length k) buf = bencode_recursive e @ bencode_dict d @ r"
proof -
  have i: "integer_to_str (int (length k)) = dec (length k)" using assms(1) by (intro integer_to_str_nat) simp
  have a: "drop name buf = k @ bencode_recursive e @ bencode_dict d @ r"
    using drop_append [of p buf "dec (length k) @ [ch_colon]"] assms(2) by (simp add: i name_def)
  then show "drop (name + length k) buf = bencode_recursive e @ bencode_dict d @ r" by (rule drop_append)
  show "dict_key buf (name, lazy_of (name + length k) e) = k"
    using slice_at [OF a] assms(1) m_begin_lazy_of [OF encodable_defined, of e] by (simp add: dict_key_def)
qed

lemma entry_assign_lazy_of:
  "encodable e \<Longrightarrow> drop p buf = bencode_recursive e @ r \<Longrightarrow> entry_assign buf (lazy_of p e) undefined_t = Inr e"
  "encodable_list es \<Longrightarrow> drop p buf = bencode_list es @ r \<Longrightarrow> assign_items buf (lazy_of_list p es) les = Inr (les @ es)"
  "encodable_dict d \<Longrightarrow> drop p buf = bencode_dict d @ r \<Longrightarrow> \<forall>x \<in> fst ` set ld. \<forall>y \<in> fst ` set d. x < y \<Longrightarrow>
    assign_pairs buf (lazy_of_dict p d) ld = Inr (ld @ d)"
proof (induction e and es and d arbitrary: p r and p r les and p r ld rule: bencode_recursive_bencode_list_bencode_dict.induct)
  case (1 v)
  then show ?case using int_value_at [of "Suc p" buf v r] drop_Cons [of p buf ch_i] by simp
next
  case (2 s)
  have i: "integer_to_str (int (length s)) = dec (length s)" using 2(1) by (intro integer_to_str_nat) simp
  then show ?case using slice_at [OF drop_append [of p buf "dec (length s) @ [ch_colon]" "s @ r"]] 2(2) by simp
next
  case (3 es)
  then show ?case using drop_Cons [of p buf ch_l] by simp
next
  case (4 d)
  then show ?case using drop_Cons [of p buf ch_d] by simp
next
  case (7 e es)
  then show ?case using drop_append [of p buf "bencode_recursive e"] by simp
next
  case (9 k e d)
  define name where "name = p + length (dec (length k)) + 1"
  note k = dict_key_at [OF 9(3,4), folded name_def]
  have "entry_assign buf (lazy_of (name + length k) e) undefined_t = Inr e" using 9(1,3) k(2) by simp
  moreover have "map_of ld k = None" using 9(5) by (auto simp: map_of_eq_None_iff)
  moreover have "dict_assign k e ld = ld @ [(k, e)]" using 9(5) by (intro dict_assign_last) simp
  moreover have "\<forall>x \<in> fst ` set (ld @ [(k, e)]). \<forall>y \<in> fst ` set d. x < y" using 9(3,5) by (auto simp: list_all_iff)
  then have "assign_pairs buf (lazy_of_dict (name + length k + length (bencode_recursive e)) d) (ld @ [(k, e)]) = Inr ((ld @ [(k, e)]) @ d)"
    using 9(2) [OF _ drop_append [OF k(2)]] 9(3) by simp
  ultimately show ?case using k(1) by (simp add: Let_def name_def)
qed simp_all

lemma string_equal_iff: "string_equal name k \<longleftrightarrow> name = k \<and> 0 \<notin> set name"
  by (induction name k rule: string_equal.induct) auto

lemma dict_find_lazy_of:
  assumes "0 \<notin> set name"
  shows "encodable_dict d \<Longrightarrow> drop p buf = bencode_dict d @ r \<Longrightarrow>
    map_option (\<lambda>x. entry_assign buf x undefined_t) (dict_find buf name (lazy_of_dict p d)) = map_option Inr (map_of d name)"
proof (induction d arbitrary: p)
  case (Cons x d)
  obtain k e where x: "x = (k, e)" by (cases x)
  note a = Cons.prems [unfolded x]
  define q where "q = p + length (dec (length k)) + 1"
  note k = dict_key_at [OF a, folded q_def]
  have "entry_assign buf (lazy_of (q + length k) e) undefined_t = Inr e" using entry_assign_lazy_of(1) [OF _ k(2)] a(1) by simp
  then show ?case using Cons.IH [OF _ drop_append [OF k(2)]] a(1) k(1) assms
    by (auto simp: x dict_find_def Let_def q_def string_equal_iff)
qed (simp add: dict_find_def)

lemma lazy_bdecode_roundtrip:
  assumes "encodable e" "depth_of e \<le> depth_limit" "items_of e < item_limit"
  shows "lazy_bdecode depth_limit item_limit (bencode e) = lazy_ok (lazy_of 0 e) \<and> entry_assign (bencode e) (lazy_of 0 e) undefined_t = Inr e"
  using lazy_bdecode_bencode [OF assms, of "[]"] entry_assign_lazy_of(1) [OF assms(1), of 0 "bencode e" "[]"] by (simp add: bencode_def)

text \<open>
  C20. Bencoding is lossless: for every value without undefined parts whose dictionaries are in the
  order of their keys, whose integers are not the least one of 64 bits, and which stays within the
  limits of the decoders, \<open>bdecode\<close> gives the value back, and \<open>lazy_bdecode\<close> with its default limits
  succeeds with a tree whose assignment to an entry gives the value back. The number of bytes that
  \<open>bencode\<close> reports is the number it wrote.
\<close>

theorem bencode_roundtrip:
  assumes "encodable e" "depth_of e \<le> 100" "items_of e < 1000000"
  shows "bdecode (bencode e) = Inr e \<and> bencode_count e = length (bencode e)
    \<and> (\<exists>l. lazy_bdecode 1000 1000000 (bencode e) = lazy_ok l \<and> entry_assign (bencode e) l undefined_t = Inr e)"
  using bdecode_roundtrip [OF assms(1,2)] lazy_bdecode_roundtrip [OF assms(1) _ assms(3), of 1000] assms(2) bencode_count(1) [of e]
  by (simp add: bencode_def)

definition demo_entry :: entry where
  "demo_entry = dictionary_t [([0x61], list_t [int_t (- 7), string_t []]), ([0x62, 0x63], string_t [0x78, 0x79])]"

lemma demo_encodable: "encodable demo_entry" "depth_of demo_entry \<le> 100" "items_of demo_entry < 1000000"
  by (simp_all add: demo_entry_def)

theorem bencode_roundtrip_witness:
  "bdecode (bencode demo_entry) = Inr demo_entry
    \<and> (\<exists>l. lazy_bdecode 1000 1000000 (bencode demo_entry) = lazy_ok l \<and> entry_assign (bencode demo_entry) l undefined_t = Inr demo_entry)"
  using bencode_roundtrip [OF demo_encodable] by blast

text \<open>
  C21. What a transfer looks up in its resume data is what was stored: in the decoded dictionary
  \<open>dict_find_string_value\<close> and \<open>dict_find_int_value\<close> return the string or number under a name (without
  zero bytes), and the empty string or the default if there is none of that type.
\<close>

theorem resume_lookup:
  assumes "encodable (dictionary_t d)" "depth_of (dictionary_t d) \<le> 1000" "items_of (dictionary_t d) < 1000000" "0 \<notin> set name"
  defines "buf \<equiv> bencode (dictionary_t d)"
  shows "\<exists>b len items. lazy_bdecode 1000 1000000 buf = lazy_ok (lazy_dict b len items)
    \<and> dict_find_string_value buf name items = (case map_of d name of Some (string_t s) \<Rightarrow> s | _ \<Rightarrow> [])
    \<and> dict_find_int_value buf name v items = Inr (case map_of d name of Some (int_t n) \<Rightarrow> n | _ \<Rightarrow> v)"
proof -
  have l: "lazy_bdecode 1000 1000000 buf = lazy_ok (lazy_dict 0 (length (bencode_dict d) + 2) (lazy_of_dict 1 d))"
    using lazy_bdecode_roundtrip [OF assms(1-3)] by (simp add: buf_def)
  have "encodable_dict d" "drop 1 buf = bencode_dict d @ [ch_e]" using assms(1) by (simp_all add: buf_def bencode_def)
  note f = dict_find_lazy_of [OF assms(4) this]
  let ?r = "dict_find buf name (lazy_of_dict 1 d)"
  have "dict_find_string_value buf name (lazy_of_dict 1 d) = (case map_of d name of Some (string_t s) \<Rightarrow> s | _ \<Rightarrow> [])
    \<and> dict_find_int_value buf name v (lazy_of_dict 1 d) = Inr (case map_of d name of Some (int_t n) \<Rightarrow> n | _ \<Rightarrow> v)"
  proof (cases ?r)
    case None
    then have "map_of d name = None" using f by simp
    then show ?thesis using None by (simp add: dict_find_string_value_def dict_find_int_value_def)
  next
    case (Some x)
    then obtain e where e: "map_of d name = Some e" "entry_assign buf x undefined_t = Inr e" using f by (cases "map_of d name") auto
    then show ?thesis using Some
      by (cases x) (auto simp: dict_find_string_value_def dict_find_int_value_def split: sum.splits)
  qed
  then show ?thesis using l by blast
qed

theorem resume_lookup_witness:
  "\<exists>b len items. lazy_bdecode 1000 1000000 (bencode (dictionary_t [([0x61], int_t 5)])) = lazy_ok (lazy_dict b len items)
    \<and> dict_find_int_value (bencode (dictionary_t [([0x61], int_t 5)])) [0x61] 0 items = Inr 5"
  using resume_lookup [of "[([0x61], int_t 5)]" "[0x61]" 0] by auto


end
